(* ===== verification/Server_Prelude.thy ===== *)
theory Server_Prelude
  imports Complex_Main
begin

text \<open>
  Shared ground of the development: the Python values the model server computes with
  (floating-point parameters, text as lists of code points, exceptions), the generic list
  lemmas, and the notion of a reachable state with the interface every invariant proof of
  the server goes through.
\<close>

section \<open>Lemma collections\<close>

named_theorems frame_simps \<open>what an operation of the server leaves alone\<close>
named_theorems inv_intros \<open>preservation of the scheduler's invariants\<close>

section \<open>Python values\<close>

text \<open>
  A Python \<^verbatim>\<open>float\<close>: every finite double is a rational number, and comparisons on
  finite doubles are exact.  Comparisons with a NaN are false.
\<close>

datatype pyfloat = Fin rat | PosInf | NegInf | NaN

fun flt :: "pyfloat \<Rightarrow> pyfloat \<Rightarrow> bool" where
  "flt (Fin a) (Fin b) = (a < b)"
| "flt (Fin a) PosInf = True"
| "flt NegInf (Fin b) = True"
| "flt NegInf PosInf = True"
| "flt _ _ = False"

fun fle :: "pyfloat \<Rightarrow> pyfloat \<Rightarrow> bool" where
  "fle NaN _ = False"
| "fle _ NaN = False"
| "fle (Fin a) (Fin b) = (a \<le> b)"
| "fle NegInf _ = True"
| "fle _ PosInf = True"
| "fle _ _ = False"

text \<open>
  Python text is a list of Unicode code points; \<open>char\<close> of HOL only has 256 values.
  ASCII literals of the source are embedded with \<open>lit\<close>.
\<close>

type_synonym ustring = "nat list"

definition lit :: "string \<Rightarrow> ustring" where
  "lit cs = map of_char cs"

text \<open>The exceptions the server tells apart.\<close>

datatype exn = CancelledError | OutOfMemoryError | OtherException string

section \<open>Items before the end-of-stream marker\<close>

text \<open>
  A request's channel carries \<open>Some token\<close> items and the sentinel \<open>None\<close>.  What a
  consumer that stops at the first sentinel reads is \<open>before_none\<close>.
\<close>

fun before_none :: "'a option list \<Rightarrow> 'a list" where
  "before_none [] = []"
| "before_none (None # _) = []"
| "before_none (Some x # ys) = x # before_none ys"

lemma before_none_map_Some [simp]: "before_none (map Some xs) = xs"
  by (induction xs) auto

lemma before_none_append_None [simp]: "None \<in> set xs \<Longrightarrow> before_none (xs @ ys) = before_none xs"
  by (induction xs rule: before_none.induct) auto

lemma before_none_append: "None \<notin> set xs \<Longrightarrow> before_none (xs @ ys) = before_none xs @ before_none ys"
  by (induction xs rule: before_none.induct) auto

lemma before_none_length: "None \<notin> set xs \<Longrightarrow> length (before_none xs) = length xs"
  by (induction xs rule: before_none.induct) auto

lemma map_Some_before_none: "None \<notin> set xs \<Longrightarrow> map Some (before_none xs) = xs"
  by (induction xs rule: before_none.induct) auto

section \<open>Lists\<close>

lemma set_remove1_distinct: "distinct xs \<Longrightarrow> set (remove1 x xs) = set xs - {x}"
  by simp

lemma distinct_append_remove1:
  "distinct (xs @ ys) \<Longrightarrow> distinct (xs @ remove1 y ys)"
  by (auto simp: distinct_remove1)

lemma distinct_filter_append: "distinct (xs @ ys) \<Longrightarrow> distinct (filter P xs @ ys)"
  by auto

section \<open>Reachable states\<close>

text \<open>
  A system is a set of start states and a step relation labelled with events.  An invariant
  holds at the start and is kept by every step; the interface below turns the two facts into
  one about every reachable state.
\<close>

inductive reach :: "('s \<Rightarrow> bool) \<Rightarrow> ('s \<Rightarrow> 'e \<Rightarrow> 's \<Rightarrow> bool) \<Rightarrow> 's \<Rightarrow> bool"
  for start :: "'s \<Rightarrow> bool" and step :: "'s \<Rightarrow> 'e \<Rightarrow> 's \<Rightarrow> bool" where
  reach_start: "start s \<Longrightarrow> reach start step s"
| reach_step: "reach start step s \<Longrightarrow> step s e t \<Longrightarrow> reach start step t"

locale step_invariant =
  fixes start :: "'s \<Rightarrow> bool"
    and step :: "'s \<Rightarrow> 'e \<Rightarrow> 's \<Rightarrow> bool"
    and inv :: "'s \<Rightarrow> bool"
  assumes inv_start: "start s \<Longrightarrow> inv s"
    and inv_step: "inv s \<Longrightarrow> step s e t \<Longrightarrow> inv t"
begin

lemma reach_inv: "reach start step s \<Longrightarrow> inv s"
  by (induction rule: reach.induct) (auto intro: inv_start inv_step)

end

end
