(* ===== verification/Sequences.thy ===== *)
theory Sequences
  imports Server_Prelude
begin

text \<open>
  One in-flight request: \<^verbatim>\<open>class Sequence\<close> and \<^verbatim>\<open>_running_loop\<close> of
  \<^verbatim>\<open>src/model_server/batching.py\<close>.  Sequences are shared, mutable Python objects: the
  scheduler's two deques, the running batch and the request handler all hold the same object.
  The model keeps them in a store from references to objects, and every operation passes the
  store along.  A reference is the number \<^verbatim>\<open>next(_next_id)\<close> gave the object, so the
  generated \<^verbatim>\<open>__eq__\<close> (which compares the id and the queue object among the fields) and
  object identity both are equality of references.

  \<open>emit\<close> does not touch the queue of a sequence that was built on an event loop: it hands a
  callback to the loop.  The store therefore also keeps the loop's list of pending
  callbacks, and the \<open>channel\<close> of a request is what its queue holds followed by what is
  still pending for it.
\<close>

section \<open>State\<close>

record sequence =
  prompt_ids :: "int list"
  max_new_tokens :: int
  temperature :: pyfloat
  top_k :: "int option"
  eos_token_ids :: "int set"
  seq_id :: nat
  output_ids :: "int list"
  finish_reason :: string
  queue :: "int option list"
  seq_loop :: "nat option"

record store =
  seqs :: "nat \<Rightarrow> sequence"
  next_id :: nat
  calls :: "(nat \<times> int option) list"

text \<open>What the store holds at references no constructor has returned yet.\<close>

definition blank_sequence :: sequence where
  "blank_sequence = \<lparr>prompt_ids = [], max_new_tokens = 0, temperature = Fin 0, top_k = None,
     eos_token_ids = {}, seq_id = 0, output_ids = [], finish_reason = [], queue = [],
     seq_loop = None\<rparr>"

section \<open>Operations\<close>

text \<open>\<^verbatim>\<open>asyncio.get_running_loop()\<close> gives the loop or raises \<^verbatim>\<open>RuntimeError\<close>.\<close>

definition running_loop :: "exn + nat \<Rightarrow> nat option" where
  "running_loop current = (case current of Inr l \<Rightarrow> Some l | Inl _ \<Rightarrow> None)"

text \<open>
  The constructor: the fields the caller gives, a fresh id, and the default factories for the
  output, the finish reason, the queue and the loop.
\<close>

definition new_sequence ::
  "int list \<Rightarrow> int \<Rightarrow> pyfloat \<Rightarrow> int option \<Rightarrow> int set \<Rightarrow> exn + nat \<Rightarrow> 'a store_scheme
    \<Rightarrow> nat \<times> 'a store_scheme" where
  "new_sequence prompt n temp k eos current s =
     (let r = next_id s in
      (r, s\<lparr>seqs := (seqs s)(r := \<lparr>prompt_ids = prompt, max_new_tokens = n, temperature = temp,
               top_k = k, eos_token_ids = eos, seq_id = r, output_ids = [],
               finish_reason = '''', queue = [], seq_loop = running_loop current\<rparr>),
            next_id := Suc r\<rparr>))"

definition upd_seq :: "nat \<Rightarrow> (sequence \<Rightarrow> sequence) \<Rightarrow> 'a store_scheme \<Rightarrow> 'a store_scheme" where
  "upd_seq r f s = s\<lparr>seqs := (seqs s)(r := f (seqs s r))\<rparr>"

definition put_nowait :: "nat \<Rightarrow> int option \<Rightarrow> 'a store_scheme \<Rightarrow> 'a store_scheme" where
  "put_nowait r token s = upd_seq r (\<lambda>q. q\<lparr>queue := queue q @ [token]\<rparr>) s"

definition emit :: "nat \<Rightarrow> int option \<Rightarrow> 'a store_scheme \<Rightarrow> 'a store_scheme" where
  "emit r token s =
     (case seq_loop (seqs s r) of
        None \<Rightarrow> put_nowait r token s
      | Some l \<Rightarrow> s\<lparr>calls := calls s @ [(r, token)]\<rparr>)"

definition token_ids :: "sequence \<Rightarrow> int list" where
  "token_ids q = prompt_ids q @ output_ids q"

definition is_finished :: "sequence \<Rightarrow> bool" where
  "is_finished q \<longleftrightarrow> finish_reason q \<noteq> ''''"

definition seq_len :: "sequence \<Rightarrow> int" where
  "seq_len q = int (length (prompt_ids q)) + int (length (output_ids q))"

text \<open>
  The event loop runs the oldest callback; \<^verbatim>\<open>await queue.get()\<close> resumes with the oldest
  item once there is one.
\<close>

definition deliver :: "'a store_scheme \<Rightarrow> 'a store_scheme" where
  "deliver s = (case calls s of [] \<Rightarrow> s | (r, token) # cs \<Rightarrow> put_nowait r token (s\<lparr>calls := cs\<rparr>))"

definition queue_get :: "nat \<Rightarrow> 'a store_scheme \<Rightarrow> (int option \<times> 'a store_scheme) option" where
  "queue_get r s = (case queue (seqs s r) of
      [] \<Rightarrow> None
    | token # rest \<Rightarrow> Some (token, upd_seq r (\<lambda>q. q\<lparr>queue := rest\<rparr>) s))"

section \<open>Frame facts\<close>

lemma upd_seq_simps [simp]:
  "seqs (upd_seq r f s) q = (if q = r then f (seqs s r) else seqs s q)"
  "next_id (upd_seq r f s) = next_id s"
  "calls (upd_seq r f s) = calls s"
  by (simp_all add: upd_seq_def)

lemma put_nowait_simps [simp]:
  "seqs (put_nowait r t s) q
     = (if q = r then (seqs s r)\<lparr>queue := queue (seqs s r) @ [t]\<rparr> else seqs s q)"
  "next_id (put_nowait r t s) = next_id s"
  "calls (put_nowait r t s) = calls s"
  by (simp_all add: put_nowait_def)

text \<open>
  What the request is, as opposed to how far it got: no operation after the constructor
  changes these fields.
\<close>

definition spec_of :: "sequence \<Rightarrow> int list \<times> int \<times> pyfloat \<times> int option \<times> int set \<times> nat \<times> nat option" where
  "spec_of q = (prompt_ids q, max_new_tokens q, temperature q, top_k q, eos_token_ids q,
                seq_id q, seq_loop q)"

lemma spec_of_fields:
  assumes "spec_of p = spec_of q"
  shows "prompt_ids p = prompt_ids q" "max_new_tokens p = max_new_tokens q"
    "temperature p = temperature q" "top_k p = top_k q" "eos_token_ids p = eos_token_ids q"
    "seq_id p = seq_id q" "seq_loop p = seq_loop q"
  using assms by (auto simp: spec_of_def)

lemma spec_of_updates [simp]:
  "spec_of (q\<lparr>queue := x\<rparr>) = spec_of q"
  "spec_of (q\<lparr>output_ids := y\<rparr>) = spec_of q"
  "spec_of (q\<lparr>finish_reason := z\<rparr>) = spec_of q"
  by (simp_all add: spec_of_def)

text \<open>
  Progress of a sequence, all but its queue: \<open>emit\<close> and the event loop change the queues and
  the pending callbacks only.
\<close>

lemma emit_frame [simp]:
  "next_id (emit r t s) = next_id s"
  "output_ids (seqs (emit r t s) q) = output_ids (seqs s q)"
  "finish_reason (seqs (emit r t s) q) = finish_reason (seqs s q)"
  "spec_of (seqs (emit r t s) q) = spec_of (seqs s q)"
  "is_finished (seqs (emit r t s) q) = is_finished (seqs s q)"
  by (simp_all add: emit_def is_finished_def split: option.splits)

lemma emit_fields [simp]:
  "prompt_ids (seqs (emit r t s) q) = prompt_ids (seqs s q)"
  "max_new_tokens (seqs (emit r t s) q) = max_new_tokens (seqs s q)"
  "eos_token_ids (seqs (emit r t s) q) = eos_token_ids (seqs s q)"
  "seq_id (seqs (emit r t s) q) = seq_id (seqs s q)"
  "seq_loop (seqs (emit r t s) q) = seq_loop (seqs s q)"
  "seq_len (seqs (emit r t s) q) = seq_len (seqs s q)"
  "token_ids (seqs (emit r t s) q) = token_ids (seqs s q)"
  by (simp_all add: emit_def seq_len_def token_ids_def split: option.splits)

lemma seq_len_token_ids: "seq_len q = int (length (token_ids q))"
  by (simp add: seq_len_def token_ids_def)

section \<open>The channel of a request\<close>

definition channel :: "nat \<Rightarrow> 'a store_scheme \<Rightarrow> int option list" where
  "channel r s = queue (seqs s r) @ map snd (filter (\<lambda>c. fst c = r) (calls s))"

text \<open>Callbacks are only handed to a loop by sequences that were built on one.\<close>

definition calls_ok :: "'a store_scheme \<Rightarrow> bool" where
  "calls_ok s \<longleftrightarrow> (\<forall>c \<in> set (calls s). seq_loop (seqs s (fst c)) \<noteq> None)"

lemma calls_ok_emit [simp]: "calls_ok s \<Longrightarrow> calls_ok (emit r t s)"
  by (auto simp: calls_ok_def emit_def split: option.splits)

lemma no_calls_off_loop:
  "calls_ok s \<Longrightarrow> seq_loop (seqs s r) = None \<Longrightarrow> filter (\<lambda>c. fst c = r) (calls s) = []"
  by (force simp: calls_ok_def filter_empty_conv)

lemma channel_emit:
  "calls_ok s \<Longrightarrow> channel q (emit r t s) = channel q s @ (if q = r then [t] else [])"
  by (auto simp: channel_def emit_def no_calls_off_loop split: option.splits)

text \<open>
  The interface between whoever produces a request's tokens and whoever reads them: putting
  an item in appends it to that request's channel and to no other.
\<close>

locale token_channel =
  fixes put :: "nat \<Rightarrow> int option \<Rightarrow> 's \<Rightarrow> 's"
    and chan :: "nat \<Rightarrow> 's \<Rightarrow> int option list"
    and ok :: "'s \<Rightarrow> bool"
  assumes put_ok: "ok s \<Longrightarrow> ok (put r t s)"
    and put_chan: "ok s \<Longrightarrow> chan q (put r t s) = chan q s @ (if q = r then [t] else [])"
begin

lemma put_all_ok: "ok s \<Longrightarrow> ok (fold (\<lambda>r. put r t) rs s)"
  by (induction rs arbitrary: s) (auto intro: put_ok)

lemma put_all_chan:
  "ok s \<Longrightarrow> distinct rs \<Longrightarrow>
    chan q (fold (\<lambda>r. put r t) rs s) = chan q s @ (if q \<in> set rs then [t] else [])"
  by (induction rs arbitrary: s) (auto simp: put_chan put_ok)

lemma put_then_put:
  "ok s \<Longrightarrow> chan q (put r u (put r t s)) = chan q s @ (if q = r then [t, u] else [])"
  by (simp add: put_chan put_ok)

lemma other_channels_untouched: "ok s \<Longrightarrow> q \<noteq> r \<Longrightarrow> chan q (put r t s) = chan q s"
  by (simp add: put_chan)

end

interpretation seq_channel: token_channel emit channel calls_ok
  by unfold_locales (auto simp: channel_emit)

text \<open>The two asyncio steps move items along the channel and never reorder or drop one.\<close>

lemma channel_deliver: "calls_ok s \<Longrightarrow> channel q (deliver s) = channel q s"
  by (auto simp: deliver_def channel_def split: list.splits)

lemma deliver_frame [simp]:
  "next_id (deliver s) = next_id s"
  "output_ids (seqs (deliver s) q) = output_ids (seqs s q)"
  "finish_reason (seqs (deliver s) q) = finish_reason (seqs s q)"
  "spec_of (seqs (deliver s) q) = spec_of (seqs s q)"
  "is_finished (seqs (deliver s) q) = is_finished (seqs s q)"
  by (simp_all add: deliver_def is_finished_def split: list.splits prod.splits)

lemma calls_ok_deliver [simp]: "calls_ok s \<Longrightarrow> calls_ok (deliver s)"
  by (auto simp: calls_ok_def deliver_def split: list.splits)

lemma queue_get_Some:
  assumes "queue_get r s = Some (t, s')"
  shows "channel r s = t # channel r s'" and "q \<noteq> r \<Longrightarrow> channel q s' = channel q s"
    and "next_id s' = next_id s" and "output_ids (seqs s' q) = output_ids (seqs s q)"
    and "finish_reason (seqs s' q) = finish_reason (seqs s q)"
    and "spec_of (seqs s' q) = spec_of (seqs s q)"
    and "is_finished (seqs s' q) = is_finished (seqs s q)"
    and "calls s' = calls s"
  using assms
  by (auto simp: queue_get_def channel_def is_finished_def split: list.splits if_splits)

end
