(* ===== verification/Scheduler.thy ===== *)
theory Scheduler
  imports Sequences
begin

text \<open>
  \<^verbatim>\<open>class Scheduler\<close> of \<^verbatim>\<open>src/model_server/batching.py\<close>: two deques of references and an
  admission rule.  The scheduler's fields extend the store of sequences, so an operation
  takes the state and returns the new one; the methods keep the names and the order of the
  source.
\<close>

section \<open>State\<close>

record scheduler = store +
  waiting :: "nat list"
  running :: "nat list"
  max_batch_size :: int
  max_batch_tokens :: int

definition init_scheduler :: "int \<Rightarrow> int \<Rightarrow> 'a scheduler_scheme \<Rightarrow> 'a scheduler_scheme" where
  "init_scheduler bs bt s =
     s\<lparr>waiting := [], running := [], max_batch_size := bs, max_batch_tokens := bt\<rparr>"

section \<open>Operations\<close>

definition set_reason :: "nat \<Rightarrow> string \<Rightarrow> 'a store_scheme \<Rightarrow> 'a store_scheme" where
  "set_reason r reason s = upd_seq r (\<lambda>q. q\<lparr>finish_reason := reason\<rparr>) s"

definition add :: "nat \<Rightarrow> 'a scheduler_scheme \<Rightarrow> 'a scheduler_scheme" where
  "add r s =
     (if max_new_tokens (seqs s r) \<le> 0
      then emit r None (set_reason r ''length'' s)
      else s\<lparr>waiting := waiting s @ [r]\<rparr>)"

text \<open>
  The \<^verbatim>\<open>while self.waiting\<close> loop of \<open>schedule\<close>: each round looks at the head of \<open>waiting\<close>
  and either stops or moves it to \<open>running\<close>.  The recursion is on \<open>waiting\<close>, which every
  round that goes on shortens.
\<close>

fun admit :: "(nat \<Rightarrow> sequence) \<Rightarrow> int \<Rightarrow> int \<Rightarrow> nat list \<Rightarrow> nat list \<Rightarrow> nat list \<times> nat list" where
  "admit h bs bt run [] = (run, [])"
| "admit h bs bt run (c # wait) =
     (if int (length run) + 1 > bs then (run, c # wait)
      else let total = (\<Sum>r \<leftarrow> run. seq_len (h r)) + seq_len (h c) in
        if run \<noteq> [] \<and> total > bt then (run, c # wait)
        else admit h bs bt (run @ [c]) wait)"

definition schedule :: "'a scheduler_scheme \<Rightarrow> nat list \<times> 'a scheduler_scheme" where
  "schedule s =
     (let live = filter (\<lambda>r. \<not> is_finished (seqs s r)) (running s);
          (run, wait) = admit (seqs s) (max_batch_size s) (max_batch_tokens s) live (waiting s)
      in (run, s\<lparr>running := run, waiting := wait\<rparr>))"

text \<open>One round of the loop of \<open>postprocess\<close>; the flag says whether the row is now finished.\<close>

definition post_row :: "nat \<Rightarrow> int \<Rightarrow> 'a store_scheme \<Rightarrow> bool \<times> 'a store_scheme" where
  "post_row r token s =
     (let s1 = upd_seq r (\<lambda>q. q\<lparr>output_ids := output_ids q @ [token]\<rparr>) s;
          s2 = emit r (Some token) s1;
          s3 = (if token \<in> eos_token_ids (seqs s2 r) then set_reason r ''stop'' s2
                else if int (length (output_ids (seqs s2 r))) \<ge> max_new_tokens (seqs s2 r)
                  then set_reason r ''length'' s2
                else s2)
      in if is_finished (seqs s3 r) then (True, emit r None s3) else (False, s3))"

fun post_rows :: "(nat \<times> int) list \<Rightarrow> 'a store_scheme \<Rightarrow> nat list \<times> 'a store_scheme" where
  "post_rows [] s = ([], s)"
| "post_rows ((r, token) # rows) s =
     (let (fin, s1) = post_row r token s;
          (finished, s2) = post_rows rows s1
      in (if fin then r # finished else finished, s2))"

definition postprocess :: "nat list \<Rightarrow> int list \<Rightarrow> 'a store_scheme \<Rightarrow> nat list \<times> 'a store_scheme" where
  "postprocess batch next_ids s = post_rows (zip batch next_ids) s"

definition num_running :: "'a scheduler_scheme \<Rightarrow> nat" where
  "num_running s = length (filter (\<lambda>r. \<not> is_finished (seqs s r)) (running s))"

definition num_waiting :: "'a scheduler_scheme \<Rightarrow> nat" where
  "num_waiting s = length (waiting s)"

definition has_work :: "'a scheduler_scheme \<Rightarrow> bool" where
  "has_work s \<longleftrightarrow> waiting s \<noteq> [] \<or> running s \<noteq> []"

text \<open>
  \<^verbatim>\<open>self.waiting.remove(seq)\<close> takes the first equal element out; the \<^verbatim>\<open>ValueError\<close> of a
  sequence that is not there is caught and ignored.
\<close>

definition abort :: "nat \<Rightarrow> string \<Rightarrow> 'a scheduler_scheme \<Rightarrow> 'a scheduler_scheme" where
  "abort r reason s =
     (if is_finished (seqs s r) then s
      else let s1 = set_reason r reason s;
               s2 = s1\<lparr>waiting := remove1 r (waiting s1)\<rparr>
           in emit r None s2)"

definition fail_row :: "nat \<Rightarrow> 'a store_scheme \<Rightarrow> 'a store_scheme" where
  "fail_row r s =
     emit r None (if is_finished (seqs s r) then s else set_reason r ''error'' s)"

definition fail_all :: "'a scheduler_scheme \<Rightarrow> nat list \<times> 'a scheduler_scheme" where
  "fail_all s =
     (let failed = running s @ waiting s;
          s1 = fold fail_row failed s
      in (failed, s1\<lparr>running := [], waiting := []\<rparr>))"

section \<open>Frame facts\<close>

text \<open>What the scheduler's own fields see of the operations on the store.\<close>

lemma upd_seq_sched [simp]:
  "running (upd_seq r f s) = running s" "waiting (upd_seq r f s) = waiting s"
  "max_batch_size (upd_seq r f s) = max_batch_size s"
  "max_batch_tokens (upd_seq r f s) = max_batch_tokens s"
  by (simp_all add: upd_seq_def)

lemma emit_sched [simp]:
  "running (emit r t s) = running s" "waiting (emit r t s) = waiting s"
  "max_batch_size (emit r t s) = max_batch_size s"
  "max_batch_tokens (emit r t s) = max_batch_tokens s"
  by (simp_all add: emit_def put_nowait_def split: option.splits)

lemma set_reason_simps [simp]:
  "seqs (set_reason r reason s) q
     = (if q = r then (seqs s r)\<lparr>finish_reason := reason\<rparr> else seqs s q)"
  "next_id (set_reason r reason s) = next_id s" "calls (set_reason r reason s) = calls s"
  by (simp_all add: set_reason_def)

lemma set_reason_sched [simp]:
  "running (set_reason r reason s) = running s" "waiting (set_reason r reason s) = waiting s"
  "max_batch_size (set_reason r reason s) = max_batch_size s"
  "max_batch_tokens (set_reason r reason s) = max_batch_tokens s"
  by (simp_all add: set_reason_def)

lemma post_row_frame [simp]:
  "next_id (snd (post_row r t s)) = next_id s"
  "spec_of (seqs (snd (post_row r t s)) q) = spec_of (seqs s q)"
  by (simp_all add: post_row_def Let_def)

lemma post_row_sched [simp]:
  "running (snd (post_row r t s)) = running s" "waiting (snd (post_row r t s)) = waiting s"
  "max_batch_size (snd (post_row r t s)) = max_batch_size s"
  "max_batch_tokens (snd (post_row r t s)) = max_batch_tokens s"
  by (simp_all add: post_row_def Let_def)

lemma post_row_other:
  "q \<noteq> r \<Longrightarrow> output_ids (seqs (snd (post_row r t s)) q) = output_ids (seqs s q)"
  "q \<noteq> r \<Longrightarrow> finish_reason (seqs (snd (post_row r t s)) q) = finish_reason (seqs s q)"
  by (simp_all add: post_row_def Let_def)

text \<open>The verdict of one row, as a function of the row before the token.\<close>

definition verdict :: "sequence \<Rightarrow> int \<Rightarrow> string" where
  "verdict q token =
     (if token \<in> eos_token_ids q then ''stop''
      else if int (length (output_ids q)) + 1 \<ge> max_new_tokens q then ''length''
      else finish_reason q)"

lemma post_row_self:
  "output_ids (seqs (snd (post_row r t s)) r) = output_ids (seqs s r) @ [t]"
  "finish_reason (seqs (snd (post_row r t s)) r) = verdict (seqs s r) t"
  "fst (post_row r t s) \<longleftrightarrow> verdict (seqs s r) t \<noteq> ''''"
  by (simp_all add: post_row_def verdict_def Let_def is_finished_def add.commute)

lemma calls_ok_upd [simp]:
  assumes "calls_ok s" "seq_loop (f (seqs s r)) = seq_loop (seqs s r)"
  shows "calls_ok (upd_seq r f s)"
  using assms by (auto simp: calls_ok_def)

lemma calls_ok_set_reason [simp]: "calls_ok s \<Longrightarrow> calls_ok (set_reason r reason s)"
  by (simp add: set_reason_def)

lemma post_row_calls_ok [simp]: "calls_ok s \<Longrightarrow> calls_ok (snd (post_row r t s))"
  by (simp add: post_row_def Let_def)

lemma channel_upd_seq [simp]:
  "(\<And>q. queue (f q) = queue q) \<Longrightarrow> channel p (upd_seq r f s) = channel p s"
  by (simp add: channel_def)

lemma channel_set_reason [simp]: "channel p (set_reason r reason s) = channel p s"
  by (simp add: set_reason_def)

lemma channel_post_row:
  assumes "calls_ok s"
  shows "channel q (snd (post_row r t s)) = channel q s @
    (if q = r then Some t # (if verdict (seqs s r) t \<noteq> '''' then [None] else []) else [])"
  using assms
  by (simp add: post_row_def Let_def channel_emit is_finished_def verdict_def add.commute)

section \<open>Admission\<close>

text \<open>
  The reference for the admission loop: request \<open>i\<close> of the waiting queue is admissible when
  all before it have been admitted, there is a free slot, and the batch is empty or the token
  budget still covers it.  The loop admits the longest admissible prefix.
\<close>

definition batch_tokens :: "(nat \<Rightarrow> sequence) \<Rightarrow> nat list \<Rightarrow> int" where
  "batch_tokens h rs = (\<Sum>r \<leftarrow> rs. seq_len (h r))"

definition admissible :: "(nat \<Rightarrow> sequence) \<Rightarrow> int \<Rightarrow> int \<Rightarrow> nat list \<Rightarrow> nat list \<Rightarrow> nat \<Rightarrow> bool" where
  "admissible h bs bt run wait i \<longleftrightarrow>
     int (length run + i) + 1 \<le> bs \<and>
     (run @ take i wait = [] \<or>
      batch_tokens h (run @ take i wait) + seq_len (h (wait ! i)) \<le> bt)"

definition admit_count :: "(nat \<Rightarrow> sequence) \<Rightarrow> int \<Rightarrow> int \<Rightarrow> nat list \<Rightarrow> nat list \<Rightarrow> nat" where
  "admit_count h bs bt run wait =
     length (takeWhile (admissible h bs bt run wait) [0..<length wait])"

lemma batch_tokens_simps [simp]:
  "batch_tokens h [] = 0" "batch_tokens h (r # rs) = seq_len (h r) + batch_tokens h rs"
  "batch_tokens h (rs @ qs) = batch_tokens h rs + batch_tokens h qs"
  by (simp_all add: batch_tokens_def)

lemma admissible_0:
  "admissible h bs bt run (c # wait) 0 \<longleftrightarrow>
     int (length run) + 1 \<le> bs \<and> (run = [] \<or> batch_tokens h run + seq_len (h c) \<le> bt)"
  by (simp add: admissible_def)

lemma admissible_Suc:
  "admissible h bs bt run (c # wait) (Suc i) = admissible h bs bt (run @ [c]) wait i"
  by (simp add: admissible_def)

lemma admit_count_Cons:
  "admit_count h bs bt run (c # wait) =
     (if admissible h bs bt run (c # wait) 0 then Suc (admit_count h bs bt (run @ [c]) wait) else 0)"
proof -
  have "[0..<length (c # wait)] = 0 # map Suc [0..<length wait]"
    by (simp add: map_Suc_upt upt_conv_Cons del: upt_Suc)
  then show ?thesis
    unfolding admit_count_def
    by (simp add: takeWhile_map o_def admissible_Suc del: upt_Suc)
qed

lemma admit_longest_prefix:
  "admit h bs bt run wait =
     (run @ take (admit_count h bs bt run wait) wait, drop (admit_count h bs bt run wait) wait)"
proof (induction wait arbitrary: run)
  case Nil
  then show ?case by (simp add: admit_count_def)
next
  case (Cons c wait)
  show ?case
    using Cons.IH [of "run @ [c]"]
    by (auto simp: admit_count_Cons admissible_0 Let_def batch_tokens_def)
qed

lemma admit_count_le: "admit_count h bs bt run wait \<le> length wait"
  unfolding admit_count_def by (rule le_trans [OF length_takeWhile_le]) simp

lemma admissible_below_count:
  "i < admit_count h bs bt run wait \<Longrightarrow> admissible h bs bt run wait i"
proof -
  assume i: "i < admit_count h bs bt run wait"
  let ?us = "takeWhile (admissible h bs bt run wait) [0..<length wait]"
  have "?us ! i \<in> set ?us" using i by (simp add: admit_count_def)
  moreover have "?us ! i = i"
    using i admit_count_le [of h bs bt run wait] by (simp add: admit_count_def takeWhile_nth)
  ultimately show ?thesis by (metis set_takeWhileD)
qed

lemma not_admissible_at_count:
  assumes "admit_count h bs bt run wait < length wait"
  shows "\<not> admissible h bs bt run wait (admit_count h bs bt run wait)"
  using nth_length_takeWhile [of "admissible h bs bt run wait" "[0..<length wait]"] assms
  by (simp add: admit_count_def)

text \<open>What the bounds of a single round give for the whole batch.\<close>

lemma admitted_size:
  assumes "int (length run) \<le> bs"
  shows "int (length run + admit_count h bs bt run wait) \<le> bs"
proof (cases "admit_count h bs bt run wait")
  case (Suc k)
  then have "admissible h bs bt run wait k" by (simp add: admissible_below_count)
  with Suc show ?thesis by (simp add: admissible_def)
qed (use assms in simp)

lemma admitted_tokens:
  assumes "admit_count h bs bt run wait \<noteq> 0"
  defines "batch \<equiv> run @ take (admit_count h bs bt run wait) wait"
  shows "length batch = 1 \<or> batch_tokens h batch \<le> bt"
proof -
  obtain k where k: "admit_count h bs bt run wait = Suc k"
    using assms(1) not0_implies_Suc by blast
  then have adm: "admissible h bs bt run wait k" and "k < length wait"
    using admit_count_le [of h bs bt run wait] by (simp_all add: admissible_below_count)
  then have "batch = (run @ take k wait) @ [wait ! k]"
    by (simp add: batch_def k take_Suc_conv_app_nth)
  with adm show ?thesis by (auto simp: admissible_def)
qed

lemma schedule_unfold:
  "schedule s =
     (let live = filter (\<lambda>r. \<not> is_finished (seqs s r)) (running s);
          k = admit_count (seqs s) (max_batch_size s) (max_batch_tokens s) live (waiting s)
      in (live @ take k (waiting s),
          s\<lparr>running := live @ take k (waiting s), waiting := drop k (waiting s)\<rparr>))"
  by (simp add: schedule_def Let_def admit_longest_prefix)

lemma schedule_frame [simp]:
  "seqs (snd (schedule s)) = seqs s" "next_id (snd (schedule s)) = next_id s"
  "calls (snd (schedule s)) = calls s" "max_batch_size (snd (schedule s)) = max_batch_size s"
  "max_batch_tokens (snd (schedule s)) = max_batch_tokens s"
  "running (snd (schedule s)) = fst (schedule s)"
  by (simp_all add: schedule_unfold Let_def)

text \<open>The loop always admits into an empty batch, whatever the token budget says.\<close>

lemma schedule_progress:
  assumes "1 \<le> max_batch_size s" and "waiting s \<noteq> []"
  shows "fst (schedule s) \<noteq> []"
proof (cases "filter (\<lambda>r. \<not> is_finished (seqs s r)) (running s) = []")
  case True
  obtain c wait where "waiting s = c # wait" using assms(2) by (cases "waiting s") auto
  with True assms(1) show ?thesis
    by (simp add: schedule_unfold Let_def admit_count_Cons admissible_0)
next
  case False
  then show ?thesis by (simp add: schedule_unfold Let_def)
qed

section \<open>The scheduler's invariant\<close>

text \<open>
  What a sequence's output and finish reason say of each other, at every moment: the budget is
  never overrun, nothing follows an end-of-sequence token, ``stop'' means the last token is
  one, and ``length'' means the budget is used up without one.
\<close>

definition seq_ok :: "sequence \<Rightarrow> bool" where
  "seq_ok q \<longleftrightarrow>
     finish_reason q \<in> {'''', ''stop'', ''length'', ''cancelled'', ''error''} \<and>
     int (length (output_ids q)) \<le> max 0 (max_new_tokens q) \<and>
     (finish_reason q \<noteq> ''stop'' \<longrightarrow> set (output_ids q) \<inter> eos_token_ids q = {}) \<and>
     (finish_reason q = ''stop'' \<longrightarrow>
        output_ids q \<noteq> [] \<and> last (output_ids q) \<in> eos_token_ids q \<and>
        set (butlast (output_ids q)) \<inter> eos_token_ids q = {}) \<and>
     (finish_reason q = ''length'' \<longrightarrow> int (length (output_ids q)) = max 0 (max_new_tokens q))"

text \<open>A sequence that has not started, and one that may still be given a token.\<close>

definition fresh_seq :: "sequence \<Rightarrow> bool" where
  "fresh_seq q \<longleftrightarrow> finish_reason q = '''' \<and> output_ids q = [] \<and> 0 < max_new_tokens q"

definition open_seq :: "sequence \<Rightarrow> bool" where
  "open_seq q \<longleftrightarrow>
     finish_reason q \<notin> {''stop'', ''length''} \<and> int (length (output_ids q)) < max_new_tokens q"

definition store_inv :: "'a store_scheme \<Rightarrow> bool" where
  "store_inv s \<longleftrightarrow>
     calls_ok s \<and> (\<forall>c \<in> set (calls s). fst c < next_id s) \<and>
     (\<forall>r < next_id s. seq_ok (seqs s r) \<and> seq_id (seqs s r) = r)"

definition sched_inv :: "'a scheduler_scheme \<Rightarrow> bool" where
  "sched_inv s \<longleftrightarrow>
     store_inv s \<and> distinct (running s @ waiting s) \<and>
     (\<forall>r \<in> set (running s @ waiting s). r < next_id s) \<and>
     (\<forall>r \<in> set (waiting s). fresh_seq (seqs s r)) \<and>
     (\<forall>r \<in> set (running s). \<not> is_finished (seqs s r) \<longrightarrow> open_seq (seqs s r))"

text \<open>No accepted request is out of the scheduler's sight before it has a finish reason.\<close>

definition none_lost :: "'a scheduler_scheme \<Rightarrow> bool" where
  "none_lost s \<longleftrightarrow>
     (\<forall>r < next_id s. \<not> is_finished (seqs s r) \<longrightarrow> r \<in> set (running s @ waiting s))"

lemma seq_ok_verdict:
  assumes ok: "seq_ok q" and "open_seq q" and out: "output_ids q' = output_ids q @ [t]"
    and v: "finish_reason q' = verdict q t" and spec: "spec_of q' = spec_of q"
  shows "seq_ok q'"
proof -
  note f = spec_of_fields [OF spec]
  have "set (output_ids q) \<inter> eos_token_ids q = {}" "0 < max_new_tokens q"
    using assms(1,2) by (auto simp: seq_ok_def open_seq_def)
  then show ?thesis
    using assms(1,2) out v
    by (auto simp: seq_ok_def open_seq_def f verdict_def)
qed

lemma seq_ok_cong:
  assumes "output_ids q' = output_ids q" "finish_reason q' = finish_reason q" "spec_of q' = spec_of q"
  shows "seq_ok q' = seq_ok q"
  unfolding seq_ok_def assms(1,2) spec_of_fields [OF assms(3)] by (rule refl)

lemma seq_ok_give_up:
  assumes "seq_ok q" "\<not> is_finished q" "reason \<in> {''cancelled'', ''error''}"
    and "output_ids q' = output_ids q" "finish_reason q' = reason" "spec_of q' = spec_of q"
  shows "seq_ok q'"
  using assms spec_of_fields [OF assms(6)] by (auto simp: seq_ok_def is_finished_def)

lemma open_seq_cong:
  "output_ids q' = output_ids q \<Longrightarrow> finish_reason q' = finish_reason q \<Longrightarrow> spec_of q' = spec_of q
    \<Longrightarrow> open_seq q' = open_seq q"
  by (auto simp: open_seq_def dest: spec_of_fields)

lemma fresh_seq_cong:
  "output_ids q' = output_ids q \<Longrightarrow> finish_reason q' = finish_reason q \<Longrightarrow> spec_of q' = spec_of q
    \<Longrightarrow> fresh_seq q' = fresh_seq q"
  by (auto simp: fresh_seq_def dest: spec_of_fields)

lemma verdict_open:
  assumes "open_seq q" "\<not> is_finished q'" "output_ids q' = output_ids q @ [t]"
    "finish_reason q' = verdict q t" "spec_of q' = spec_of q"
  shows "open_seq q'"
  using assms spec_of_fields [OF assms(5)]
  by (auto simp: open_seq_def is_finished_def verdict_def split: if_splits)

text \<open>
  Every operation that only moves items and callbacks keeps the invariants: they speak of
  outputs, finish reasons and requests.
\<close>

lemma store_inv_emit [inv_intros]:
  assumes "store_inv s" "r < next_id s"
  shows "store_inv (emit r t s)"
proof -
  have "\<forall>c \<in> set (calls (emit r t s)). fst c < next_id s"
    using assms by (auto simp: store_inv_def emit_def split: option.splits)
  moreover have "seq_ok (seqs (emit r t s) q) = seq_ok (seqs s q)" for q
    by (rule seq_ok_cong) simp_all
  ultimately show ?thesis using assms by (simp add: store_inv_def)
qed

lemma sched_inv_emit [inv_intros]:
  assumes "sched_inv s" "r < next_id s"
  shows "sched_inv (emit r t s)"
proof -
  have "fresh_seq (seqs (emit r t s) q) = fresh_seq (seqs s q)"
    "open_seq (seqs (emit r t s) q) = open_seq (seqs s q)" for q
    by (rule fresh_seq_cong open_seq_cong, simp_all)+
  with assms show ?thesis by (simp add: sched_inv_def store_inv_emit)
qed

lemma store_inv_schedule: "store_inv (snd (schedule s)) = store_inv s"
  by (simp add: store_inv_def calls_ok_def)

lemma sched_inv_schedule [inv_intros]:
  assumes "sched_inv s"
  shows "sched_inv (snd (schedule s))"
proof -
  define live where "live = filter (\<lambda>r. \<not> is_finished (seqs s r)) (running s)"
  define k where "k = admit_count (seqs s) (max_batch_size s) (max_batch_tokens s) live (waiting s)"
  have w: "take k (waiting s) @ drop k (waiting s) = waiting s" by simp
  have dist: "distinct ((live @ take k (waiting s)) @ drop k (waiting s))"
    using assms unfolding append_assoc w by (auto simp: sched_inv_def live_def)
  have fresh: "open_seq (seqs s r)" if "r \<in> set (waiting s)" for r
    using assms that by (auto simp: sched_inv_def fresh_seq_def open_seq_def)
  have sch: "fst (schedule s) = live @ take k (waiting s)"
      "waiting (snd (schedule s)) = drop k (waiting s)"
    by (simp_all add: schedule_unfold Let_def live_def k_def)
  have sub: "set live \<subseteq> set (running s)" by (auto simp: live_def)
  have "store_inv (snd (schedule s))" using assms by (simp add: sched_inv_def store_inv_schedule)
  with assms dist fresh sub show ?thesis
    by (auto simp: sched_inv_def sch dest: in_set_takeD in_set_dropD)
qed

lemma schedule_unfinished:
  "sched_inv s \<Longrightarrow> r \<in> set (fst (schedule s)) \<Longrightarrow> \<not> is_finished (seqs s r) \<and> open_seq (seqs s r)"
  by (auto simp: schedule_unfold Let_def sched_inv_def fresh_seq_def is_finished_def open_seq_def
      dest!: in_set_takeD)

section \<open>Every operation keeps the invariant\<close>

lemma sched_inv_new_sequence:
  assumes "sched_inv s" and "new_sequence p n temp k eos cur s = (r, s')"
  shows "sched_inv s'" "r = next_id s" "next_id s' = Suc r" "r \<notin> set (running s' @ waiting s')"
    "output_ids (seqs s' r) = []" "finish_reason (seqs s' r) = ''''"
    "max_new_tokens (seqs s' r) = n" "running s' = running s" "waiting s' = waiting s"
    "q \<noteq> r \<Longrightarrow> seqs s' q = seqs s q" "calls s' = calls s"
proof -
  note def = assms(2) [unfolded new_sequence_def Let_def, simplified]
  show "r = next_id s" "next_id s' = Suc r" "r \<notin> set (running s' @ waiting s')"
    "output_ids (seqs s' r) = []" "finish_reason (seqs s' r) = ''''"
    "max_new_tokens (seqs s' r) = n" "running s' = running s" "waiting s' = waiting s"
    "q \<noteq> r \<Longrightarrow> seqs s' q = seqs s q" "calls s' = calls s"
    using def assms(1) by (auto simp: sched_inv_def)
  have s': "seqs s' q = seqs s q" if "q < next_id s" for q
    using def that by auto
  have new: "seq_ok (seqs s' (next_id s)) \<and> seq_id (seqs s' (next_id s)) = next_id s"
    "next_id s' = Suc (next_id s)" "calls s' = calls s" "running s' = running s" "waiting s' = waiting s"
    using def by (auto simp: seq_ok_def)
  have st: "calls_ok s" "\<And>c. c \<in> set (calls s) \<Longrightarrow> fst c < next_id s"
    "\<And>q. q < next_id s \<Longrightarrow> seq_ok (seqs s q) \<and> seq_id (seqs s q) = q"
    using assms(1) by (auto simp: sched_inv_def store_inv_def)
  have "store_inv s'"
    unfolding store_inv_def new calls_ok_def
    using st new(1) by (simp add: less_Suc_eq s' all_conj_distrib calls_ok_def)
  with assms(1) show "sched_inv s'"
    by (auto simp: sched_inv_def new s' less_Suc_eq)
qed

lemma sched_inv_add:
  assumes "sched_inv s" "r < next_id s" "r \<notin> set (running s @ waiting s)"
    and "finish_reason (seqs s r) = ''''" "output_ids (seqs s r) = []"
  shows "sched_inv (add r s)"
proof (cases "max_new_tokens (seqs s r) \<le> 0")
  case True
  have "sched_inv (set_reason r ''length'' s)"
    using assms True
    by (auto simp: sched_inv_def store_inv_def seq_ok_def fresh_seq_def open_seq_def is_finished_def
        calls_ok_def)
  with True assms(2) show ?thesis by (simp add: add_def sched_inv_emit)
next
  case False
  with assms show ?thesis
    by (auto simp: add_def sched_inv_def store_inv_def calls_ok_def fresh_seq_def)
qed

lemma sched_inv_give_up:
  assumes "sched_inv s" "r < next_id s" "\<not> is_finished (seqs s r)"
    "reason \<in> {''cancelled'', ''error''}"
  shows "sched_inv ((set_reason r reason s)\<lparr>waiting := remove1 r (waiting s)\<rparr>)"
proof -
  have "seq_ok ((seqs s r)\<lparr>finish_reason := reason\<rparr>)"
    by (rule seq_ok_give_up [of "seqs s r" reason])
      (use assms in \<open>simp_all add: sched_inv_def store_inv_def\<close>)
  moreover have "is_finished ((seqs s r)\<lparr>finish_reason := reason\<rparr>)"
    using assms(4) by (auto simp: is_finished_def)
  ultimately show ?thesis
    using assms
    by (auto simp: sched_inv_def store_inv_def calls_ok_def distinct_remove1 dest: notin_set_remove1
        set_remove1_subset [THEN subsetD])
qed

lemma sched_inv_abort [inv_intros]:
  assumes "sched_inv s" "r < next_id s" "reason \<in> {''cancelled'', ''error''}"
  shows "sched_inv (abort r reason s)"
  using assms sched_inv_give_up [of s r reason]
  by (auto simp: abort_def Let_def intro!: sched_inv_emit)

lemma abort_frame [simp]:
  "next_id (abort r reason s) = next_id s"
  "spec_of (seqs (abort r reason s) q) = spec_of (seqs s q)"
  "output_ids (seqs (abort r reason s) q) = output_ids (seqs s q)"
  "running (abort r reason s) = running s"
  "max_batch_size (abort r reason s) = max_batch_size s"
  "max_batch_tokens (abort r reason s) = max_batch_tokens s"
  by (simp_all add: abort_def Let_def)

lemma abort_reason:
  "finish_reason (seqs (abort r reason s) q)
     = (if q = r \<and> \<not> is_finished (seqs s r) then reason else finish_reason (seqs s q))"
  by (simp add: abort_def Let_def)

lemma abort_waiting:
  "waiting (abort r reason s) = (if is_finished (seqs s r) then waiting s else remove1 r (waiting s))"
  by (simp add: abort_def Let_def)

lemma channel_abort:
  assumes "calls_ok s"
  shows "channel q (abort r reason s)
    = channel q s @ (if q = r \<and> \<not> is_finished (seqs s r) then [None] else [])"
proof -
  have "calls_ok ((set_reason r reason s)\<lparr>waiting := w\<rparr>)"
    "channel p ((set_reason r reason s)\<lparr>waiting := w\<rparr>) = channel p s" for w p
    using assms by (auto simp: calls_ok_def channel_def)
  then show ?thesis by (simp add: abort_def Let_def channel_emit)
qed

lemma store_inv_post_row:
  assumes "store_inv s" "r < next_id s" "open_seq (seqs s r)"
  shows "store_inv (snd (post_row r t s))"
proof -
  let ?s = "snd (post_row r t s)"
  have "seq_ok (seqs ?s q)" if "q < next_id s" for q
  proof (cases "q = r")
    case True
    with assms show ?thesis
      by (auto simp: store_inv_def post_row_self intro: seq_ok_verdict [OF _ assms(3)])
  next
    case False
    then have "seq_ok (seqs ?s q) = seq_ok (seqs s q)"
      by (intro seq_ok_cong) (simp_all add: post_row_other)
    with that assms show ?thesis by (simp add: store_inv_def)
  qed
  moreover have "seq_id (seqs ?s q) = seq_id (seqs s q)" for q
    by (rule spec_of_fields) simp
  moreover have "fst c < next_id s" if "c \<in> set (calls ?s)" for c
    using that assms
    by (auto simp: post_row_def Let_def store_inv_def emit_def split: option.splits if_splits)
  ultimately show ?thesis using assms by (simp add: store_inv_def)
qed

lemma sched_inv_post_row:
  assumes "sched_inv s" "r \<in> set (running s)" "open_seq (seqs s r)"
  shows "sched_inv (snd (post_row r t s))"
proof -
  let ?s = "snd (post_row r t s)"
  have "store_inv ?s" using assms by (auto simp: sched_inv_def intro: store_inv_post_row)
  moreover have "fresh_seq (seqs ?s q)" if "q \<in> set (waiting s)" for q
  proof -
    have "q \<noteq> r" using assms that by (auto simp: sched_inv_def)
    then have "fresh_seq (seqs ?s q) = fresh_seq (seqs s q)"
      by (intro fresh_seq_cong) (simp_all add: post_row_other)
    with that assms show ?thesis by (simp add: sched_inv_def)
  qed
  moreover have "open_seq (seqs ?s q)" if q: "q \<in> set (running s)" "\<not> is_finished (seqs ?s q)" for q
  proof (cases "q = r")
    case True
    with assms q show ?thesis
      by (auto simp: post_row_self intro: verdict_open [OF assms(3)])
  next
    case False
    then have "open_seq (seqs ?s q) = open_seq (seqs s q)"
      by (intro open_seq_cong) (simp_all add: post_row_other)
    with False q assms show ?thesis by (simp add: sched_inv_def is_finished_def post_row_other)
  qed
  ultimately show ?thesis using assms by (simp add: sched_inv_def)
qed

section \<open>A whole batch\<close>

text \<open>
  The loop of \<open>postprocess\<close> treats the rows of a batch one after the other.  Rows are
  different objects, so the result for each row is that of \<open>post_row\<close> on it alone.
\<close>

lemma post_rows_Cons:
  "snd (post_rows ((r, t) # rows) s) = snd (post_rows rows (snd (post_row r t s)))"
  "fst (post_rows ((r, t) # rows) s) =
     (if fst (post_row r t s) then [r] else []) @ fst (post_rows rows (snd (post_row r t s)))"
  by (simp_all split: prod.splits)

lemmas post_rows_simps = post_rows.simps(1) post_rows_Cons

lemma post_rows_frame [simp]:
  "next_id (snd (post_rows rows s)) = next_id s"
  "spec_of (seqs (snd (post_rows rows s)) q) = spec_of (seqs s q)"
  by (induction rows arbitrary: s) (auto simp: post_rows_simps simp del: post_rows.simps(2))

lemma post_rows_sched [simp]:
  "running (snd (post_rows rows s)) = running s" "waiting (snd (post_rows rows s)) = waiting s"
  "max_batch_size (snd (post_rows rows s)) = max_batch_size s"
  "max_batch_tokens (snd (post_rows rows s)) = max_batch_tokens s"
  by (induction rows arbitrary: s) (auto simp: post_rows_simps simp del: post_rows.simps(2))

lemma post_rows_other:
  assumes "q \<notin> fst ` set rows"
  shows "output_ids (seqs (snd (post_rows rows s)) q) = output_ids (seqs s q)"
    and "finish_reason (seqs (snd (post_rows rows s)) q) = finish_reason (seqs s q)"
  using assms
  by (induction rows arbitrary: s)
    (auto simp: post_rows_simps post_row_other simp del: post_rows.simps(2))

lemma verdict_cong:
  "output_ids p = output_ids q \<Longrightarrow> finish_reason p = finish_reason q \<Longrightarrow> spec_of p = spec_of q
    \<Longrightarrow> verdict p t = verdict q t"
  by (auto simp: verdict_def dest: spec_of_fields)

lemma verdict_post_row_other:
  "q \<noteq> r \<Longrightarrow> verdict (seqs (snd (post_row r t s)) q) u = verdict (seqs s q) u"
  by (rule verdict_cong) (simp_all add: post_row_other)

lemma post_rows_row:
  assumes "distinct (map fst rows)" "(r, t) \<in> set rows"
  shows "output_ids (seqs (snd (post_rows rows s)) r) = output_ids (seqs s r) @ [t]"
    and "finish_reason (seqs (snd (post_rows rows s)) r) = verdict (seqs s r) t"
    and "r \<in> set (fst (post_rows rows s)) \<longleftrightarrow> verdict (seqs s r) t \<noteq> ''''"
proof -
  have sub: "set (fst (post_rows rows s)) \<subseteq> fst ` set rows" for rows and s :: "'a store_scheme"
    by (induction rows arbitrary: s) (force simp: post_rows_simps simp del: post_rows.simps(2))+
  have "output_ids (seqs (snd (post_rows rows s)) r) = output_ids (seqs s r) @ [t] \<and>
    finish_reason (seqs (snd (post_rows rows s)) r) = verdict (seqs s r) t \<and>
    (r \<in> set (fst (post_rows rows s)) \<longleftrightarrow> verdict (seqs s r) t \<noteq> '''')"
    using assms
  proof (induction rows arbitrary: s)
    case (Cons row rows)
    obtain q u where row: "row = (q, u)" by force
    show ?case
    proof (cases "q = r")
      case True
      with Cons.prems row have "t = u" "r \<notin> fst ` set rows" by force+
      with True row sub [of rows] show ?thesis
        by (auto simp: post_rows_simps post_rows_other post_row_self simp del: post_rows.simps(2))
    next
      case False
      with Cons row show ?thesis
        by (simp add: post_rows_simps post_row_other verdict_post_row_other del: post_rows.simps(2))
    qed
  qed simp
  then show "output_ids (seqs (snd (post_rows rows s)) r) = output_ids (seqs s r) @ [t]"
    and "finish_reason (seqs (snd (post_rows rows s)) r) = verdict (seqs s r) t"
    and "r \<in> set (fst (post_rows rows s)) \<longleftrightarrow> verdict (seqs s r) t \<noteq> ''''"
    by auto
qed

lemma calls_ok_post_rows [simp]: "calls_ok s \<Longrightarrow> calls_ok (snd (post_rows rows s))"
  by (induction rows arbitrary: s) (auto simp: post_rows_simps simp del: post_rows.simps(2))

lemma channel_post_rows_other:
  "calls_ok s \<Longrightarrow> q \<notin> fst ` set rows \<Longrightarrow> channel q (snd (post_rows rows s)) = channel q s"
  by (induction rows arbitrary: s)
    (auto simp: post_rows_simps channel_post_row simp del: post_rows.simps(2))

lemma channel_post_rows:
  assumes "calls_ok s" "distinct (map fst rows)" "(r, t) \<in> set rows"
  shows "channel r (snd (post_rows rows s)) =
    channel r s @ Some t # (if verdict (seqs s r) t \<noteq> '''' then [None] else [])"
  using assms
proof (induction rows arbitrary: s)
  case (Cons row rows)
  obtain q u where row: "row = (q, u)" by force
  show ?case
  proof (cases "q = r")
    case True
    with Cons.prems row have "t = u" "r \<notin> fst ` set rows" by force+
    with True row Cons.prems show ?thesis
      by (simp add: post_rows_simps channel_post_rows_other channel_post_row
          del: post_rows.simps(2))
  next
    case False
    with Cons row show ?thesis
      by (simp add: post_rows_simps channel_post_row verdict_post_row_other del: post_rows.simps(2))
  qed
qed simp

lemma sched_inv_post_rows [inv_intros]:
  assumes "sched_inv s" "distinct (map fst rows)" "fst ` set rows \<subseteq> set (running s)"
    and "\<forall>r \<in> fst ` set rows. open_seq (seqs s r)"
  shows "sched_inv (snd (post_rows rows s))"
  using assms
proof (induction rows arbitrary: s)
  case (Cons row rows)
  obtain r t where row: "row = (r, t)" by force
  let ?s = "snd (post_row r t s)"
  have "sched_inv ?s" using Cons.prems row by (auto intro: sched_inv_post_row)
  moreover have "open_seq (seqs ?s q)" if "q \<in> fst ` set rows" for q
  proof -
    have "q \<noteq> r" using Cons.prems row that by auto
    then have "open_seq (seqs ?s q) = open_seq (seqs s q)"
      by (intro open_seq_cong) (simp_all add: post_row_other)
    with that Cons.prems show ?thesis by auto
  qed
  ultimately show ?case
    using Cons.prems row Cons.IH [of ?s] by (simp add: post_rows_simps del: post_rows.simps(2))
qed simp

section \<open>Tearing everything down\<close>

lemma fail_row_frame [simp]:
  "next_id (fail_row r s) = next_id s" "running (fail_row r sc) = running sc"
  "waiting (fail_row r sc) = waiting sc" "spec_of (seqs (fail_row r s) q) = spec_of (seqs s q)"
  "output_ids (seqs (fail_row r s) q) = output_ids (seqs s q)"
  "max_batch_size (fail_row r sc) = max_batch_size sc"
  "max_batch_tokens (fail_row r sc) = max_batch_tokens sc"
  by (simp_all add: fail_row_def)

lemma fail_row_reason:
  "finish_reason (seqs (fail_row r s) q)
     = (if q = r \<and> \<not> is_finished (seqs s q) then ''error'' else finish_reason (seqs s q))"
  by (auto simp: fail_row_def)

lemma store_inv_fail_row:
  assumes "store_inv s" "r < next_id s"
  shows "store_inv (fail_row r s)"
proof (cases "is_finished (seqs s r)")
  case True
  with assms show ?thesis by (simp add: fail_row_def store_inv_emit)
next
  case False
  have "seq_ok ((seqs s r)\<lparr>finish_reason := ''error''\<rparr>)"
    by (rule seq_ok_give_up [of "seqs s r" "''error''"]) (use assms False in \<open>simp_all add: store_inv_def\<close>)
  with assms have "store_inv (set_reason r ''error'' s)"
    by (simp add: store_inv_def)
  with False assms show ?thesis by (simp add: fail_row_def store_inv_emit)
qed

lemma channel_fail_row:
  "calls_ok s \<Longrightarrow> channel q (fail_row r s) = channel q s @ (if q = r then [None] else [])"
  by (simp add: fail_row_def channel_emit)

lemma calls_ok_fail_row [simp]: "calls_ok s \<Longrightarrow> calls_ok (fail_row r s)"
  by (simp add: fail_row_def)

lemma fold_fail_frame [simp]:
  "next_id (fold fail_row rs s) = next_id s"
  "spec_of (seqs (fold fail_row rs s) q) = spec_of (seqs s q)"
  "output_ids (seqs (fold fail_row rs s) q) = output_ids (seqs s q)"
  by (induction rs arbitrary: s) auto

lemma fold_fail_sched [simp]:
  "max_batch_size (fold fail_row rs s) = max_batch_size s"
  "max_batch_tokens (fold fail_row rs s) = max_batch_tokens s"
  by (induction rs arbitrary: s) auto

lemma fold_fail_reason:
  "finish_reason (seqs (fold fail_row rs s) q)
     = (if q \<in> set rs \<and> \<not> is_finished (seqs s q) then ''error'' else finish_reason (seqs s q))"
  by (induction rs arbitrary: s) (auto simp: fail_row_reason is_finished_def)

lemma store_inv_fold_fail:
  "store_inv s \<Longrightarrow> \<forall>r \<in> set rs. r < next_id s \<Longrightarrow> store_inv (fold fail_row rs s)"
  by (induction rs arbitrary: s) (simp_all add: store_inv_fail_row)

text \<open>Tearing down is one more producer: it puts the sentinel into every channel it is given.\<close>

interpretation fail_channel: token_channel "\<lambda>r t. if t = None then fail_row r else emit r t" channel calls_ok
  by unfold_locales (auto simp: channel_emit channel_fail_row)

lemma channel_fold_fail:
  assumes "calls_ok s" "distinct rs"
  shows "channel q (fold fail_row rs s) = channel q s @ (if q \<in> set rs then [None] else [])"
  using fail_channel.put_all_chan [OF assms, of q None] by simp

lemma fail_all_simps [simp]:
  "fst (fail_all s) = running s @ waiting s"
  "running (snd (fail_all s)) = []" "waiting (snd (fail_all s)) = []"
  "next_id (snd (fail_all s)) = next_id s"
  "max_batch_size (snd (fail_all s)) = max_batch_size s"
  "max_batch_tokens (snd (fail_all s)) = max_batch_tokens s"
  "seqs (snd (fail_all s)) = seqs (fold fail_row (running s @ waiting s) s)"
  by (simp_all add: fail_all_def Let_def)

lemma channel_fail_all:
  assumes "sched_inv s"
  shows "channel q (snd (fail_all s))
    = channel q s @ (if q \<in> set (running s @ waiting s) then [None] else [])"
proof -
  have "channel q (snd (fail_all s)) = channel q (fold fail_row (running s @ waiting s) s)"
    by (simp add: fail_all_def Let_def channel_def)
  with assms channel_fold_fail [of s "running s @ waiting s" q] show ?thesis
    by (simp add: sched_inv_def store_inv_def)
qed

lemma sched_inv_fail_all [inv_intros]:
  assumes "sched_inv s"
  shows "sched_inv (snd (fail_all s))"
proof -
  have "store_inv (fold fail_row (running s @ waiting s) s)"
    using assms by (intro store_inv_fold_fail) (auto simp: sched_inv_def)
  then have "store_inv (snd (fail_all s))"
    by (simp add: fail_all_def Let_def store_inv_def calls_ok_def)
  then show ?thesis by (simp add: sched_inv_def)
qed

lemma fail_all_finishes:
  "none_lost s \<Longrightarrow> r < next_id s \<Longrightarrow> is_finished (seqs (snd (fail_all s)) r)"
  by (auto simp: none_lost_def is_finished_def fold_fail_reason simp del: fold_append)

section \<open>Properties\<close>

text \<open>
  Concrete schedulers the properties are applied to: requests with prompts of the given
  lengths and the given budgets, submitted in order to a scheduler with the given limits.  The
  stop token is \<open>1\<close>.
\<close>

definition submitted :: "int \<Rightarrow> int \<Rightarrow> (nat \<times> int) list \<Rightarrow> scheduler" where
  "submitted bs bt reqs =
     fold (\<lambda>(len, n) s. let (r, s1) = new_sequence (replicate len 7) n (Fin 0) None {1}
                               (Inl (OtherException ''RuntimeError'')) s in add r s1)
       reqs \<lparr>seqs = (\<lambda>_. blank_sequence), next_id = 0, calls = [], waiting = [], running = [],
             max_batch_size = bs, max_batch_tokens = bt\<rparr>"

lemma submitted_inv: "sched_inv (submitted bs bt reqs)" "none_lost (submitted bs bt reqs)"
proof -
  let ?s0 = "\<lparr>seqs = (\<lambda>_. blank_sequence), next_id = 0, calls = [], waiting = [], running = [],
             max_batch_size = bs, max_batch_tokens = bt\<rparr>"
  let ?f = "\<lambda>(len, n) s. let (r, s1) = new_sequence (replicate len 7) n (Fin 0) None {1}
                               (Inl (OtherException ''RuntimeError'')) s in add r s1"
  have "sched_inv (fold ?f reqs s) \<and> none_lost (fold ?f reqs s)"
    if "sched_inv s" "none_lost s" for s :: scheduler
    using that
  proof (induction reqs arbitrary: s)
    case (Cons req reqs)
    obtain len n where req: "req = (len, n)" by force
    obtain r s1 where new: "new_sequence (replicate len 7) n (Fin 0) None {1}
        (Inl (OtherException ''RuntimeError'')) s = (r, s1)" by force
    note facts = sched_inv_new_sequence [OF Cons.prems(1) new]
    have "sched_inv (add r s1)" by (rule sched_inv_add) (use facts in simp_all)
    moreover have "none_lost (add r s1)"
      using Cons.prems(2) facts(2,3,6,8,9) sched_inv_new_sequence(10) [OF Cons.prems(1) new]
      by (auto simp: none_lost_def add_def less_Suc_eq is_finished_def)
    ultimately show ?case using Cons.IH [of "add r s1"] by (simp add: req new)
  qed simp
  moreover have "sched_inv ?s0" "none_lost ?s0"
    by (simp_all add: sched_inv_def store_inv_def calls_ok_def none_lost_def)
  ultimately show "sched_inv (submitted bs bt reqs)" "none_lost (submitted bs bt reqs)"
    by (simp_all add: submitted_def)
qed

lemmas sched_inv_submitted = submitted_inv(1)

text \<open>C23: \<open>schedule\<close> is first-come first-served and maximal.  The batch is what was running and
  is not finished, in its order, followed by the first \<open>k\<close> requests of the queue; the rest of
  the queue stays.  \<open>k\<close> is the number of requests from the head on that fitted when their turn
  came: there was a slot, and the batch was empty or the token budget covered the request.\<close>

theorem schedule_fifo_maximal:
  fixes s :: "'a scheduler_scheme"
  defines "live \<equiv> filter (\<lambda>r. \<not> is_finished (seqs s r)) (running s)"
  defines "fits \<equiv> \<lambda>i.
    int (length live + i) + 1 \<le> max_batch_size s \<and>
    (live @ take i (waiting s) = [] \<or>
     (\<Sum>r \<leftarrow> live @ take (Suc i) (waiting s). seq_len (seqs s r)) \<le> max_batch_tokens s)"
  shows "\<exists>k. takeWhile fits [0..<length (waiting s)] = [0..<k] \<and>
    fst (schedule s) = live @ take k (waiting s) \<and>
    waiting (snd (schedule s)) = drop k (waiting s) \<and>
    running (snd (schedule s)) = fst (schedule s)"
proof (intro exI conjI)
  let ?adm = "admissible (seqs s) (max_batch_size s) (max_batch_tokens s) live (waiting s)"
  let ?k = "admit_count (seqs s) (max_batch_size s) (max_batch_tokens s) live (waiting s)"
  have "fits i = ?adm i" if "i < length (waiting s)" for i
    using that
    by (simp add: fits_def admissible_def take_Suc_conv_app_nth add.assoc flip: batch_tokens_def)
  then have "takeWhile fits [0..<length (waiting s)] = takeWhile ?adm [0..<length (waiting s)]"
    by (intro takeWhile_cong) auto
  also have "\<dots> = take ?k [0..<length (waiting s)]"
    by (simp add: admit_count_def takeWhile_eq_take flip: takeWhile_eq_take)
  also have "\<dots> = [0..<?k]" by (simp add: admit_count_le)
  finally show "takeWhile fits [0..<length (waiting s)] = [0..<?k]" .
  show "fst (schedule s) = live @ take ?k (waiting s)" "waiting (snd (schedule s)) = drop ?k (waiting s)"
    by (simp_all add: schedule_unfold Let_def live_def)
qed simp

text \<open>\<open>schedule\<close> conserves requests.  Batch and queue together are the old batch without its
  finished sequences followed by the old queue, in the same order: admission moves the border
  between the two and loses, duplicates or reorders nothing; no sequence changes.\<close>

lemma schedule_conserves:
  "fst (schedule s) @ waiting (snd (schedule s))
     = filter (\<lambda>r. \<not> is_finished (seqs s r)) (running s) @ waiting s \<and>
   seqs (snd (schedule s)) = seqs s \<and> calls (snd (schedule s)) = calls s"
  by (simp add: schedule_unfold Let_def)

text \<open>C33: the limits.  A batch that was within \<^verbatim>\<open>MAX_BATCH_SIZE\<close> stays within it; and a batch into
  which somebody was admitted is within \<^verbatim>\<open>MAX_BATCH_TOKENS\<close>, unless it is a single request.\<close>

theorem schedule_within_limits:
  assumes "int (length (running s)) \<le> max_batch_size s"
  shows "int (length (fst (schedule s))) \<le> max_batch_size s \<and>
    (waiting (snd (schedule s)) = waiting s \<or> length (fst (schedule s)) = 1 \<or>
     (\<Sum>r \<leftarrow> fst (schedule s). seq_len (seqs s r)) \<le> max_batch_tokens s)"
proof -
  let ?live = "filter (\<lambda>r. \<not> is_finished (seqs s r)) (running s)"
  let ?k = "admit_count (seqs s) (max_batch_size s) (max_batch_tokens s) ?live (waiting s)"
  have "length ?live \<le> length (running s)" by simp
  with assms have "int (length ?live) \<le> max_batch_size s" by linarith
  from admitted_size [OF this, of "seqs s" "max_batch_tokens s" "waiting s"]
  have "int (length (fst (schedule s))) \<le> max_batch_size s"
    by (simp add: schedule_unfold Let_def admit_count_le min_absorb2)
  moreover have "?k = 0 \<or> length (fst (schedule s)) = 1 \<or>
     batch_tokens (seqs s) (fst (schedule s)) \<le> max_batch_tokens s"
    using admitted_tokens [of "seqs s" "max_batch_size s" "max_batch_tokens s" ?live "waiting s"]
    by (auto simp: schedule_unfold Let_def)
  moreover have "waiting (snd (schedule s)) = waiting s" if "?k = 0"
    using that by (simp add: schedule_unfold Let_def)
  ultimately show ?thesis by (auto simp: batch_tokens_def)
qed

lemma schedule_within_limits_witness:
  "int (length (fst (schedule (submitted 2 10 [(4, 5), (5, 5), (2, 5)])))) \<le> 2"
  using schedule_within_limits [of "submitted 2 10 [(4, 5), (5, 5), (2, 5)]"]
  by (simp add: submitted_def new_sequence_def add_def Let_def)

text \<open>No deadlock on a long prompt.  With a slot and nobody running, the head of the queue is
  admitted whatever its length and whatever the token budget.\<close>

lemma schedule_admits_head:
  assumes "1 \<le> max_batch_size s" and "waiting s = c # rest"
    and "\<forall>r \<in> set (running s). is_finished (seqs s r)"
  shows "\<exists>batch. fst (schedule s) = c # batch \<and> length (waiting (snd (schedule s))) \<le> length rest"
proof -
  have "filter (\<lambda>r. \<not> is_finished (seqs s r)) (running s) = []"
    using assms(3) by (simp add: filter_empty_conv)
  with assms(1,2) show ?thesis
    by (simp add: schedule_unfold Let_def admit_count_Cons admissible_0)
qed

lemma schedule_admits_head_witness:
  "\<exists>batch. fst (schedule (submitted 1 3 [(50, 5), (1, 1)])) = 0 # batch \<and>
     length (waiting (snd (schedule (submitted 1 3 [(50, 5), (1, 1)])))) \<le> 1"
  using schedule_admits_head [of "submitted 1 3 [(50, 5), (1, 1)]" 0 "[1]"]
  by (simp add: submitted_def new_sequence_def add_def Let_def)

text \<open>C30: \<open>postprocess\<close>, row by row.  Every row of a batch of different sequences gets its token
  and the verdict on it -- ``stop'' before ``length'' -- its channel gets the token and, after the
  reason is set, the sentinel exactly if the row is finished; the finished rows are returned;
  a sequence outside the batch does not change.\<close>

theorem postprocess_rows:
  assumes "calls_ok s" "distinct batch" "length next_ids = length batch" "i < length batch"
  defines "r \<equiv> batch ! i" and "t \<equiv> next_ids ! i" and "s' \<equiv> snd (postprocess batch next_ids s)"
  shows "output_ids (seqs s' r) = output_ids (seqs s r) @ [t] \<and>
    finish_reason (seqs s' r) =
      (if t \<in> eos_token_ids (seqs s r) then ''stop''
       else if max_new_tokens (seqs s r) \<le> int (length (output_ids (seqs s' r))) then ''length''
       else finish_reason (seqs s r)) \<and>
    channel r s' = channel r s @ Some t # (if is_finished (seqs s' r) then [None] else []) \<and>
    (r \<in> set (fst (postprocess batch next_ids s))) = is_finished (seqs s' r) \<and>
    (if q \<in> set batch then True
     else output_ids (seqs s' q) = output_ids (seqs s q) \<and>
       finish_reason (seqs s' q) = finish_reason (seqs s q) \<and> channel q s' = channel q s)"
proof -
  have rt: "(r, t) \<in> set (zip batch next_ids)" "distinct (map fst (zip batch next_ids))"
    using assms by (auto simp: in_set_zip)
  have "q \<notin> fst ` set (zip batch next_ids)" if "q \<notin> set batch"
    using that by (auto dest: set_zip_leftD)
  then show ?thesis
    using post_rows_row [OF rt(2,1), of s] channel_post_rows [OF assms(1) rt(2,1)]
      channel_post_rows_other [OF assms(1), of q] post_rows_other [of q "zip batch next_ids" s]
    by (simp add: s'_def postprocess_def is_finished_def verdict_def add.commute)
qed

lemma postprocess_rows_witness:
  "finish_reason (seqs (snd (postprocess [0, 1] [5, 1] (submitted 8 100 [(4, 2), (5, 2)]))) 1) = ''stop''"
  using postprocess_rows [of "submitted 8 100 [(4, 2), (5, 2)]" "[0, 1]" "[5, 1]" 1]
  by (simp add: submitted_def new_sequence_def add_def Let_def calls_ok_def)

text \<open>C24: the invariant of the scheduler -- no request in two places, sequences in the queue
  untouched, no budget overrun, no token after an end-of-sequence token, honest reasons -- is
  kept by every operation.\<close>

theorem scheduler_invariant:
  assumes "sched_inv s" "r < next_id s"
  shows "sched_inv (snd (schedule s)) \<and>
    sched_inv (let (q, s1) = new_sequence p n temp k eos current s in add q s1) \<and>
    sched_inv (abort r ''cancelled'' s) \<and> sched_inv (abort r ''error'' s) \<and>
    sched_inv (snd (fail_all s)) \<and>
    sched_inv (snd (postprocess (fst (schedule s)) next_ids (snd (schedule s))))"
proof -
  obtain q s1 where new: "new_sequence p n temp k eos current s = (q, s1)" by force
  note facts = sched_inv_new_sequence [OF assms(1) new]
  have "sched_inv (add q s1)" by (rule sched_inv_add) (use facts in simp_all)
  moreover have "sched_inv (snd (postprocess (fst (schedule s)) next_ids (snd (schedule s))))"
    unfolding postprocess_def
  proof (rule sched_inv_post_rows)
    have "distinct (fst (schedule s))"
      using sched_inv_schedule [OF assms(1)] by (simp add: sched_inv_def)
    then show "distinct (map fst (zip (fst (schedule s)) next_ids))"
      by (simp add: map_fst_zip_take)
  qed (use assms(1) schedule_unfinished [OF assms(1)] in
        \<open>auto simp: sched_inv_schedule dest: set_zip_leftD\<close>)
  ultimately show ?thesis
    using assms by (simp add: new sched_inv_schedule sched_inv_abort sched_inv_fail_all)
qed

lemma scheduler_invariant_witness:
  "sched_inv (snd (postprocess (fst (schedule (submitted 2 10 [(4, 5), (5, 5)]))) [5, 1]
     (snd (schedule (submitted 2 10 [(4, 5), (5, 5)])))))"
  using scheduler_invariant [OF sched_inv_submitted, of 0 2 10 "[(4, 5), (5, 5)]"]
  by (simp add: submitted_def new_sequence_def add_def Let_def)

lemma abort_other: "q \<noteq> r \<Longrightarrow> seqs (abort r reason s) q = seqs s q"
  by (simp add: abort_def Let_def emit_def put_nowait_def upd_seq_def set_reason_def split: option.split)

lemma abort_leaves:
  assumes "sched_inv s" "reason \<noteq> []"
  shows "waiting (abort r reason s) = filter (\<lambda>q. q \<noteq> r) (waiting s)"
    and "r \<notin> set (fst (schedule (abort r reason s)))"
proof -
  have fin: "is_finished (seqs (abort r reason s) r)"
    using assms(2) by (simp add: is_finished_def abort_reason)
  have dist: "distinct (waiting s)"
    using assms(1) by (auto simp: sched_inv_def)
  have "r \<notin> set (waiting s)" if "is_finished (seqs s r)"
    using assms(1) that by (auto simp: sched_inv_def fresh_seq_def is_finished_def)
  then show w: "waiting (abort r reason s) = filter (\<lambda>q. q \<noteq> r) (waiting s)"
    using dist by (auto simp: abort_waiting distinct_remove1_removeAll removeAll_filter_not_eq
        eq_commute intro!: filter_True [symmetric])
  then show "r \<notin> set (fst (schedule (abort r reason s)))"
    using fin by (auto simp: schedule_unfold Let_def dest: in_set_takeD)
qed

text \<open>C31: giving up on a request works wherever it is.  It ends with the given reason unless it
  had ended before, its channel gets the sentinel exactly then, it is in no later batch and not
  in the queue, the others keep their places, and a second call changes nothing.\<close>

theorem abort_gives_up:
  fixes r :: nat
  assumes "sched_inv s" "reason \<noteq> ''''"
  defines "s' \<equiv> abort r reason s"
  shows "finish_reason (seqs s' r) = (if is_finished (seqs s r) then finish_reason (seqs s r) else reason) \<and>
    channel r s' = channel r s @ (if is_finished (seqs s r) then [] else [None]) \<and>
    r \<notin> set (fst (schedule s')) \<and> waiting s' = filter (\<lambda>q. q \<noteq> r) (waiting s) \<and>
    running s' = running s \<and> abort r reason' s' = s'"
proof -
  have "is_finished (seqs s' r)" using assms(2) by (simp add: s'_def is_finished_def abort_reason)
  then have "abort r reason' s' = s'" by (simp add: abort_def)
  moreover have "calls_ok s" using assms(1) by (auto simp: sched_inv_def store_inv_def)
  ultimately show ?thesis
    using abort_leaves [OF assms(1,2), of r] by (simp add: s'_def abort_reason channel_abort)
qed

lemma abort_gives_up_witness:
  "fst (schedule (abort 0 ''cancelled'' (submitted 1 10 [(4, 5), (5, 5)]))) = [1] \<and>
   0 \<notin> set (fst (schedule (abort 0 ''cancelled'' (submitted 1 10 [(4, 5), (5, 5)]))))"
  using abort_gives_up [OF sched_inv_submitted, of "''cancelled''" 0 1 10 "[(4, 5), (5, 5)]"]
  by (simp add: schedule_def submitted_def new_sequence_def add_def Let_def abort_def set_reason_def
      upd_seq_def emit_def put_nowait_def is_finished_def running_loop_def)

text \<open>C32: nobody is left behind when the loop dies.  After \<open>fail_all\<close> every request the server
  ever accepted has a finish reason; those that were in flight have ``error'' and the sentinel in
  their channel; nothing is queued or running any more.\<close>

theorem fail_all_wakes_everyone:
  assumes "sched_inv s" "none_lost s" "r < next_id s"
  defines "s' \<equiv> snd (fail_all s)"
  shows "is_finished (seqs s' r) \<and>
    finish_reason (seqs s' r) = (if is_finished (seqs s r) then finish_reason (seqs s r) else ''error'') \<and>
    output_ids (seqs s' r) = output_ids (seqs s r) \<and>
    channel r s' = channel r s @ (if r \<in> set (fst (fail_all s)) then [None] else []) \<and>
    (is_finished (seqs s r) \<or> r \<in> set (fst (fail_all s))) \<and> \<not> has_work s'"
proof -
  have "is_finished (seqs s r) \<or> r \<in> set (running s @ waiting s)"
    using assms(2,3) by (auto simp: none_lost_def)
  then show ?thesis
    using assms(1) fail_all_finishes [OF assms(2,3)]
    by (auto simp: s'_def fold_fail_reason channel_fail_all has_work_def simp del: fold_append)
qed

lemma fail_all_wakes_everyone_witness:
  "finish_reason (seqs (snd (fail_all (submitted 1 10 [(4, 5), (5, 0)]))) 0) = ''error'' \<and>
   finish_reason (seqs (snd (fail_all (submitted 1 10 [(4, 5), (5, 0)]))) 1) = ''length''"
  using fail_all_wakes_everyone [OF submitted_inv, of 0 1 10 "[(4, 5), (5, 0)]"]
    fail_all_wakes_everyone [OF submitted_inv, of 1 1 10 "[(4, 5), (5, 0)]"]
  by (simp add: submitted_def new_sequence_def add_def Let_def is_finished_def)

lemma gauges_card:
  assumes "sched_inv s" "none_lost s"
  shows "num_running s + num_waiting s = card {r. r < next_id s \<and> \<not> is_finished (seqs s r)}"
proof -
  let ?live = "filter (\<lambda>r. \<not> is_finished (seqs s r)) (running s)"
  have "{r. r < next_id s \<and> \<not> is_finished (seqs s r)} = set (?live @ waiting s)"
    using assms by (auto simp: sched_inv_def none_lost_def fresh_seq_def is_finished_def)
  moreover have "distinct (?live @ waiting s)" using assms(1) by (auto simp: sched_inv_def)
  ultimately have "card {r. r < next_id s \<and> \<not> is_finished (seqs s r)} = length (?live @ waiting s)"
    by (simp only: distinct_card)
  then show ?thesis by (simp add: num_running_def num_waiting_def)
qed

text \<open>C34: the two gauges are a measurement.  \<open>num_running\<close> plus \<open>num_waiting\<close> is the number of
  requests without a finish reason, whether or not a finished one still holds its place in the
  deque, and \<open>num_running\<close> alone does not change when such a place is swept.\<close>

theorem gauges_count_unfinished:
  assumes "sched_inv s" "none_lost s"
  shows "num_running s + num_waiting s = card {r. r < next_id s \<and> \<not> is_finished (seqs s r)} \<and>
    num_running (s\<lparr>running := filter (\<lambda>r. \<not> is_finished (seqs s r)) (running s)\<rparr>) = num_running s"
  using gauges_card [OF assms] by (simp add: num_running_def)

lemma gauges_count_unfinished_witness:
  "num_running (submitted 1 10 [(4, 5), (5, 0)]) + num_waiting (submitted 1 10 [(4, 5), (5, 0)])
     = card {r. r < 2 \<and> \<not> is_finished (seqs (submitted 1 10 [(4, 5), (5, 0)]) r)}"
  using gauges_count_unfinished [OF submitted_inv, of 1 10 "[(4, 5), (5, 0)]"]
  by (simp add: submitted_def new_sequence_def add_def Let_def is_finished_def numeral_2_eq_2)

text \<open>C39: a request for no tokens is answered at once: it never enters the queue, its output stays
  empty, its reason is ``length'', and the sentinel is the only item its reader gets.\<close>

theorem zero_budget_answered_at_once:
  assumes "sched_inv s" "new_sequence p n temp k eos current s = (r, s1)" "n \<le> 0"
  shows "waiting (add r s1) = waiting s \<and> running (add r s1) = running s \<and>
    output_ids (seqs (add r s1) r) = [] \<and> finish_reason (seqs (add r s1) r) = ''length'' \<and>
    before_none (channel r (add r s1)) = [] \<and> None \<in> set (channel r (add r s1))"
proof -
  note facts = sched_inv_new_sequence [OF assms(1,2)]
  have "filter (\<lambda>c. fst c = next_id s) (calls s) = []"
    using assms(1) by (force simp: sched_inv_def store_inv_def filter_empty_conv)
  then have "channel r s1 = []"
    using assms(2) by (auto simp: channel_def new_sequence_def Let_def)
  moreover have "calls_ok s1" using facts(1) by (simp add: sched_inv_def store_inv_def)
  ultimately show ?thesis using facts assms(3) by (simp add: add_def channel_emit)
qed

lemma zero_budget_answered_at_once_witness:
  "waiting (submitted 4 10 [(3, 0)]) = []"
  using zero_budget_answered_at_once [OF sched_inv_submitted [of 4 10 "[]"],
      of "replicate 3 7" 0 "Fin 0" None "{1}" "Inl (OtherException ''RuntimeError'')" 0
        "snd (new_sequence (replicate 3 7) 0 (Fin 0) None {1} (Inl (OtherException ''RuntimeError'')) (submitted 4 10 []))"]
  by (simp add: submitted_def new_sequence_def add_def Let_def)

end
