(* ===== verification/Runners.thy ===== *)
theory Runners
  imports Sequences
begin

text \<open>
  \<^verbatim>\<open>src/model_server/runners.py\<close>: how a batch becomes tokens.  A runner is a record of the
  methods of \<^verbatim>\<open>ModelRunner\<close>; its mutable attributes are a state of its own that \<open>execute\<close> and
  \<open>reset\<close> take and return.  \<open>execute\<close> reads the sequences of the batch through the store's
  lookup function and gives one row per sequence or raises.

  Torch, the model and the tokenizer are not part of the repository.  They are arguments: the
  record \<open>torch\<close> of the tensor operations \<^verbatim>\<open>_sample_row\<close> calls, the record \<open>tokenizer\<close>, and
  the forward pass \<open>forward\<close>.  A tensor of two dimensions is a list of rows.
\<close>

section \<open>The boundary between the scheduler and a runner\<close>

record forward_batch =
  fb_seqs :: "nat list"
  is_prefill :: bool

record 'c runner =
  eos_ids :: "int set"
  encode :: "ustring \<Rightarrow> int list"
  decode :: "int list \<Rightarrow> ustring"
  execute :: "(nat \<Rightarrow> sequence) \<Rightarrow> forward_batch \<Rightarrow> 'c \<Rightarrow> (exn + int option list) \<times> 'c"
  reset :: "'c \<Rightarrow> 'c"

text \<open>The base class: no stop token, and a \<^verbatim>\<open>reset\<close> with nothing to drop.\<close>

definition base_eos_token_ids :: "int set" where
  "base_eos_token_ids = {}"

definition base_reset :: "'c \<Rightarrow> 'c" where
  "base_reset c = c"

section \<open>The mock runner\<close>

definition mock_word :: ustring where
  "mock_word = lit ''mock ''"

definition mock_tick_seconds :: rat where
  "mock_tick_seconds = 2 / 100"

definition mock_encode :: "ustring \<Rightarrow> int list" where
  "mock_encode prompt = map int prompt"

definition mock_decode :: "int list \<Rightarrow> ustring" where
  "mock_decode ids = concat (replicate (length ids) mock_word)"

definition mock_execute ::
  "(nat \<Rightarrow> sequence) \<Rightarrow> forward_batch \<Rightarrow> 'c \<Rightarrow> (exn + int option list) \<times> 'c" where
  "mock_execute h b c = (Inr (replicate (length (fb_seqs b)) (Some 0)), c)"

text \<open>
  The mock has no attributes of its own, so it fits a state of any type and leaves it alone.
\<close>

definition mock_runner :: "'c runner" where
  "mock_runner = \<lparr>eos_ids = base_eos_token_ids, encode = mock_encode, decode = mock_decode,
                  execute = mock_execute, reset = base_reset\<rparr>"

section \<open>Qwen3\<close>

text \<open>An end-of-sequence setting is one id or a list of them, when it is there at all.\<close>

datatype eos_setting = EosId int | EosIds "int list"

record tokenizer =
  apply_chat_template :: "(string \<times> ustring) list \<Rightarrow> bool \<Rightarrow> bool \<Rightarrow> bool \<Rightarrow> ustring"
  tokenize :: "ustring \<Rightarrow> int list"
  tok_decode :: "int list \<Rightarrow> bool \<Rightarrow> ustring"
  pad_token_id :: "int option"
  tok_eos_token_id :: "eos_setting option"

text \<open>
  The model's generation config may be missing, or be there without the attribute; both read
  as \<^verbatim>\<open>None\<close>, as with the nested \<^verbatim>\<open>getattr\<close>.
\<close>

definition resolve_eos_ids :: "eos_setting option option \<Rightarrow> tokenizer \<Rightarrow> int set" where
  "resolve_eos_ids generation_config tok =
     (let eos = (case generation_config of None \<Rightarrow> None | Some e \<Rightarrow> e);
          eos = (case eos of None \<Rightarrow> tok_eos_token_id tok | Some e \<Rightarrow> Some e)
      in case eos of
           None \<Rightarrow> {}
         | Some (EosIds es) \<Rightarrow> set es
         | Some (EosId e) \<Rightarrow> {e})"

definition pad_id_of :: "tokenizer \<Rightarrow> int" where
  "pad_id_of tok = (case pad_token_id tok of None \<Rightarrow> 0 | Some p \<Rightarrow> p)"

definition qwen_encode :: "tokenizer \<Rightarrow> bool \<Rightarrow> ustring \<Rightarrow> int list" where
  "qwen_encode tok enable_thinking prompt =
     tokenize tok (apply_chat_template tok [(''user'', prompt)] False True enable_thinking)"

definition qwen_decode :: "tokenizer \<Rightarrow> int list \<Rightarrow> ustring" where
  "qwen_decode tok ids = tok_decode tok ids True"

subsection \<open>Padding\<close>

fun cumsum :: "int \<Rightarrow> int list \<Rightarrow> int list" where
  "cumsum acc [] = []"
| "cumsum acc (x # xs) = (acc + x) # cumsum (acc + x) xs"

definition row_width :: "sequence list \<Rightarrow> int" where
  "row_width qs = Max (set (map seq_len qs))"

definition pad_row :: "int \<Rightarrow> int \<Rightarrow> sequence \<Rightarrow> int list" where
  "pad_row pad_id width q =
     (let toks = token_ids q; pad = width - int (length toks)
      in replicate (nat pad) pad_id @ toks)"

definition mask_row :: "int \<Rightarrow> sequence \<Rightarrow> int list" where
  "mask_row width q =
     (let toks = token_ids q; pad = width - int (length toks)
      in replicate (nat pad) 0 @ replicate (length toks) 1)"

definition position_row :: "int list \<Rightarrow> int list" where
  "position_row attention = map (\<lambda>c. max 0 (c - 1)) (cumsum 0 attention)"

text \<open>\<^verbatim>\<open>max()\<close> of no rows raises; otherwise three rectangular tensors.\<close>

definition pad_and_stack ::
  "int \<Rightarrow> sequence list \<Rightarrow> exn + (int list list \<times> int list list \<times> int list list)" where
  "pad_and_stack pad_id qs =
     (if qs = [] then Inl (OtherException ''ValueError'')
      else let width = row_width qs;
               ids = map (pad_row pad_id width) qs;
               masks = map (mask_row width) qs
           in Inr (ids, masks, map position_row masks))"

subsection \<open>Sampling\<close>

record ('v, 'g) torch =
  argmax :: "'v list \<Rightarrow> exn + int"
  divide :: "'v list \<Rightarrow> pyfloat \<Rightarrow> exn + 'v list"
  topk :: "'v list \<Rightarrow> int \<Rightarrow> exn + 'v list"
  less_than :: "'v \<Rightarrow> 'v \<Rightarrow> bool"
  neg_inf :: 'v
  softmax :: "'v list \<Rightarrow> exn + 'v list"
  multinomial :: "'g \<Rightarrow> 'v list \<Rightarrow> (exn + int) \<times> 'g"

definition top_k_filter :: "('v, 'g) torch \<Rightarrow> int option \<Rightarrow> 'v list \<Rightarrow> exn + 'v list" where
  "top_k_filter T limit scaled =
     (case limit of
        None \<Rightarrow> Inr scaled
      | Some tk \<Rightarrow>
          if tk > 0 then
            let k = min tk (int (length scaled)) in
            case topk T scaled k of
              Inl e \<Rightarrow> Inl e
            | Inr kept \<Rightarrow>
                (if kept = [] then Inl (OtherException ''IndexError'')
                 else Inr (map (\<lambda>x. if less_than T x (last kept) then neg_inf T else x) scaled))
          else Inr scaled)"

definition sample_row ::
  "('v, 'g) torch \<Rightarrow> 'v list \<Rightarrow> sequence \<Rightarrow> 'g \<Rightarrow> (exn + int) \<times> 'g" where
  "sample_row T row_logits q g =
     (if fle (temperature q) (Fin 0) then (argmax T row_logits, g)
      else case divide T row_logits (temperature q) of
        Inl e \<Rightarrow> (Inl e, g)
      | Inr scaled \<Rightarrow>
          (case top_k_filter T (top_k q) scaled of
             Inl e \<Rightarrow> (Inl e, g)
           | Inr kept \<Rightarrow>
               (case softmax T kept of
                  Inl e \<Rightarrow> (Inl e, g)
                | Inr probs \<Rightarrow> multinomial T g probs)))"

text \<open>
  The \<^verbatim>\<open>try\<close> around one row: running out of memory is re-raised, any other \<^verbatim>\<open>Exception\<close> makes
  the row \<open>None\<close>; \<^verbatim>\<open>CancelledError\<close> is a \<^verbatim>\<open>BaseException\<close> and passes through.
\<close>

fun contain :: "exn + int \<Rightarrow> exn + int option" where
  "contain (Inr token) = Inr (Some token)"
| "contain (Inl (OtherException _)) = Inr None"
| "contain (Inl e) = Inl e"

fun sample_rows ::
  "('v, 'g) torch \<Rightarrow> (nat \<Rightarrow> sequence) \<Rightarrow> 'v list list \<Rightarrow> nat \<Rightarrow> nat list \<Rightarrow> 'g
    \<Rightarrow> (exn + int option list) \<times> 'g" where
  "sample_rows T h logits row [] g = (Inr [], g)"
| "sample_rows T h logits row (r # rs) g =
     (let (res, g1) = (if row < length logits then sample_row T (logits ! row) (h r) g
                       else (Inl (OtherException ''IndexError''), g))
      in case contain res of
           Inl e \<Rightarrow> (Inl e, g1)
         | Inr token \<Rightarrow>
             (let (rest, g2) = sample_rows T h logits (Suc row) rs g1
              in (case rest of Inl e \<Rightarrow> Inl e | Inr tokens \<Rightarrow> Inr (token # tokens), g2)))"

definition sample ::
  "('v, 'g) torch \<Rightarrow> (nat \<Rightarrow> sequence) \<Rightarrow> 'v list list \<Rightarrow> nat list \<Rightarrow> 'g
    \<Rightarrow> (exn + int option list) \<times> 'g" where
  "sample T h logits rs g = sample_rows T h logits 0 rs g"

subsection \<open>One forward pass\<close>

record ('k, 'g) qwen_state =
  cache :: "'k option"
  rng :: 'g

text \<open>
  The forward pass takes the cache and the three tensors and gives the logits, one vector per
  row and column, and the new cache, or raises.
\<close>

type_synonym ('v, 'k) forward =
  "'k option \<Rightarrow> int list list \<Rightarrow> int list list \<Rightarrow> int list list
    \<Rightarrow> exn + ('v list list list \<times> 'k)"

text \<open>
  \<^verbatim>\<open>[:, -1:]\<close> keeps the last column; \<^verbatim>\<open>[:, -1, :]\<close> takes it out and raises when there is none.
\<close>

definition last_column :: "'a list list \<Rightarrow> 'a list list" where
  "last_column rows = map (\<lambda>row. drop (length row - 1) row) rows"

definition last_logits :: "'v list list list \<Rightarrow> exn + 'v list list" where
  "last_logits logits =
     (if [] \<in> set logits then Inl (OtherException ''IndexError'') else Inr (map last logits))"

definition qwen_reset :: "('k, 'g) qwen_state \<Rightarrow> ('k, 'g) qwen_state" where
  "qwen_reset c = c\<lparr>cache := None\<rparr>"

definition qwen_execute ::
  "int \<Rightarrow> ('v, 'k) forward \<Rightarrow> ('v, 'g) torch \<Rightarrow> (nat \<Rightarrow> sequence) \<Rightarrow> forward_batch
    \<Rightarrow> ('k, 'g) qwen_state \<Rightarrow> (exn + int option list) \<times> ('k, 'g) qwen_state" where
  "qwen_execute pad_id forward T h b c =
     (let c1 = (if is_prefill b then c\<lparr>cache := None\<rparr> else c) in
      case pad_and_stack pad_id (map h (fb_seqs b)) of
        Inl e \<Rightarrow> (Inl e, c1)
      | Inr (ids, attention, pos) \<Rightarrow>
          let ids' = (if cache c1 \<noteq> None then last_column ids else ids);
              pos' = (if cache c1 \<noteq> None then last_column pos else pos)
          in case forward (cache c1) ids' attention pos' of
               Inl e \<Rightarrow> (Inl e, c1)
             | Inr (logits, k) \<Rightarrow>
                 let c2 = c1\<lparr>cache := Some k\<rparr> in
                 (case last_logits logits of
                    Inl e \<Rightarrow> (Inl e, c2)
                  | Inr rows \<Rightarrow>
                      let (tokens, g) = sample T h rows (fb_seqs b) (rng c2)
                      in (tokens, c2\<lparr>rng := g\<rparr>)))"

definition qwen_runner ::
  "tokenizer \<Rightarrow> eos_setting option option \<Rightarrow> ('v, 'k) forward \<Rightarrow> ('v, 'g) torch \<Rightarrow> bool
    \<Rightarrow> ('k, 'g) qwen_state runner" where
  "qwen_runner tok generation_config forward T enable_thinking =
     \<lparr>eos_ids = resolve_eos_ids generation_config tok,
      encode = qwen_encode tok enable_thinking, decode = qwen_decode tok,
      execute = qwen_execute (pad_id_of tok) forward T, reset = qwen_reset\<rparr>"

section \<open>What every runner owes the loop\<close>

text \<open>
  A runner reads of a sequence its tokens and its sampling parameters, and nothing that
  another request's arrival or a client's disconnect changes.
\<close>

definition runner_view :: "sequence \<Rightarrow> int list \<times> pyfloat \<times> int option" where
  "runner_view q = (token_ids q, temperature q, top_k q)"

text \<open>
  The interface \<^verbatim>\<open>run_loop\<close> uses: one row per sequence, computed from the views of the
  batch's own sequences.
\<close>

locale row_runner =
  fixes exec :: "(nat \<Rightarrow> sequence) \<Rightarrow> forward_batch \<Rightarrow> 'c \<Rightarrow> (exn + int option list) \<times> 'c"
  assumes exec_rows: "fst (exec h b c) = Inr rows \<Longrightarrow> length rows = length (fb_seqs b)"
    and exec_reads: "(\<And>r. r \<in> set (fb_seqs b) \<Longrightarrow> runner_view (h r) = runner_view (h' r))
      \<Longrightarrow> exec h b c = exec h' b c"
begin

lemma rows_cover_batch:
  "fst (exec h b c) = Inr rows \<Longrightarrow> map fst (zip (fb_seqs b) rows) = fb_seqs b"
  by (simp add: exec_rows)

lemma row_of_member:
  assumes "fst (exec h b c) = Inr rows" "r \<in> set (fb_seqs b)"
  obtains token where "(r, token) \<in> set (zip (fb_seqs b) rows)"
proof -
  have "r \<in> set (map fst (zip (fb_seqs b) rows))" using assms by (simp add: rows_cover_batch)
  with that show thesis by auto
qed

end

lemma runner_view_fields:
  assumes "runner_view p = runner_view q"
  shows "token_ids p = token_ids q" "temperature p = temperature q" "top_k p = top_k q"
    "seq_len p = seq_len q"
  using assms by (auto simp: runner_view_def seq_len_token_ids)

interpretation mock: row_runner mock_execute
  by unfold_locales (auto simp: mock_execute_def)

lemma sample_rows_length:
  "fst (sample_rows T h logits row rs g) = Inr tokens \<Longrightarrow> length tokens = length rs"
proof (induction rs arbitrary: row g tokens)
  case (Cons r rs)
  then show ?case
    by (auto simp: Let_def split: prod.splits sum.splits if_splits) (metis fst_conv)+
qed simp

lemma sample_row_view:
  assumes "runner_view p = runner_view q"
  shows "sample_row T logits p g = sample_row T logits q g"
  unfolding sample_row_def runner_view_fields [OF assms] by (rule refl)

lemma sample_rows_view:
  "(\<And>r. r \<in> set rs \<Longrightarrow> runner_view (h r) = runner_view (h' r))
    \<Longrightarrow> sample_rows T h logits row rs g = sample_rows T h' logits row rs g"
proof (induction rs arbitrary: row g)
  case (Cons r rs)
  have "sample_row T (logits ! row) (h r) g = sample_row T (logits ! row) (h' r) g"
    using Cons.prems by (intro sample_row_view) simp
  with Cons show ?case by (simp add: Let_def split: prod.splits sum.splits)
qed simp

text \<open>The three tensors only depend on the rows of tokens.\<close>

definition width_of :: "int list list \<Rightarrow> nat" where
  "width_of rows = Max (set (map length rows))"

definition pad_tokens :: "int \<Rightarrow> nat \<Rightarrow> int list \<Rightarrow> int list" where
  "pad_tokens pad_id w toks = replicate (w - length toks) pad_id @ toks"

definition mask_tokens :: "nat \<Rightarrow> int list \<Rightarrow> int list" where
  "mask_tokens w toks = replicate (w - length toks) 0 @ replicate (length toks) 1"

definition stack :: "int \<Rightarrow> int list list \<Rightarrow> int list list \<times> int list list \<times> int list list" where
  "stack pad_id rows =
     (map (pad_tokens pad_id (width_of rows)) rows, map (mask_tokens (width_of rows)) rows,
      map (\<lambda>toks. position_row (mask_tokens (width_of rows) toks)) rows)"

lemma row_width_width_of:
  assumes "qs \<noteq> []"
  shows "row_width qs = int (width_of (map token_ids qs))"
proof -
  have "row_width qs = Max (int ` set (map length (map token_ids qs)))"
    by (simp add: row_width_def image_image seq_len_token_ids)
  also have "\<dots> = int (width_of (map token_ids qs))"
    unfolding width_of_def
    by (rule mono_Max_commute [symmetric]) (use assms in \<open>auto simp: mono_def\<close>)
  finally show ?thesis .
qed

lemma pad_and_stack_stack:
  "qs \<noteq> [] \<Longrightarrow> pad_and_stack pad_id qs = Inr (stack pad_id (map token_ids qs))"
  by (simp add: pad_and_stack_def stack_def row_width_width_of pad_row_def mask_row_def
      pad_tokens_def mask_tokens_def nat_minus_as_int Let_def)

lemma pad_and_stack_view:
  assumes "map runner_view ps = map runner_view qs"
  shows "pad_and_stack pad_id ps = pad_and_stack pad_id qs"
proof (cases "qs = []")
  case False
  then have "ps \<noteq> []" using assms by auto
  moreover have "map token_ids ps = map token_ids qs"
    using arg_cong [OF assms, of "map fst"] by (simp add: o_def runner_view_def)
  ultimately show ?thesis using False by (simp add: pad_and_stack_stack)
qed (use assms in \<open>simp add: pad_and_stack_def\<close>)

lemma qwen_execute_rows:
  "fst (qwen_execute pad_id forward T h b c) = Inr rows \<Longrightarrow> length rows = length (fb_seqs b)"
  by (auto simp: qwen_execute_def sample_def Let_def split: sum.splits prod.splits)
    (metis fst_conv sample_rows_length)+

lemma qwen_execute_view:
  assumes "\<And>r. r \<in> set (fb_seqs b) \<Longrightarrow> runner_view (h r) = runner_view (h' r)"
  shows "qwen_execute pad_id forward T h b c = qwen_execute pad_id forward T h' b c"
proof -
  have p: "pad_and_stack pad_id (map h (fb_seqs b)) = pad_and_stack pad_id (map h' (fb_seqs b))"
    by (rule pad_and_stack_view) (use assms in simp)
  have sm: "sample T h lg (fb_seqs b) g = sample T h' lg (fb_seqs b) g" for lg g
    unfolding sample_def using assms by (rule sample_rows_view)
  show ?thesis unfolding qwen_execute_def p sm by (rule refl)
qed

interpretation qwen: row_runner "qwen_execute pad_id forward T" for pad_id forward T
  by unfold_locales (auto simp: qwen_execute_rows intro: qwen_execute_view)

section \<open>Properties\<close>

lemma cumsum_append: "cumsum acc (xs @ ys) = cumsum acc xs @ cumsum (acc + sum_list xs) ys"
  by (induction xs arbitrary: acc) (auto simp: add.assoc)

lemma cumsum_zeros: "cumsum acc (replicate n 0) = replicate n acc"
  by (induction n) auto

lemma cumsum_ones: "cumsum acc (replicate n 1) = map (\<lambda>i. acc + int i + 1) [0..<n]"
  by (induction n arbitrary: acc) (auto simp: replicate_append_same [symmetric] cumsum_append sum_list_replicate)

lemma position_row_mask:
  "position_row (mask_tokens w toks) = replicate (w - length toks) 0 @ map int [0..<length toks]"
  by (simp add: position_row_def mask_tokens_def cumsum_append cumsum_zeros cumsum_ones
      sum_list_replicate o_def map_replicate)

text \<open>C27: padding.  A batch becomes three rectangular tensors, as wide as its longest sequence.  Each
  row is its sequence's tokens preceded by pads only -- so the last column holds the newest token of
  every row --, the mask is 1 exactly on the tokens, and the positions count the tokens from 0,
  however many pads precede them.\<close>

theorem padding_is_left_and_positions_skip_it:
  assumes "qs \<noteq> []"
  defines "w \<equiv> nat (Max (set (map seq_len qs)))" and "n \<equiv> \<lambda>q. length (token_ids q)"
  shows "pad_and_stack pad_id qs = Inr
      (map (\<lambda>q. replicate (w - n q) pad_id @ token_ids q) qs,
       map (\<lambda>q. replicate (w - n q) 0 @ replicate (n q) 1) qs,
       map (\<lambda>q. replicate (w - n q) 0 @ map int [0..<n q]) qs) \<and>
    list_all (\<lambda>q. n q \<le> w) qs"
proof -
  have w: "w = width_of (map token_ids qs)"
    using row_width_width_of [OF assms(1)] by (simp add: w_def row_width_def)
  have "list_all (\<lambda>q. n q \<le> w) qs" by (auto simp: w width_of_def n_def list_all_iff)
  then show ?thesis
    using assms(1)
    by (simp add: pad_and_stack_stack stack_def w n_def pad_tokens_def mask_tokens_def
        position_row_mask [unfolded mask_tokens_def])
qed

text \<open>Two sequences of different lengths.\<close>

definition ragged :: "sequence list" where
  "ragged = [blank_sequence\<lparr>prompt_ids := [7, 8, 9]\<rparr>, blank_sequence\<lparr>prompt_ids := [5], output_ids := [6]\<rparr>]"

lemma padding_is_left_and_positions_skip_it_witness:
  "pad_and_stack 0 ragged = Inr ([[7, 8, 9], [0, 5, 6]], [[1, 1, 1], [0, 1, 1]], [[0, 1, 2], [0, 0, 1]])"
  using padding_is_left_and_positions_skip_it [of ragged 0]
  by (simp add: ragged_def blank_sequence_def seq_len_def token_ids_def numeral_3_eq_3 numeral_2_eq_2)

text \<open>C28: what a failing row does to the others.  A row whose sampling raises an ordinary exception
  comes back as \<^verbatim>\<open>None\<close>, and the rows before and after it are sampled as if it were only a
  consumer of random numbers; a row that runs out of memory fails the whole batch, whatever the
  rows after it would do.\<close>

theorem sampling_failure_contained:
  assumes before: "sample_rows T h logits row rs g = (Inr toks, g1)"
    and inside: "row + length rs < length logits"
    and fail: "sample_row T (logits ! (row + length rs)) (h r) g1 = (Inl e, g2)"
  shows "sample_rows T h logits row (rs @ r # qs) g =
    (case e of
       OtherException m \<Rightarrow>
         (case sample_rows T h logits (Suc (row + length rs)) qs g2 of
            (Inr later, g3) \<Rightarrow> (Inr (toks @ None # later), g3)
          | (Inl e', g3) \<Rightarrow> (Inl e', g3))
     | _ \<Rightarrow> (Inl e, g2))"
  using before inside fail
proof (induction rs arbitrary: row g toks)
  case Nil
  then show ?case by (cases e) (auto split: prod.splits sum.splits)
next
  case (Cons p rs)
  obtain res g' where one: "(if row < length logits then sample_row T (logits ! row) (h p) g
      else (Inl (OtherException ''IndexError''), g)) = (res, g')" by force
  obtain tok rest where tok: "contain res = Inr tok"
    and rest: "sample_rows T h logits (Suc row) rs g' = (Inr rest, g1)" and toks: "toks = tok # rest"
    using Cons.prems(1) one by (auto simp: Let_def split: sum.splits prod.splits)
  from Cons.IH [OF rest] Cons.prems(2,3)
  have "sample_rows T h logits (Suc row) (rs @ r # qs) g' =
    (case e of
       OtherException m \<Rightarrow>
         (case sample_rows T h logits (Suc (Suc row + length rs)) qs g2 of
            (Inr later, g3) \<Rightarrow> (Inr (rest @ None # later), g3)
          | (Inl e', g3) \<Rightarrow> (Inl e', g3))
     | _ \<Rightarrow> (Inl e, g2))" by simp
  with one tok toks show ?case
    by (cases e) (auto simp: Let_def split: sum.splits prod.splits)
qed

text \<open>
  A concrete torch over the integers: \<open>topk\<close> gives the largest entries in descending order, the
  division leaves the logits alone and sampling takes a fixed entry, or fails on an empty vector.
\<close>

definition int_torch :: "(int, unit) torch" where
  "int_torch = \<lparr>argmax = (\<lambda>xs. if xs = [] then Inl (OtherException ''IndexError'') else Inr (int (length (takeWhile (\<lambda>x. x \<noteq> Max (set xs)) xs)))),
     divide = (\<lambda>xs t. Inr xs), topk = (\<lambda>xs k. Inr (take (nat k) (rev (sort xs)))),
     less_than = (<), neg_inf = -1000000, softmax = Inr,
     multinomial = (\<lambda>g ps. (if ps = [] then Inl (OtherException ''RuntimeError'') else Inr (int (length ps) - 1), g))\<rparr>"

lemma sampling_failure_contained_witness:
  "fst (sample_rows int_torch (\<lambda>_. blank_sequence\<lparr>temperature := Fin 1\<rparr>) [[4, 2], [], [1, 2, 3]] 0 [0, 1, 2] ())
     = Inr [Some 1, None, Some 2]"
  using sampling_failure_contained [of int_torch "\<lambda>_. blank_sequence\<lparr>temperature := Fin 1\<rparr>" "[[4, 2], [], [1, 2, 3]]"
      0 "[0]" "()" "[Some 1]" "()" 1 "OtherException ''RuntimeError''" "()" "[2]"]
  by (simp add: sample_row_def int_torch_def blank_sequence_def top_k_filter_def)

text \<open>C29: top-k.  With a \<^verbatim>\<open>topk\<close> that returns the largest entries in descending order, the filter
  keeps an entry exactly if fewer than \<open>k\<close> entries of the row are larger; every other entry
  becomes minus infinity, and no entry moves.  A limit beyond the vocabulary keeps everything.\<close>

theorem top_k_keeps_the_k_largest:
  fixes T :: "('v::linorder, 'g) torch"
  assumes topk: "\<And>xs k. 0 < k \<Longrightarrow> k \<le> int (length xs) \<Longrightarrow> topk T xs k = Inr (take (nat k) (rev (sort xs)))"
    and lt: "less_than T = (<)" and k: "0 < k" and xs: "xs \<noteq> []"
  shows "top_k_filter T (Some k) xs =
    Inr (map (\<lambda>x. if int (length (filter (\<lambda>y. x < y) xs)) < k then x else neg_inf T) xs)"
proof -
  let ?n = "length xs" and ?m = "min k (int (length xs))" and ?ys = "rev (sort xs)"
  have m: "0 < ?m" "?m \<le> int ?n" using k xs by auto
  define j where "j = nat ?m - 1"
  have "nat ?m \<le> ?n" "0 < nat ?m" using m by linarith+
  then have j: "nat ?m = Suc j" "j < ?n" unfolding j_def by linarith+
  have last: "last (take (nat ?m) ?ys) = ?ys ! j" "take (nat ?m) ?ys \<noteq> []"
    using j xs by (auto simp: take_Suc_conv_app_nth)
  have desc: "?ys ! b \<le> ?ys ! a" if "a \<le> b" "b < ?n" for a b
    using that sorted_nth_mono [OF sorted_sort, of "?n - Suc b" "?n - Suc a" xs]
    by (simp add: rev_nth)
  have len: "length (filter (\<lambda>y. x < y) xs) = card {i. i < ?n \<and> x < ?ys ! i}" for x
  proof -
    have "length (filter (\<lambda>y. x < y) xs) = length (filter (\<lambda>y. x < y) ?ys)"
      by (simp add: filter_sort flip: rev_filter)
    then show ?thesis by (simp add: length_filter_conv_card)
  qed
  have "(x < ?ys ! j) = (\<not> int (length (filter (\<lambda>y. x < y) xs)) < k)" if x: "x \<in> set xs" for x
  proof
    assume less: "x < ?ys ! j"
    have "{..j} \<subseteq> {i. i < ?n \<and> x < ?ys ! i}"
      using desc [of _ j] less j by (auto intro: less_le_trans)
    from card_mono [OF _ this] have "Suc j \<le> length (filter (\<lambda>y. x < y) xs)"
      by (simp add: len)
    moreover have "length (filter (\<lambda>y. x < y) xs) < ?n"
      by (rule length_filter_less [OF x]) simp
    ultimately show "\<not> int (length (filter (\<lambda>y. x < y) xs)) < k" using j by auto
  next
    assume many: "\<not> int (length (filter (\<lambda>y. x < y) xs)) < k"
    show "x < ?ys ! j"
    proof (rule ccontr)
      assume "\<not> x < ?ys ! j"
      then have "{i. i < ?n \<and> x < ?ys ! i} \<subseteq> {..<j}"
        using desc by (auto simp: not_less) (meson leI le_less_trans not_le order_trans)
      from card_mono [OF _ this] have "length (filter (\<lambda>y. x < y) xs) \<le> j" by (simp add: len)
      with many j k show False by auto
    qed
  qed
  then show ?thesis
    using k m last by (auto simp: top_k_filter_def topk lt Let_def)
qed

lemma top_k_keeps_the_k_largest_witness:
  "top_k_filter int_torch (Some 2) [5, 1, 9, 5] = Inr [5, -1000000, 9, 5]"
  using top_k_keeps_the_k_largest [of int_torch 2 "[5, 1, 9, 5]"]
  by (simp add: int_torch_def)

end
