(* ===== verification/Run_Loop.thy ===== *)
theory Run_Loop
  imports Scheduler Runners
begin

text \<open>
  \<^verbatim>\<open>run_loop\<close> and \<^verbatim>\<open>prompt_to_sequence\<close> of \<^verbatim>\<open>src/model_server/batching.py\<close>.  The coroutine
  runs on the event loop and gives up control at its two \<^verbatim>\<open>await\<close>s only: the idle sleep and the
  worker thread that executes a batch.  Between two of them a piece of it is one atomic step
  of the model; \<open>pc\<close> says at which \<^verbatim>\<open>await\<close> it stands, with the local variables that live
  across it.
\<close>

section \<open>State\<close>

datatype loop_pc =
    NotStarted
  | Sleeping
  | Executing forward_batch "nat list"
  | Stopped exn

record 'c run_loop = scheduler +
  members :: "nat list"
  pc :: loop_pc
  rstate :: 'c

section \<open>The loop\<close>

text \<open>
  From the head of \<^verbatim>\<open>while True\<close> to the next \<^verbatim>\<open>await\<close>.  An empty batch goes back to the head
  without awaiting anything, so this may run forever; \<open>None\<close> is such a run.
\<close>

partial_function (option) loop_head ::
  "'c runner \<Rightarrow> ('c, 'z) run_loop_scheme \<Rightarrow> ('c, 'z) run_loop_scheme option" where
  "loop_head rn s =
     (if \<not> has_work s then Some (s\<lparr>pc := Sleeping\<rparr>)
      else let batch = fst (schedule s); s1 = snd (schedule s) in
        if batch = [] then loop_head rn (s1\<lparr>members := [], rstate := reset rn (rstate s1)\<rparr>)
        else let current = map (\<lambda>r. seq_id (seqs s1 r)) batch in
          Some (s1\<lparr>pc := Executing \<lparr>fb_seqs = batch, is_prefill = (current \<noteq> members s1)\<rparr> current\<rparr>))"

text \<open>The rows of a batch that came back: \<open>None\<close> rows are aborted, the others recorded.\<close>

definition casualties :: "nat list \<Rightarrow> int option list \<Rightarrow> nat list" where
  "casualties batch next_ids = map fst (filter (\<lambda>(r, token). token = None) (zip batch next_ids))"

definition survivors :: "nat list \<Rightarrow> int option list \<Rightarrow> (nat \<times> int) list" where
  "survivors batch next_ids =
     map (\<lambda>(r, token). (r, the token)) (filter (\<lambda>(r, token). token \<noteq> None) (zip batch next_ids))"

definition loop_record ::
  "nat list \<Rightarrow> nat list \<Rightarrow> int option list \<Rightarrow> ('c, 'z) run_loop_scheme \<Rightarrow> ('c, 'z) run_loop_scheme" where
  "loop_record batch current next_ids s =
     (let s1 = fold (\<lambda>r. abort r ''error'') (casualties batch next_ids) s;
          rows = survivors batch next_ids;
          s2 = snd (postprocess (map fst rows) (map snd rows) s1)
      in s2\<lparr>members := current\<rparr>)"

text \<open>A tick that raises, and a task that is cancelled at either of its awaits.\<close>

definition loop_raise :: "exn \<Rightarrow> ('c, 'z) run_loop_scheme \<Rightarrow> ('c, 'z) run_loop_scheme" where
  "loop_raise e s = (snd (fail_all s))\<lparr>pc := Stopped e\<rparr>"

definition loop_cancel :: "('c, 'z) run_loop_scheme \<Rightarrow> ('c, 'z) run_loop_scheme" where
  "loop_cancel s =
     (case pc s of
        Executing b current \<Rightarrow> loop_raise CancelledError s
      | Stopped e \<Rightarrow> s
      | _ \<Rightarrow> s\<lparr>pc := Stopped CancelledError\<rparr>)"

text \<open>What the coroutine does when the event loop resumes it.\<close>

definition loop_resume ::
  "'c runner \<Rightarrow> ('c, 'z) run_loop_scheme \<Rightarrow> ('c, 'z) run_loop_scheme option" where
  "loop_resume rn s =
     (case pc s of
        Executing b current \<Rightarrow>
          (case execute rn (seqs s) b (rstate s) of
             (Inl e, c) \<Rightarrow> Some (loop_raise e (s\<lparr>rstate := c\<rparr>))
           | (Inr next_ids, c) \<Rightarrow>
               loop_head rn (loop_record (fb_seqs b) current next_ids (s\<lparr>rstate := c\<rparr>)))
      | Stopped e \<Rightarrow> Some s
      | _ \<Rightarrow> loop_head rn s)"

text \<open>\<^verbatim>\<open>create_task(run_loop(runner, scheduler))\<close>: a new coroutine with its own \<^verbatim>\<open>members\<close>.\<close>

definition loop_start :: "'c \<Rightarrow> ('c, 'z) run_loop_scheme \<Rightarrow> ('c, 'z) run_loop_scheme" where
  "loop_start c s = s\<lparr>members := [], pc := NotStarted, rstate := c\<rparr>"

definition prompt_to_sequence ::
  "'c runner \<Rightarrow> ustring \<Rightarrow> int \<Rightarrow> pyfloat \<Rightarrow> int option \<Rightarrow> exn + nat \<Rightarrow> 'a store_scheme
    \<Rightarrow> nat \<times> 'a store_scheme" where
  "prompt_to_sequence rn prompt n temp k current s =
     new_sequence (encode rn prompt) n temp k (eos_ids rn) current s"

declare loop_head.simps [simp del]

section \<open>The piece between two awaits\<close>

text \<open>
  With at least one slot, an empty batch means that the queue is empty as well: the second
  round of the head finds no work and sleeps.  \<open>loop_next\<close> is the result in closed form.
\<close>

definition loop_next ::
  "'c runner \<Rightarrow> ('c, 'z) run_loop_scheme \<Rightarrow> ('c, 'z) run_loop_scheme" where
  "loop_next rn s =
     (if \<not> has_work s then s\<lparr>pc := Sleeping\<rparr>
      else let batch = fst (schedule s); s1 = snd (schedule s) in
        if batch = [] then s1\<lparr>members := [], rstate := reset rn (rstate s1), pc := Sleeping\<rparr>
        else let current = map (\<lambda>r. seq_id (seqs s1 r)) batch in
          s1\<lparr>pc := Executing \<lparr>fb_seqs = batch, is_prefill = (current \<noteq> members s1)\<rparr> current\<rparr>)"

lemma schedule_loop [simp]:
  "members (snd (schedule s)) = members s" "pc (snd (schedule s)) = pc s"
  "rstate (snd (schedule s)) = rstate s"
  by (simp_all add: schedule_unfold Let_def)

lemma has_work_members [simp]: "has_work (s\<lparr>members := m, rstate := c\<rparr>) = has_work s"
  by (simp add: has_work_def)

lemma empty_schedule_no_work:
  assumes "1 \<le> max_batch_size s" "fst (schedule s) = []"
  shows "\<not> has_work (snd (schedule s))"
proof -
  have "waiting s = []" using schedule_progress [OF assms(1)] assms(2) by blast
  with assms(2) show ?thesis by (simp add: has_work_def schedule_unfold Let_def)
qed

lemma loop_head_next:
  assumes "1 \<le> max_batch_size s"
  shows "loop_head rn s = Some (loop_next rn s)"
proof (cases "has_work s \<and> fst (schedule s) = []")
  case True
  let ?s = "(snd (schedule s))\<lparr>members := [], rstate := reset rn (rstate (snd (schedule s)))\<rparr>"
  have "loop_head rn s = loop_head rn ?s"
    using True by (subst loop_head.simps) (simp add: Let_def)
  also have "\<dots> = Some (?s\<lparr>pc := Sleeping\<rparr>)"
    using empty_schedule_no_work [OF assms] True by (subst loop_head.simps) simp
  finally show ?thesis using True by (simp add: loop_next_def Let_def)
next
  case False
  then show ?thesis by (subst loop_head.simps) (auto simp: loop_next_def Let_def)
qed

text \<open>
  Without a slot the head of the loop never reaches an await while a request waits: every
  round schedules nothing and starts over.
\<close>

definition stuck :: "'a scheduler_scheme \<Rightarrow> bool" where
  "stuck s \<longleftrightarrow>
     max_batch_size s \<le> 0 \<and> waiting s \<noteq> [] \<and> (\<forall>r \<in> set (running s). is_finished (seqs s r))"

lemma stuck_schedule:
  assumes "stuck s"
  shows "fst (schedule s) = []" "stuck (snd (schedule s))" "has_work s"
proof -
  have live: "filter (\<lambda>r. \<not> is_finished (seqs s r)) (running s) = []"
    using assms by (simp add: stuck_def filter_empty_conv)
  obtain c w where w: "waiting s = c # w" using assms by (cases "waiting s") (auto simp: stuck_def)
  have "admit_count (seqs s) (max_batch_size s) (max_batch_tokens s) [] (waiting s) = 0"
    using assms by (simp add: w admit_count_Cons admissible_0 stuck_def)
  with live w assms show "fst (schedule s) = []" "stuck (snd (schedule s))" "has_work s"
    by (simp_all add: schedule_unfold Let_def stuck_def has_work_def)
qed

lemma loop_head_stuck:
  assumes ret: "loop_head rn s = Some t"
  shows "\<not> stuck s"
proof (rule loop_head.raw_induct [where P = "\<lambda>rn s t. \<not> stuck s", OF _ ret])
  fix f and rn :: "'a runner" and s t :: "('a, 'b) run_loop_scheme"
  let ?s = "(snd (schedule s))\<lparr>members := [], rstate := reset rn (rstate (snd (schedule s)))\<rparr>"
  assume IH: "\<And>rn s t. f rn s = Some t \<Longrightarrow> \<not> stuck s"
    and eq: "(if \<not> has_work s then Some (s\<lparr>pc := Sleeping\<rparr>)
      else let batch = fst (schedule s); s1 = snd (schedule s) in
        if batch = [] then f rn (s1\<lparr>members := [], rstate := reset rn (rstate s1)\<rparr>)
        else let current = map (\<lambda>r. seq_id (seqs s1 r)) batch in
          Some (s1\<lparr>pc := Executing \<lparr>fb_seqs = batch, is_prefill = (current \<noteq> members s1)\<rparr> current\<rparr>)) = Some t"
  show "\<not> stuck s"
  proof
    assume st: "stuck s"
    have "f rn ?s = Some t" using eq stuck_schedule [OF st] by (simp add: Let_def)
    then have "\<not> stuck ?s" by (rule IH)
    with stuck_schedule(2) [OF st] show False by (simp add: stuck_def)
  qed
qed

section \<open>The loop's invariant\<close>

text \<open>
  While a batch executes, the deque \<open>running\<close> is that batch, in that order, and every row of
  it may still be given a token: all that other coroutines do to it in the meantime is to
  cancel it.
\<close>

definition executing_ok :: "('c, 'z) run_loop_scheme \<Rightarrow> bool" where
  "executing_ok s \<longleftrightarrow>
     (case pc s of
        Executing b current \<Rightarrow>
          fb_seqs b = running s \<and> current = running s \<and> running s \<noteq> [] \<and>
          (\<forall>r \<in> set (running s). open_seq (seqs s r) \<and>
             finish_reason (seqs s r) \<in> {'''', ''cancelled''})
      | _ \<Rightarrow> True)"

definition loop_inv :: "('c, 'z) run_loop_scheme \<Rightarrow> bool" where
  "loop_inv s \<longleftrightarrow> sched_inv s \<and> none_lost s \<and> executing_ok s"

lemma sched_inv_more [simp]:
  "sched_inv (s\<lparr>members := m\<rparr>) = sched_inv s" "sched_inv (s\<lparr>pc := p\<rparr>) = sched_inv s"
  "sched_inv (s\<lparr>rstate := c\<rparr>) = sched_inv s"
  by (simp_all add: sched_inv_def store_inv_def calls_ok_def)

lemma none_lost_more [simp]:
  "none_lost (s\<lparr>members := m\<rparr>) = none_lost s" "none_lost (s\<lparr>pc := p\<rparr>) = none_lost s"
  "none_lost (s\<lparr>rstate := c\<rparr>) = none_lost s"
  by (simp_all add: none_lost_def)

lemma schedule_seq_ids:
  "sched_inv s \<Longrightarrow> map (\<lambda>r. seq_id (seqs s r)) (fst (schedule s)) = fst (schedule s)"
proof -
  assume inv: "sched_inv s"
  then have "sched_inv (snd (schedule s))" by (rule sched_inv_schedule)
  then show ?thesis by (intro map_idI) (auto simp: sched_inv_def store_inv_def)
qed

lemma none_lost_schedule: "none_lost s \<Longrightarrow> none_lost (snd (schedule s))"
  by (auto simp: none_lost_def schedule_unfold Let_def)

lemma loop_inv_next:
  assumes "sched_inv s" "none_lost s"
  shows "loop_inv (loop_next rn s)"
proof -
  have "sched_inv (loop_next rn s)" "none_lost (loop_next rn s)"
    using assms by (simp_all add: loop_next_def Let_def sched_inv_schedule none_lost_schedule)
  moreover have "executing_ok (loop_next rn s)"
    using assms schedule_unfinished [OF assms(1)]
    by (simp add: loop_next_def Let_def executing_ok_def schedule_seq_ids is_finished_def)
  ultimately show ?thesis by (simp add: loop_inv_def)
qed

section \<open>Recording a tick\<close>

text \<open>The casualties of a tick, aborted one after the other.\<close>

lemma calls_ok_abort [simp]: "calls_ok s \<Longrightarrow> calls_ok (abort r reason s)"
proof -
  assume ok: "calls_ok s"
  then have "calls_ok ((set_reason r reason s)\<lparr>waiting := w\<rparr>)" for w
    by (auto simp: calls_ok_def)
  with ok show ?thesis by (simp add: abort_def Let_def)
qed

lemma fold_abort_frame [simp]:
  "next_id (fold (\<lambda>r. abort r reason) rs s) = next_id s"
  "running (fold (\<lambda>r. abort r reason) rs s) = running s"
  "spec_of (seqs (fold (\<lambda>r. abort r reason) rs s) q) = spec_of (seqs s q)"
  "output_ids (seqs (fold (\<lambda>r. abort r reason) rs s) q) = output_ids (seqs s q)"
  "max_batch_size (fold (\<lambda>r. abort r reason) rs s) = max_batch_size s"
  "max_batch_tokens (fold (\<lambda>r. abort r reason) rs s) = max_batch_tokens s"
  by (induction rs arbitrary: s) auto

lemma fold_abort_waiting:
  "set rs \<inter> set (waiting s) = {} \<Longrightarrow> waiting (fold (\<lambda>r. abort r reason) rs s) = waiting s"
  by (induction rs arbitrary: s) (auto simp: abort_waiting remove1_idem)

lemma fold_abort_reason:
  "reason \<noteq> '''' \<Longrightarrow> finish_reason (seqs (fold (\<lambda>r. abort r reason) rs s) q)
     = (if q \<in> set rs \<and> \<not> is_finished (seqs s q) then reason else finish_reason (seqs s q))"
  by (induction rs arbitrary: s) (auto simp: abort_reason is_finished_def)

lemma fold_abort_sched_inv:
  "sched_inv s \<Longrightarrow> \<forall>r \<in> set rs. r < next_id s \<Longrightarrow> reason \<in> {''cancelled'', ''error''}
    \<Longrightarrow> sched_inv (fold (\<lambda>r. abort r reason) rs s)"
  by (induction rs arbitrary: s) (simp_all add: sched_inv_abort)

lemma fold_abort_channel:
  "calls_ok s \<Longrightarrow> reason \<noteq> '''' \<Longrightarrow>
    channel q (fold (\<lambda>r. abort r reason) rs s)
      = channel q s @ (if q \<in> set rs \<and> \<not> is_finished (seqs s q) then [None] else [])"
  by (induction rs arbitrary: s) (auto simp: channel_abort abort_reason is_finished_def)

text \<open>Every row of a batch is a casualty or a survivor, in the order of the batch.\<close>

lemma casualties_iff:
  "r \<in> set (casualties batch next_ids) \<longleftrightarrow> (r, None) \<in> set (zip batch next_ids)"
  by (auto simp: casualties_def image_iff)

lemma survivors_iff:
  "(r, t) \<in> set (survivors batch next_ids) \<longleftrightarrow> (r, Some t) \<in> set (zip batch next_ids)"
  by (force simp: survivors_def image_iff)

lemma survivors_distinct:
  assumes "distinct batch"
  shows "distinct (map fst (survivors batch next_ids))"
proof -
  have "distinct (map fst (zip batch next_ids))"
    using assms by (simp add: map_fst_zip_take)
  then have "distinct (map fst (filter (\<lambda>(r, token). token \<noteq> None) (zip batch next_ids)))"
    by (rule distinct_map_filter)
  then show ?thesis by (simp add: survivors_def o_def case_prod_beta)
qed

lemma zip_row_unique:
  "distinct batch \<Longrightarrow> (r, t) \<in> set (zip batch rows) \<Longrightarrow> (r, u) \<in> set (zip batch rows) \<Longrightarrow> t = u"
  by (auto simp: set_zip nth_eq_iff_index_eq)

lemma survivors_batch: "fst ` set (survivors batch next_ids) \<subseteq> set batch"
  by (auto simp: survivors_iff dest: set_zip_leftD)

lemma casualties_batch: "set (casualties batch next_ids) \<subseteq> set batch"
  by (auto simp: casualties_iff dest: set_zip_leftD)

lemma casualty_not_survivor:
  "distinct batch \<Longrightarrow> r \<in> set (casualties batch next_ids) \<Longrightarrow> r \<notin> fst ` set (survivors batch next_ids)"
  by (auto simp: casualties_iff survivors_iff dest: zip_row_unique)

lemma survivor_not_casualty:
  "distinct batch \<Longrightarrow> (r, t) \<in> set (survivors batch next_ids) \<Longrightarrow> r \<notin> set (casualties batch next_ids)"
  by (auto simp: casualties_iff survivors_iff dest: zip_row_unique)

lemma zip_map_fst_snd: "zip (map fst xs) (map snd xs) = xs"
  by (induction xs) auto

lemma loop_record_unfold:
  "loop_record batch current next_ids s =
     (snd (post_rows (survivors batch next_ids)
        (fold (\<lambda>r. abort r ''error'') (casualties batch next_ids) s)))\<lparr>members := current\<rparr>"
  by (simp add: loop_record_def postprocess_def Let_def zip_map_fst_snd)

text \<open>
  The outcome of a tick, row by row: a casualty ends with ``error'' and no token, a survivor
  gets its token and the verdict on it, and nothing else moves.
\<close>

lemma loop_record_frame [simp]:
  "next_id (loop_record batch current rows s) = next_id s"
  "running (loop_record batch current rows s) = running s"
  "members (loop_record batch current rows s) = current"
  "spec_of (seqs (loop_record batch current rows s) q) = spec_of (seqs s q)"
  "max_batch_size (loop_record batch current rows s) = max_batch_size s"
  "max_batch_tokens (loop_record batch current rows s) = max_batch_tokens s"
  by (simp_all add: loop_record_unfold)

lemma loop_record_waiting:
  "set batch \<inter> set (waiting s) = {} \<Longrightarrow> waiting (loop_record batch current rows s) = waiting s"
  using casualties_batch [of batch rows]
  by (simp add: loop_record_unfold fold_abort_waiting disjoint_iff subset_iff)

lemma loop_record_other:
  assumes "q \<notin> set batch"
  shows "output_ids (seqs (loop_record batch current rows s) q) = output_ids (seqs s q)"
    and "finish_reason (seqs (loop_record batch current rows s) q) = finish_reason (seqs s q)"
proof -
  have "q \<notin> fst ` set (survivors batch rows)" "q \<notin> set (casualties batch rows)"
    using assms survivors_batch [of batch rows] casualties_batch [of batch rows] by auto
  then show "output_ids (seqs (loop_record batch current rows s) q) = output_ids (seqs s q)"
    and "finish_reason (seqs (loop_record batch current rows s) q) = finish_reason (seqs s q)"
    by (simp_all add: loop_record_unfold post_rows_other fold_abort_reason)
qed

lemma loop_record_survivor:
  assumes "distinct batch" "(r, Some t) \<in> set (zip batch rows)"
  shows "output_ids (seqs (loop_record batch current rows s) r) = output_ids (seqs s r) @ [t]"
    and "finish_reason (seqs (loop_record batch current rows s) r) = verdict (seqs s r) t"
proof -
  let ?s = "fold (\<lambda>r. abort r ''error'') (casualties batch rows) s"
  have rt: "(r, t) \<in> set (survivors batch rows)" using assms(2) by (simp add: survivors_iff)
  with assms(1) have nc: "r \<notin> set (casualties batch rows)" by (rule survivor_not_casualty)
  then have "verdict (seqs ?s r) t = verdict (seqs s r) t"
    by (intro verdict_cong) (simp_all add: fold_abort_reason)
  with post_rows_row [OF survivors_distinct [OF assms(1)] rt, of ?s]
  show "output_ids (seqs (loop_record batch current rows s) r) = output_ids (seqs s r) @ [t]"
    and "finish_reason (seqs (loop_record batch current rows s) r) = verdict (seqs s r) t"
    by (simp_all add: loop_record_unfold)
qed

lemma loop_record_casualty:
  assumes "distinct batch" "(r, None) \<in> set (zip batch rows)"
  shows "output_ids (seqs (loop_record batch current rows s) r) = output_ids (seqs s r)"
    and "finish_reason (seqs (loop_record batch current rows s) r)
      = (if is_finished (seqs s r) then finish_reason (seqs s r) else ''error'')"
proof -
  have c: "r \<in> set (casualties batch rows)" using assms(2) by (simp add: casualties_iff)
  with assms(1) have "r \<notin> fst ` set (survivors batch rows)" by (rule casualty_not_survivor)
  with c show "output_ids (seqs (loop_record batch current rows s) r) = output_ids (seqs s r)"
    and "finish_reason (seqs (loop_record batch current rows s) r)
      = (if is_finished (seqs s r) then finish_reason (seqs s r) else ''error'')"
    by (simp_all add: loop_record_unfold post_rows_other fold_abort_reason)
qed

lemma channel_members [simp]:
  "channel q (s\<lparr>members := m\<rparr>) = channel q s" "channel q (s\<lparr>pc := p\<rparr>) = channel q s"
  "channel q (s\<lparr>rstate := c\<rparr>) = channel q s"
  by (simp_all add: channel_def)

lemma channel_loop_record_other:
  assumes "calls_ok s" "q \<notin> set batch"
  shows "channel q (loop_record batch current rows s) = channel q s"
proof -
  have "q \<notin> fst ` set (survivors batch rows)" "q \<notin> set (casualties batch rows)"
    using assms survivors_batch [of batch rows] casualties_batch [of batch rows] by auto
  moreover have "calls_ok (fold (\<lambda>r. abort r ''error'') rs s)" for rs
    using assms(1) by (induction rs arbitrary: s) auto
  ultimately show ?thesis
    using assms(1) by (simp add: loop_record_unfold channel_post_rows_other fold_abort_channel)
qed

lemma fold_abort_calls_ok [simp]: "calls_ok s \<Longrightarrow> calls_ok (fold (\<lambda>r. abort r reason) rs s)"
  by (induction rs arbitrary: s) auto

lemma channel_loop_record_survivor:
  assumes "calls_ok s" "distinct batch" "(r, Some t) \<in> set (zip batch rows)"
  shows "channel r (loop_record batch current rows s) =
    channel r s @ Some t # (if verdict (seqs s r) t \<noteq> '''' then [None] else [])"
proof -
  let ?s = "fold (\<lambda>r. abort r ''error'') (casualties batch rows) s"
  have rt: "(r, t) \<in> set (survivors batch rows)" using assms(3) by (simp add: survivors_iff)
  with assms(2) have nc: "r \<notin> set (casualties batch rows)" by (rule survivor_not_casualty)
  then have "verdict (seqs ?s r) t = verdict (seqs s r) t"
    by (intro verdict_cong) (simp_all add: fold_abort_reason)
  moreover have "channel r ?s = channel r s" using nc assms(1) by (simp add: fold_abort_channel)
  ultimately show ?thesis
    using channel_post_rows [OF _ survivors_distinct [OF assms(2)] rt, of ?s] assms(1)
    by (simp add: loop_record_unfold)
qed

lemma channel_loop_record_casualty:
  assumes "calls_ok s" "distinct batch" "(r, None) \<in> set (zip batch rows)"
  shows "channel r (loop_record batch current rows s) =
    channel r s @ (if is_finished (seqs s r) then [] else [None])"
proof -
  have c: "r \<in> set (casualties batch rows)" using assms(3) by (simp add: casualties_iff)
  with assms(2) have "r \<notin> fst ` set (survivors batch rows)" by (rule casualty_not_survivor)
  with c assms(1) show ?thesis
    by (simp add: loop_record_unfold channel_post_rows_other fold_abort_channel)
qed

section \<open>Every step of the loop keeps its invariant\<close>

lemma sched_inv_loop_record [inv_intros]:
  assumes "sched_inv s" "batch = running s" "\<forall>r \<in> set batch. open_seq (seqs s r)"
  shows "sched_inv (loop_record batch current rows s)"
proof -
  let ?s = "fold (\<lambda>r. abort r ''error'') (casualties batch rows) s"
  have dist: "distinct batch" and lt: "\<forall>r \<in> set batch. r < next_id s"
    using assms by (auto simp: sched_inv_def)
  have "sched_inv ?s"
    using assms(1) lt casualties_batch [of batch rows] by (intro fold_abort_sched_inv) auto
  moreover have "open_seq (seqs ?s r)" if "(r, t) \<in> set (survivors batch rows)" for r t
  proof -
    have "r \<notin> set (casualties batch rows)" using dist that by (rule survivor_not_casualty)
    then have "open_seq (seqs ?s r) = open_seq (seqs s r)"
      by (intro open_seq_cong) (simp_all add: fold_abort_reason)
    with that assms(3) show ?thesis by (auto simp: survivors_iff dest: set_zip_leftD)
  qed
  ultimately have "sched_inv (snd (post_rows (survivors batch rows) ?s))"
    using survivors_distinct [OF dist, of rows] survivors_batch [of batch rows] assms(2)
    by (intro sched_inv_post_rows) auto
  then show ?thesis by (simp add: loop_record_unfold)
qed

lemma none_lost_mono:
  assumes "none_lost s" "next_id t = next_id s" "running t = running s" "waiting t = waiting s"
    and "\<And>q. \<not> is_finished (seqs t q) \<Longrightarrow> \<not> is_finished (seqs s q)"
  shows "none_lost t"
  using assms by (auto simp: none_lost_def)

lemma loop_record_unfinished:
  assumes "distinct batch" "length rows = length batch"
    and "\<not> is_finished (seqs (loop_record batch current rows s) q)"
  shows "\<not> is_finished (seqs s q)"
proof (cases "q \<in> set batch")
  case False
  with assms(3) show ?thesis by (simp add: is_finished_def loop_record_other)
next
  case True
  then have "q \<in> set (map fst (zip batch rows))" using assms(2) by simp
  then obtain tok where tok: "(q, tok) \<in> set (zip batch rows)" by auto
  show ?thesis
  proof (cases tok)
    case None
    with tok loop_record_casualty(2) [OF assms(1), of q rows current s] assms(3) show ?thesis
      by (auto simp: is_finished_def split: if_splits)
  next
    case (Some t)
    with tok loop_record_survivor(2) [OF assms(1), of q t rows current s] assms(3) show ?thesis
      by (auto simp: is_finished_def verdict_def split: if_splits)
  qed
qed

lemma none_lost_loop_record:
  assumes "none_lost s" "sched_inv s" "batch = running s" "length rows = length batch"
  shows "none_lost (loop_record batch current rows s)"
proof (rule none_lost_mono [OF assms(1)])
  have "set batch \<inter> set (waiting s) = {}" "distinct batch"
    using assms(2,3) by (auto simp: sched_inv_def)
  then show "waiting (loop_record batch current rows s) = waiting s"
    and "\<not> is_finished (seqs (loop_record batch current rows s) q) \<Longrightarrow> \<not> is_finished (seqs s q)" for q
    using assms(4) by (auto simp: loop_record_waiting dest: loop_record_unfinished)
qed simp_all

lemma loop_inv_raise: "sched_inv s \<Longrightarrow> none_lost s \<Longrightarrow> loop_inv (loop_raise e s)"
  using fail_all_finishes [of s]
  by (auto simp: loop_raise_def loop_inv_def executing_ok_def sched_inv_fail_all none_lost_def)

lemma loop_inv_stop: "loop_inv s \<Longrightarrow> loop_inv (s\<lparr>pc := Stopped e\<rparr>)"
  by (simp add: loop_inv_def executing_ok_def)

lemma loop_inv_cancel: "loop_inv s \<Longrightarrow> loop_inv (loop_cancel s)"
  using loop_inv_raise [of s CancelledError] loop_inv_stop [of s CancelledError]
  by (cases "pc s") (simp_all add: loop_cancel_def loop_inv_def [of s])

lemma loop_inv_start: "sched_inv s \<Longrightarrow> none_lost s \<Longrightarrow> loop_inv (loop_start c s)"
  by (auto simp: loop_start_def loop_inv_def executing_ok_def sched_inv_def store_inv_def calls_ok_def
      none_lost_def)

text \<open>
  Resuming the coroutine, whatever the runner did: it gave one row per sequence, or it raised.
\<close>

definition rows_ok :: "'c runner \<Rightarrow> bool" where
  "rows_ok rn \<longleftrightarrow> (\<forall>h b c rows. fst (execute rn h b c) = Inr rows \<longrightarrow> length rows = length (fb_seqs b))"

lemma rows_okD: "rows_ok rn \<Longrightarrow> execute rn h b c = (Inr rows, c') \<Longrightarrow> length rows = length (fb_seqs b)"
  by (metis fst_conv rows_ok_def)

context row_runner
begin

lemma runner_rows_ok: "execute rn = exec \<Longrightarrow> rows_ok rn"
  by (simp add: rows_ok_def exec_rows)

end

lemma loop_inv_recorded:
  assumes inv: "loop_inv s" and pc: "pc s = Executing b current" and rn: "rows_ok rn"
    and ex: "execute rn (seqs s) b (rstate s) = (Inr rows, c)"
  shows "sched_inv (loop_record (fb_seqs b) current rows (s\<lparr>rstate := c\<rparr>))"
    and "none_lost (loop_record (fb_seqs b) current rows (s\<lparr>rstate := c\<rparr>))"
proof -
  have *: "sched_inv (s\<lparr>rstate := c\<rparr>)" "none_lost (s\<lparr>rstate := c\<rparr>)" "fb_seqs b = running s"
    "\<forall>r \<in> set (running s). open_seq (seqs s r)"
    using inv pc by (auto simp: loop_inv_def executing_ok_def)
  have len: "length rows = length (fb_seqs b)" using rn ex by (rule rows_okD)
  show "sched_inv (loop_record (fb_seqs b) current rows (s\<lparr>rstate := c\<rparr>))"
    using * by (intro sched_inv_loop_record) auto
  show "none_lost (loop_record (fb_seqs b) current rows (s\<lparr>rstate := c\<rparr>))"
    using * len by (intro none_lost_loop_record) auto
qed

text \<open>With at least one slot every resumption gets to the next await; the closed form:\<close>

definition loop_step ::
  "'c runner \<Rightarrow> ('c, 'z) run_loop_scheme \<Rightarrow> ('c, 'z) run_loop_scheme" where
  "loop_step rn s =
     (case pc s of
        Executing b current \<Rightarrow>
          (case execute rn (seqs s) b (rstate s) of
             (Inl e, c) \<Rightarrow> loop_raise e (s\<lparr>rstate := c\<rparr>)
           | (Inr rows, c) \<Rightarrow> loop_next rn (loop_record (fb_seqs b) current rows (s\<lparr>rstate := c\<rparr>)))
      | Stopped e \<Rightarrow> s
      | _ \<Rightarrow> loop_next rn s)"

lemma loop_resume_step: "1 \<le> max_batch_size s \<Longrightarrow> loop_resume rn s = Some (loop_step rn s)"
  by (simp add: loop_resume_def loop_step_def loop_head_next split: loop_pc.splits sum.splits prod.splits)

lemma loop_next_frame [simp]:
  "max_batch_size (loop_next rn s) = max_batch_size s"
  "max_batch_tokens (loop_next rn s) = max_batch_tokens s" "next_id (loop_next rn s) = next_id s"
  "seqs (loop_next rn s) = seqs s" "calls (loop_next rn s) = calls s"
  by (simp_all add: loop_next_def Let_def)

lemma loop_raise_frame [simp]:
  "max_batch_size (loop_raise e s) = max_batch_size s"
  "max_batch_tokens (loop_raise e s) = max_batch_tokens s" "next_id (loop_raise e s) = next_id s"
  by (simp_all add: loop_raise_def)

lemma loop_step_frame [simp]:
  "max_batch_size (loop_step rn s) = max_batch_size s"
  "max_batch_tokens (loop_step rn s) = max_batch_tokens s" "next_id (loop_step rn s) = next_id s"
  by (simp_all add: loop_step_def split: loop_pc.splits sum.splits prod.splits)

lemma loop_step_inv:
  assumes inv: "loop_inv s" and rn: "rows_ok rn"
  shows "loop_inv (loop_step rn s)"
proof (cases "pc s")
  case (Executing b current)
  obtain res c where ex: "execute rn (seqs s) b (rstate s) = (res, c)" by force
  have "loop_inv (loop_raise e (s\<lparr>rstate := c\<rparr>))" for e
    using inv by (intro loop_inv_raise) (simp_all add: loop_inv_def)
  moreover have "loop_inv (loop_next rn (loop_record (fb_seqs b) current rows (s\<lparr>rstate := c\<rparr>)))"
    if "res = Inr rows" for rows
    using loop_inv_recorded [OF inv Executing rn ex [unfolded that]] by (rule loop_inv_next)
  ultimately show ?thesis using Executing ex by (cases res) (simp_all add: loop_step_def)
qed (use inv loop_inv_next [of s rn] in \<open>simp_all add: loop_step_def loop_inv_def [of s]\<close>)

section \<open>Steps of the other coroutines\<close>

text \<open>
  What requests and the event loop do while the loop awaits: items move, a request arrives, a
  request is cancelled.  The invariant survives each, with a batch executing or not.
\<close>

lemma sched_inv_queues:
  assumes "sched_inv s" "next_id t = next_id s" "running t = running s" "waiting t = waiting s"
    and same: "\<And>q. output_ids (seqs t q) = output_ids (seqs s q)"
      "\<And>q. finish_reason (seqs t q) = finish_reason (seqs s q)" "\<And>q. spec_of (seqs t q) = spec_of (seqs s q)"
    and "set (calls t) \<subseteq> set (calls s)"
  shows "sched_inv t"
proof -
  have "seq_ok (seqs t q) = seq_ok (seqs s q)" "fresh_seq (seqs t q) = fresh_seq (seqs s q)"
    "open_seq (seqs t q) = open_seq (seqs s q)" "is_finished (seqs t q) = is_finished (seqs s q)"
    "seq_id (seqs t q) = seq_id (seqs s q)" "seq_loop (seqs t q) = seq_loop (seqs s q)" for q
    using spec_of_fields [OF same(3) [of q]]
    by (simp_all add: seq_ok_cong [OF same] fresh_seq_cong [OF same] open_seq_cong [OF same] is_finished_def same)
  moreover have "store_inv t"
    using assms(1,2,8) calculation by (auto simp: sched_inv_def store_inv_def calls_ok_def)
  ultimately show ?thesis using assms(1-4) by (simp add: sched_inv_def)
qed

lemma executing_ok_mono:
  assumes "executing_ok s" "pc t = pc s" "running t = running s"
    and "\<And>r. r \<in> set (running s) \<Longrightarrow> output_ids (seqs t r) = output_ids (seqs s r)"
      "\<And>r. r \<in> set (running s) \<Longrightarrow> spec_of (seqs t r) = spec_of (seqs s r)"
      "\<And>r. r \<in> set (running s) \<Longrightarrow>
        finish_reason (seqs t r) \<in> {finish_reason (seqs s r), ''cancelled''}"
  shows "executing_ok t"
proof -
  have "open_seq (seqs t r) \<and> finish_reason (seqs t r) \<in> {'''', ''cancelled''}"
    if "r \<in> set (running s)" "open_seq (seqs s r)" "finish_reason (seqs s r) \<in> {'''', ''cancelled''}" for r
    using that assms(4-6) [OF that(1)] spec_of_fields(2) [OF assms(5) [OF that(1)]]
    by (auto simp: open_seq_def)
  then show ?thesis using assms(1-3) by (auto simp: executing_ok_def split: loop_pc.splits)
qed

lemma loop_inv_queues:
  assumes "loop_inv s" "next_id t = next_id s" "running t = running s" "waiting t = waiting s" "pc t = pc s"
    and same: "\<And>q. output_ids (seqs t q) = output_ids (seqs s q)"
      "\<And>q. finish_reason (seqs t q) = finish_reason (seqs s q)" "\<And>q. spec_of (seqs t q) = spec_of (seqs s q)"
    and "set (calls t) \<subseteq> set (calls s)"
  shows "loop_inv t"
proof -
  have "sched_inv t"
    by (rule sched_inv_queues [of s]) (use assms in \<open>simp_all add: loop_inv_def\<close>)
  moreover have "none_lost t" using assms by (simp add: loop_inv_def none_lost_def is_finished_def)
  moreover have "executing_ok t"
    by (rule executing_ok_mono [of s]) (use assms in \<open>simp_all add: loop_inv_def\<close>)
  ultimately show ?thesis by (simp add: loop_inv_def)
qed

lemma deliver_loop [simp]:
  "running (deliver s) = running s" "waiting (deliver s) = waiting s"
  "max_batch_size (deliver s) = max_batch_size s" "max_batch_tokens (deliver s) = max_batch_tokens s"
  "pc (deliver t) = pc t" "members (deliver t) = members t" "rstate (deliver t) = rstate t"
  by (simp_all add: deliver_def put_nowait_def upd_seq_def split: list.splits prod.splits)

lemma loop_inv_deliver: "loop_inv s \<Longrightarrow> loop_inv (deliver s)"
proof (rule loop_inv_queues [of s])
  show "set (calls (deliver s)) \<subseteq> set (calls s)"
    by (auto simp: deliver_def split: list.splits)
qed simp_all

lemma queue_get_loop:
  assumes "queue_get r s = Some (t, s')"
  shows "running s' = running s" "waiting s' = waiting s" "max_batch_size s' = max_batch_size s"
    "max_batch_tokens s' = max_batch_tokens s" "pc s' = pc s" "members s' = members s"
    "rstate s' = rstate s"
  using assms by (auto simp: queue_get_def upd_seq_def split: list.splits)

lemma loop_inv_queue_get: "loop_inv s \<Longrightarrow> queue_get r s = Some (t, s') \<Longrightarrow> loop_inv s'"
  by (rule loop_inv_queues [of s]) (simp_all add: queue_get_Some queue_get_loop)

lemma abort_loop [simp]:
  "pc (abort r reason s) = pc s" "members (abort r reason s) = members s"
  "rstate (abort r reason s) = rstate s"
  by (simp_all add: abort_def Let_def emit_def put_nowait_def upd_seq_def set_reason_def split: option.splits)

lemma loop_inv_abort:
  assumes "loop_inv s" "r < next_id s"
  shows "loop_inv (abort r ''cancelled'' s)"
proof -
  have "none_lost (abort r ''cancelled'' s)"
    using assms by (auto simp: loop_inv_def none_lost_def is_finished_def abort_reason abort_waiting
        split: if_splits)
  moreover have "executing_ok (abort r ''cancelled'' s)"
    by (rule executing_ok_mono [of s]) (use assms in \<open>simp_all add: loop_inv_def abort_reason\<close>)
  ultimately show ?thesis using assms by (simp add: loop_inv_def sched_inv_abort)
qed

text \<open>A request arrives: the constructor and \<open>add\<close>, as one step.\<close>

definition arrive ::
  "int list \<Rightarrow> int \<Rightarrow> pyfloat \<Rightarrow> int option \<Rightarrow> int set \<Rightarrow> exn + nat \<Rightarrow> 'a scheduler_scheme
    \<Rightarrow> 'a scheduler_scheme" where
  "arrive p n temp k eos current s = (let (r, s1) = new_sequence p n temp k eos current s in add r s1)"

lemma arrive_frame:
  "next_id (arrive p n temp k eos current s) = Suc (next_id s)"
  "running (arrive p n temp k eos current s) = running s"
  "max_batch_size (arrive p n temp k eos current s) = max_batch_size s"
  "max_batch_tokens (arrive p n temp k eos current s) = max_batch_tokens s"
  "waiting (arrive p n temp k eos current s) = waiting s @ (if n \<le> 0 then [] else [next_id s])"
  by (simp_all add: arrive_def new_sequence_def add_def Let_def)

lemma arrive_loop:
  "pc (arrive p n temp k eos current s) = pc s" "members (arrive p n temp k eos current s) = members s"
  "rstate (arrive p n temp k eos current s) = rstate s"
  by (simp_all add: arrive_def new_sequence_def add_def Let_def emit_def put_nowait_def upd_seq_def
      set_reason_def split: option.splits)

lemma arrive_other:
  assumes "q \<noteq> next_id s"
  shows "output_ids (seqs (arrive p n temp k eos current s) q) = output_ids (seqs s q)"
    and "finish_reason (seqs (arrive p n temp k eos current s) q) = finish_reason (seqs s q)"
    and "spec_of (seqs (arrive p n temp k eos current s) q) = spec_of (seqs s q)"
  using assms by (simp_all add: arrive_def new_sequence_def add_def Let_def)

lemma arrive_new:
  "output_ids (seqs (arrive p n temp k eos current s) (next_id s)) = []"
  "finish_reason (seqs (arrive p n temp k eos current s) (next_id s)) = (if n \<le> 0 then ''length'' else '''')"
  "max_new_tokens (seqs (arrive p n temp k eos current s) (next_id s)) = n"
  "prompt_ids (seqs (arrive p n temp k eos current s) (next_id s)) = p"
  "eos_token_ids (seqs (arrive p n temp k eos current s) (next_id s)) = eos"
  by (simp_all add: arrive_def new_sequence_def add_def Let_def)

lemma sched_inv_arrive:
  assumes "sched_inv s"
  shows "sched_inv (arrive p n temp k eos current s)"
proof -
  obtain r s1 where new: "new_sequence p n temp k eos current s = (r, s1)" by force
  note facts = sched_inv_new_sequence [OF assms new]
  have "sched_inv (add r s1)" by (rule sched_inv_add) (use facts in simp_all)
  then show ?thesis by (simp add: arrive_def new)
qed

lemma channel_arrive:
  assumes "sched_inv s"
  shows "channel q (arrive p n temp k eos current s) =
    (if q = next_id s then (if n \<le> 0 then [None] else []) else channel q s)"
proof -
  obtain r s1 where new: "new_sequence p n temp k eos current s = (r, s1)" by force
  note facts = sched_inv_new_sequence [OF assms new]
  have "filter (\<lambda>c. fst c = next_id s) (calls s) = []"
    using assms by (force simp: sched_inv_def store_inv_def filter_empty_conv)
  then have ch: "channel q s1 = (if q = next_id s then [] else channel q s)" for q
    using new by (auto simp: channel_def new_sequence_def Let_def)
  have "calls_ok s1" using facts(1) by (simp add: sched_inv_def store_inv_def)
  moreover have "channel p (s1\<lparr>waiting := w\<rparr>) = channel p s1" for w p by (simp add: channel_def)
  ultimately show ?thesis
    using facts(2,7) by (simp add: arrive_def new add_def channel_emit ch)
qed

lemma loop_inv_arrive:
  assumes "loop_inv s"
  shows "loop_inv (arrive p n temp k eos current s)"
proof -
  let ?t = "arrive p n temp k eos current s"
  have inv: "sched_inv s" "none_lost s" "executing_ok s" using assms by (auto simp: loop_inv_def)
  have old: "r \<noteq> next_id s" if "r \<in> set (running s)" for r
    using inv(1) that by (auto simp: sched_inv_def)
  have "r \<in> set (running ?t @ waiting ?t)" if "r < next_id ?t" "\<not> is_finished (seqs ?t r)" for r
  proof (cases "r = next_id s")
    case True
    with that(2) have "\<not> n \<le> 0" by (simp add: is_finished_def arrive_new split: if_splits)
    with True show ?thesis by (simp add: arrive_frame)
  next
    case False
    with that inv(2) show ?thesis
      by (auto simp: none_lost_def arrive_frame arrive_other is_finished_def less_Suc_eq)
  qed
  then have "none_lost ?t" by (simp add: none_lost_def)
  moreover have "executing_ok ?t"
    by (rule executing_ok_mono [of s]) (use inv old in \<open>simp_all add: arrive_frame arrive_loop arrive_other\<close>)
  ultimately show ?thesis using inv by (simp add: loop_inv_def sched_inv_arrive)
qed

section \<open>What the loop does to the channels\<close>

lemma channel_schedule [simp]: "channel q (snd (schedule s)) = channel q s"
  by (simp add: channel_def)

lemma channel_loop_next [simp]: "channel q (loop_next rn s) = channel q s"
  by (simp add: channel_def)

lemma channel_loop_raise:
  "sched_inv s \<Longrightarrow> channel q (loop_raise e s)
    = channel q s @ (if q \<in> set (running s @ waiting s) then [None] else [])"
  by (simp add: loop_raise_def channel_fail_all)

lemma loop_raise_seqs:
  "output_ids (seqs (loop_raise e s) q) = output_ids (seqs s q)"
  "finish_reason (seqs (loop_raise e s) q) =
     (if q \<in> set (running s @ waiting s) \<and> \<not> is_finished (seqs s q) then ''error''
      else finish_reason (seqs s q))"
  "spec_of (seqs (loop_raise e s) q) = spec_of (seqs s q)"
  by (simp_all add: loop_raise_def fold_fail_reason del: fold_append set_append)

lemma loop_raise_sched [simp]:
  "running (loop_raise e s) = []" "waiting (loop_raise e s) = []" "pc (loop_raise e s) = Stopped e"
  by (simp_all add: loop_raise_def)

section \<open>Properties\<close>

text \<open>
  A concrete loop: the requests of \<open>submitted\<close> in front of a loop that has just been created,
  on the mock runner.
\<close>

definition loop_with :: "'c \<Rightarrow> int \<Rightarrow> int \<Rightarrow> (nat \<times> int) list \<Rightarrow> 'c run_loop" where
  "loop_with c bs bt reqs =
     (let s = submitted bs bt reqs in
      \<lparr>seqs = seqs s, next_id = next_id s, calls = calls s, waiting = waiting s, running = running s,
       max_batch_size = max_batch_size s, max_batch_tokens = max_batch_tokens s,
       members = [], pc = NotStarted, rstate = c\<rparr>)"

abbreviation loop_over :: "int \<Rightarrow> int \<Rightarrow> (nat \<times> int) list \<Rightarrow> unit run_loop" where
  "loop_over \<equiv> loop_with ()"

lemma loop_over_inv: "loop_inv (loop_with c bs bt reqs)"
  using submitted_inv [of bs bt reqs]
  by (simp add: loop_with_def Let_def loop_inv_def sched_inv_def store_inv_def calls_ok_def
      none_lost_def executing_ok_def)

lemmas loop_over_simps = loop_with_def submitted_def new_sequence_def add_def Let_def

text \<open>C40: when \<open>run_loop\<close> gives the event loop back.  From the head of its loop it reaches the
  next \<^verbatim>\<open>await\<close> unless the configured batch size admits nobody, a request waits and no request
  runs -- and then it never does: it spins without awaiting, and no other coroutine of the
  server runs again.\<close>

theorem loop_head_diverges_iff:
  "loop_head rn s = None \<longleftrightarrow>
     max_batch_size s \<le> 0 \<and> waiting s \<noteq> [] \<and> (\<forall>r \<in> set (running s). is_finished (seqs s r))"
  unfolding stuck_def [symmetric]
proof
  assume "stuck s"
  then show "loop_head rn s = None" using loop_head_stuck [of rn s] by (cases "loop_head rn s") auto
next
  assume none: "loop_head rn s = None"
  show "stuck s"
  proof (rule ccontr)
    assume ns: "\<not> stuck s"
    have mbs: "max_batch_size s \<le> 0"
      using none loop_head_next [of s rn] by (cases "1 \<le> max_batch_size s") simp_all
    have empty: "has_work s" "fst (schedule s) = []"
      using none by (subst (asm) loop_head.simps; auto simp: Let_def split: if_splits)+
    have "filter (\<lambda>r. \<not> is_finished (seqs s r)) (running s) = []"
      using empty(2) by (simp add: schedule_unfold Let_def)
    with mbs ns have "waiting s = []" by (simp add: stuck_def filter_empty_conv)
    with empty(2) have nw: "\<not> has_work (snd (schedule s))"
      by (simp add: schedule_unfold Let_def has_work_def)
    have "loop_head rn s \<noteq> None"
      using empty nw by (subst loop_head.simps) (simp add: Let_def, subst loop_head.simps, simp)
    with none show False by simp
  qed
qed

lemma loop_head_diverges_iff_witness:
  "loop_head mock_runner (loop_over 0 10 [(2, 3)]) = None \<and>
   loop_head mock_runner (loop_over 1 10 [(2, 3)]) \<noteq> None"
  using loop_head_diverges_iff [of mock_runner "loop_over 0 10 [(2, 3)]"]
    loop_head_diverges_iff [of mock_runner "loop_over 1 10 [(2, 3)]"]
  by (simp add: loop_over_simps)

text \<open>
  Two requests in flight: the concrete loop after its first step.
\<close>

definition two_in_flight :: "unit run_loop" where
  "two_in_flight = loop_step mock_runner (loop_over 2 100 [(2, 3), (4, 3)])"

lemma two_in_flight_facts:
  "loop_inv two_in_flight" "pc two_in_flight = Executing \<lparr>fb_seqs = [0, 1], is_prefill = True\<rparr> [0, 1]"
  "seqs two_in_flight = seqs (loop_over 2 100 [(2, 3), (4, 3)])" "running two_in_flight = [0, 1]"
  "waiting two_in_flight = []" "calls two_in_flight = []" "next_id two_in_flight = 2"
  "max_batch_size two_in_flight = 2" "max_batch_tokens two_in_flight = 100" "members two_in_flight = []"
proof -
  have "rows_ok (mock_runner :: unit runner)"
    by (rule mock.runner_rows_ok) (simp add: mock_runner_def)
  then show "loop_inv two_in_flight"
    unfolding two_in_flight_def by (rule loop_step_inv [OF loop_over_inv])
qed (simp_all add: two_in_flight_def loop_step_def loop_next_def schedule_def has_work_def
      loop_over_simps seq_len_def is_finished_def)

text \<open>C25: the blast radius of a failed row.  When a batch comes back, a row that failed costs its
  own request only: that one ends with ``error'' (unless its client had cancelled it), gets no
  token, and is woken; every other row of the same batch gets its token, and the verdict on it.\<close>

theorem tick_row_by_row:
  assumes "loop_inv s" "rows_ok rn" "pc s = Executing b current"
    and "execute rn (seqs s) b (rstate s) = (Inr rows, c)" "i < length (fb_seqs b)"
  defines "r \<equiv> fb_seqs b ! i" and "t \<equiv> loop_step rn s"
  shows "case rows ! i of
      None \<Rightarrow> output_ids (seqs t r) = output_ids (seqs s r) \<and>
        finish_reason (seqs t r) = (if is_finished (seqs s r) then finish_reason (seqs s r) else ''error'') \<and>
        channel r t = channel r s @ (if is_finished (seqs s r) then [] else [None])
    | Some tok \<Rightarrow> output_ids (seqs t r) = output_ids (seqs s r) @ [tok] \<and>
        finish_reason (seqs t r) = verdict (seqs s r) tok \<and>
        channel r t = channel r s @ Some tok # (if is_finished (seqs t r) then [None] else [])"
proof -
  have len: "length rows = length (fb_seqs b)" using assms(2,4) by (rule rows_okD)
  then have row: "(r, rows ! i) \<in> set (zip (fb_seqs b) rows)"
    using assms(5) by (auto simp: r_def in_set_zip)
  have dist: "distinct (fb_seqs b)" and calls: "calls_ok s"
    using assms(1,3) by (auto simp: loop_inv_def executing_ok_def sched_inv_def store_inv_def)
  have calls': "calls_ok (s\<lparr>rstate := c\<rparr>)" using calls by (simp add: calls_ok_def)
  have t: "t = loop_next rn (loop_record (fb_seqs b) current rows (s\<lparr>rstate := c\<rparr>))"
    using assms(3,4) by (simp add: t_def loop_step_def)
  show ?thesis
  proof (cases "rows ! i")
    case None
    with row dist calls' show ?thesis
      by (simp add: t loop_record_casualty channel_loop_record_casualty)
  next
    case (Some tok)
    with row dist calls' show ?thesis
      by (simp add: t loop_record_survivor channel_loop_record_survivor is_finished_def)
  qed
qed

lemma decode_rows:
  assumes "loop_inv s" "rows_ok rn" "pc s = Executing b current"
    and "pc (loop_step rn s) = Executing b' current'" "\<not> is_prefill b'"
  shows "fb_seqs b' = fb_seqs b \<and>
    (\<exists>tokens. length tokens = length (fb_seqs b) \<and>
       map (\<lambda>r. token_ids (seqs (loop_step rn s) r)) (fb_seqs b') =
       map (\<lambda>(r, tok). token_ids (seqs s r) @ [tok]) (zip (fb_seqs b) tokens))"
proof -
  have run: "fb_seqs b = running s" "current = running s"
    using assms(1,3) by (auto simp: loop_inv_def executing_ok_def)
  obtain rows c where ex: "execute rn (seqs s) b (rstate s) = (Inr rows, c)"
    using assms(3,4) by (cases "execute rn (seqs s) b (rstate s)"; cases "fst (execute rn (seqs s) b (rstate s))")
      (auto simp: loop_step_def)
  let ?u = "loop_record (fb_seqs b) current rows (s\<lparr>rstate := c\<rparr>)"
  have t: "loop_step rn s = loop_next rn ?u" using assms(3) ex by (simp add: loop_step_def)
  have "loop_inv (loop_step rn s)" using assms(1,2) by (rule loop_step_inv)
  then have "current' = fb_seqs b'"
    using assms(4) by (auto simp: loop_inv_def executing_ok_def)
  moreover have "current' = current" "fb_seqs b' = fst (schedule ?u)"
    using assms(4,5) unfolding t by (auto simp: loop_next_def Let_def split: if_splits)
  ultimately have same: "fb_seqs b' = fb_seqs b" and sch: "fst (schedule ?u) = fb_seqs b"
    using run by auto
  have len: "length rows = length (fb_seqs b)" using assms(2) ex by (rule rows_okD)
  have dist: "distinct (fb_seqs b)" and si: "sched_inv ?u"
    using assms(1,3) run loop_inv_recorded(1) [OF assms(1,3,2) ex]
    by (auto simp: loop_inv_def sched_inv_def)
  have row: "token_ids (seqs (loop_step rn s) (fb_seqs b ! i)) =
      token_ids (seqs s (fb_seqs b ! i)) @ [the (rows ! i)]" if i: "i < length (fb_seqs b)" for i
  proof -
    let ?r = "fb_seqs b ! i"
    have "(?r, rows ! i) \<in> set (zip (fb_seqs b) rows)" using i len by (auto simp: in_set_zip)
    moreover have "\<not> is_finished (seqs ?u ?r)"
      using schedule_unfinished [OF si] i sch by simp
    ultimately obtain tok where tok: "rows ! i = Some tok" "(?r, Some tok) \<in> set (zip (fb_seqs b) rows)"
      using loop_record_casualty(2) [OF dist, of ?r rows current "s\<lparr>rstate := c\<rparr>"]
      by (cases "rows ! i") (auto simp: is_finished_def split: if_splits)
    have "prompt_ids (seqs ?u ?r) = prompt_ids (seqs s ?r)"
      by (rule spec_of_fields) simp
    with tok(1) loop_record_survivor(1) [OF dist tok(2), of current "s\<lparr>rstate := c\<rparr>"] show ?thesis
      by (simp add: t token_ids_def)
  qed
  have "length (map the rows) = length (fb_seqs b)" by (simp add: len)
  moreover have "map (\<lambda>r. token_ids (seqs (loop_step rn s) r)) (fb_seqs b') =
      map (\<lambda>(r, tok). token_ids (seqs s r) @ [tok]) (zip (fb_seqs b) (map the rows))"
    by (rule nth_equalityI) (use row len in \<open>auto simp: same\<close>)
  ultimately show ?thesis using same by blast
qed

text \<open>C26: the cache is only reused for the rows it describes.  If the batch the loop starts next is
  handed down as a decode step, it is the batch just recorded, row for row, and each of its
  sequences has exactly one token more than when that batch was executed.\<close>

theorem decode_step_same_rows:
  assumes "loop_inv s" "rows_ok rn" "pc s = Executing b current"
    and "pc (loop_step rn s) = Executing b' current'" "\<not> is_prefill b'"
  shows "fb_seqs b' = fb_seqs b \<and>
    (\<exists>tokens. length tokens = length (fb_seqs b) \<and>
       map (\<lambda>r. token_ids (seqs (loop_step rn s) r)) (fb_seqs b') =
       map (\<lambda>(r, tok). token_ids (seqs s r) @ [tok]) (zip (fb_seqs b) tokens))"
  using assms by (rule decode_rows)

text \<open>A runner whose rows fail for the sequences of a given set.\<close>

definition failing_rows :: "nat set \<Rightarrow> 'c runner" where
  "failing_rows bad = mock_runner\<lparr>execute := \<lambda>h b c. (Inr (map (\<lambda>r. if r \<in> bad then None else Some 5) (fb_seqs b)), c)\<rparr>"

lemma failing_rows_ok: "rows_ok (failing_rows bad)"
  by (auto simp: rows_ok_def failing_rows_def)

lemma tick_row_by_row_witness:
  "finish_reason (seqs (loop_step (failing_rows {0}) two_in_flight) 0) = ''error'' \<and>
   output_ids (seqs (loop_step (failing_rows {0}) two_in_flight) 1) = [5]"
  using tick_row_by_row [OF two_in_flight_facts(1) failing_rows_ok two_in_flight_facts(2), of "{0}" "[None, Some 5]" "()" 0]
    tick_row_by_row [OF two_in_flight_facts(1) failing_rows_ok two_in_flight_facts(2), of "{0}" "[None, Some 5]" "()" 1]
  by (simp add: failing_rows_def two_in_flight_facts(3) loop_over_simps is_finished_def)

lemma decode_step_same_rows_witness:
  "\<exists>b. pc (loop_step mock_runner two_in_flight) = Executing b [0, 1] \<and> fb_seqs b = [0, 1] \<and> \<not> is_prefill b"
proof -
  have rn: "rows_ok (mock_runner :: unit runner)"
    by (rule mock.runner_rows_ok) (simp add: mock_runner_def)
  let ?u = "loop_record [0, 1] [0, 1] [Some 0, Some 0] (two_in_flight\<lparr>rstate := ()\<rparr>)"
  have "finish_reason (seqs ?u 0) = ''''" "finish_reason (seqs ?u 1) = ''''"
    using loop_record_survivor(2) [of "[0, 1]" 0 0 "[Some 0, Some 0]" "[0, 1]" "two_in_flight\<lparr>rstate := ()\<rparr>"]
      loop_record_survivor(2) [of "[0, 1]" 1 0 "[Some 0, Some 0]" "[0, 1]" "two_in_flight\<lparr>rstate := ()\<rparr>"]
    by (simp_all add: verdict_def two_in_flight_facts(3) loop_over_simps)
  moreover have "seq_id (seqs ?u 0) = 0" "seq_id (seqs ?u 1) = 1"
    using spec_of_fields(6) [of "seqs ?u 0" "seqs two_in_flight 0"]
      spec_of_fields(6) [of "seqs ?u 1" "seqs two_in_flight 1"]
    by (simp_all add: two_in_flight_facts(3) loop_over_simps)
  ultimately have pc: "pc (loop_step mock_runner two_in_flight)
      = Executing \<lparr>fb_seqs = [0, 1], is_prefill = False\<rparr> [0, 1]"
    by (simp add: loop_step_def two_in_flight_facts mock_runner_def mock_execute_def loop_next_def
        schedule_def has_work_def loop_record_waiting is_finished_def numeral_2_eq_2 Let_def)
  show ?thesis
    using decode_step_same_rows [OF two_in_flight_facts(1) rn two_in_flight_facts(2) pc]
    by (simp add: pc)
qed

section \<open>Draining\<close>

text \<open>
  Resuming the loop \<open>n\<close> times, with nothing else happening in between, and a bound on how often
  it takes until all that was accepted is done: one more than the tokens an unfinished request
  may still get, and one for a finished one that holds its slot until the next sweep.
\<close>

primrec loop_runs :: "nat \<Rightarrow> 'c runner \<Rightarrow> ('c, 'z) run_loop_scheme \<Rightarrow> ('c, 'z) run_loop_scheme option" where
  "loop_runs 0 rn s = Some s"
| "loop_runs (Suc n) rn s = Option.bind (loop_resume rn s) (loop_runs n rn)"

definition work_left :: "sequence \<Rightarrow> nat" where
  "work_left q = (if is_finished q then 1 else Suc (nat (max_new_tokens q - int (length (output_ids q)))))"

definition loop_work :: "'a scheduler_scheme \<Rightarrow> nat" where
  "loop_work s = (\<Sum>r \<leftarrow> running s @ waiting s. work_left (seqs s r))"

text \<open>The runner raises \<open>e\<close> on a batch the loop hands it in one of the next \<open>n\<close> resumptions.\<close>

primrec raises_within :: "nat \<Rightarrow> 'c runner \<Rightarrow> ('c, 'z) run_loop_scheme \<Rightarrow> exn \<Rightarrow> bool" where
  "raises_within 0 rn s e = False"
| "raises_within (Suc n) rn s e =
     (case pc s of
        Executing b current \<Rightarrow>
          (case fst (execute rn (seqs s) b (rstate s)) of
             Inl e' \<Rightarrow> e' = e
           | Inr rows \<Rightarrow> raises_within n rn (loop_step rn s) e)
      | Stopped e' \<Rightarrow> False
      | _ \<Rightarrow> raises_within n rn (loop_step rn s) e)"

lemma sum_list_filter_le:
  fixes f :: "'a \<Rightarrow> nat"
  shows "(\<Sum>x \<leftarrow> filter P xs. f x) \<le> (\<Sum>x \<leftarrow> xs. f x)"
  by (induction xs) auto

lemma sum_list_filter_less:
  fixes f g :: "'a \<Rightarrow> nat"
  assumes "xs \<noteq> []" "\<And>x. x \<in> set xs \<Longrightarrow> (if P x then g x else 0) < f x"
  shows "(\<Sum>x \<leftarrow> filter P xs. g x) < (\<Sum>x \<leftarrow> xs. f x)"
  using assms
proof (induction xs rule: list_nonempty_induct)
  case (cons x xs)
  have "(if P x then g x else 0) < f x" "(\<Sum>y \<leftarrow> filter P xs. g y) < (\<Sum>y \<leftarrow> xs. f y)"
    using cons by auto
  then show ?case by (cases "P x") simp_all
qed (auto split: if_splits)

lemma loop_work_next:
  "loop_work (loop_next rn s) =
     (\<Sum>r \<leftarrow> filter (\<lambda>r. \<not> is_finished (seqs s r)) (running s) @ waiting s. work_left (seqs s r))"
proof (cases "has_work s")
  case True
  let ?live = "filter (\<lambda>r. \<not> is_finished (seqs s r)) (running s)"
  have "fst (schedule s) @ waiting (snd (schedule s)) = ?live @ waiting s"
    by (simp add: schedule_unfold Let_def)
  moreover have "loop_work (loop_next rn s) =
      (\<Sum>r \<leftarrow> fst (schedule s) @ waiting (snd (schedule s)). work_left (seqs s r))"
    using True by (simp add: loop_next_def loop_work_def Let_def)
  ultimately show ?thesis by presburger
qed (simp add: loop_next_def loop_work_def has_work_def)

lemma loop_work_next_le: "loop_work (loop_next rn s) \<le> loop_work s"
  using sum_list_filter_le [of "\<lambda>r. work_left (seqs s r)" "\<lambda>r. \<not> is_finished (seqs s r)" "running s"]
  unfolding loop_work_next by (simp add: loop_work_def)

lemma work_left_row:
  assumes "open_seq q" "spec_of q' = spec_of q" "\<not> is_finished q'"
    and "output_ids q' = output_ids q @ [t]" "is_finished q \<Longrightarrow> is_finished q'"
  shows "work_left q' < work_left q"
  using assms spec_of_fields(2) [OF assms(2)]
  by (auto simp: work_left_def open_seq_def nat_diff_distrib' split: if_splits)

lemma loop_work_record:
  assumes inv: "loop_inv s" and pc: "pc s = Executing b current" and rn: "rows_ok rn"
    and ex: "execute rn (seqs s) b (rstate s) = (Inr rows, c)"
  shows "loop_work (loop_next rn (loop_record (fb_seqs b) current rows (s\<lparr>rstate := c\<rparr>))) < loop_work s"
proof -
  let ?u = "loop_record (fb_seqs b) current rows (s\<lparr>rstate := c\<rparr>)"
  have b: "fb_seqs b = running s" "running s \<noteq> []" "\<forall>r \<in> set (running s). open_seq (seqs s r)"
    and dist: "distinct (running s)" "set (running s) \<inter> set (waiting s) = {}"
    using inv pc by (auto simp: loop_inv_def executing_ok_def sched_inv_def)
  have len: "length rows = length (running s)" using rows_okD [OF rn ex] b by simp
  have less: "(if \<not> is_finished (seqs ?u r) then work_left (seqs ?u r) else 0) < work_left (seqs s r)"
    if r: "r \<in> set (running s)" for r
  proof (cases "is_finished (seqs ?u r)")
    case True
    then show ?thesis by (simp add: work_left_def)
  next
    case False
    have "r \<in> set (map fst (zip (running s) rows))" using r len by simp
    then obtain tok where tok: "(r, tok) \<in> set (zip (running s) rows)" by auto
    have "tok \<noteq> None"
      using False tok loop_record_casualty(2) [OF dist(1), of r rows current "s\<lparr>rstate := c\<rparr>"]
      by (cases tok) (auto simp: is_finished_def b(1) split: if_splits)
    then obtain t where "(r, Some t) \<in> set (zip (running s) rows)" using tok by auto
    from loop_record_survivor(1) [OF dist(1) this, of current "s\<lparr>rstate := c\<rparr>"]
    have "work_left (seqs ?u r) < work_left (seqs s r)"
      using b r False loop_record_unfinished [of "running s" rows current "s\<lparr>rstate := c\<rparr>" r] dist(1) len
      by (intro work_left_row) auto
    with False show ?thesis by simp
  qed
  have w: "waiting ?u = waiting s" using b dist by (simp add: loop_record_waiting)
  have "(\<Sum>r \<leftarrow> filter (\<lambda>r. \<not> is_finished (seqs ?u r)) (running s). work_left (seqs ?u r))
      < (\<Sum>r \<leftarrow> running s. work_left (seqs s r))"
    using b(2) less by (rule sum_list_filter_less)
  moreover have "work_left (seqs ?u r) = work_left (seqs s r)" if "r \<in> set (waiting s)" for r
  proof -
    have "r \<notin> set (fb_seqs b)" using that b dist by auto
    then show ?thesis
      using spec_of_fields(2) [of "seqs ?u r" "seqs s r"]
      by (simp add: work_left_def is_finished_def loop_record_other)
  qed
  then have "(\<Sum>r \<leftarrow> waiting s. work_left (seqs ?u r)) = (\<Sum>r \<leftarrow> waiting s. work_left (seqs s r))"
    by (intro arg_cong [where f = sum_list] map_cong) simp_all
  ultimately show ?thesis unfolding loop_work_next by (simp add: w loop_work_def)
qed

lemma loop_next_pc_cases:
  assumes "1 \<le> max_batch_size u"
  shows "(\<exists>b current. pc (loop_next rn u) = Executing b current) \<or>
    pc (loop_next rn u) = Sleeping \<and> \<not> has_work (loop_next rn u)"
  using empty_schedule_no_work [OF assms] by (auto simp: loop_next_def Let_def has_work_def)

lemma loop_step_executing:
  assumes "pc s = Executing b current"
  shows "execute rn (seqs s) b (rstate s) = (Inl e, c) \<Longrightarrow> loop_step rn s = loop_raise e (s\<lparr>rstate := c\<rparr>)"
    and "execute rn (seqs s) b (rstate s) = (Inr rows, c) \<Longrightarrow>
      loop_step rn s = loop_next rn (loop_record (fb_seqs b) current rows (s\<lparr>rstate := c\<rparr>))"
  using assms by (simp_all add: loop_step_def)

lemma loop_step_pc:
  assumes "pc s = Executing b current" "execute rn (seqs s) b (rstate s) = (Inr rows, c)" "1 \<le> max_batch_size s"
  shows "(\<exists>b current. pc (loop_step rn s) = Executing b current) \<or>
    pc (loop_step rn s) = Sleeping \<and> \<not> has_work (loop_step rn s)"
  unfolding loop_step_executing(2) [OF assms(1,2)]
  by (rule loop_next_pc_cases) (simp add: assms(3))

lemma loop_runs_stopped: "pc s = Stopped e \<Longrightarrow> loop_runs n rn s = Some s"
  by (induction n) (simp_all add: loop_resume_def)

lemma loop_step_idle:
  "pc s = Sleeping \<Longrightarrow> \<not> has_work s \<Longrightarrow> loop_step rn s = s\<lparr>pc := Sleeping\<rparr>"
  by (simp add: loop_step_def loop_next_def)

lemma has_work_pc [simp]: "has_work (s\<lparr>pc := p\<rparr>) = has_work s"
  by (simp add: has_work_def)

text \<open>
  Where \<open>n\<close> resumptions leave a loop: asleep with nothing left to do, or stopped by the exception of a
  tick -- and then \<^verbatim>\<open>fail_all\<close> has emptied both deques.
\<close>

definition at_rest :: "nat \<Rightarrow> 'c runner \<Rightarrow> ('c, 'z) run_loop_scheme \<Rightarrow> ('c, 'z) run_loop_scheme \<Rightarrow> bool" where
  "at_rest n rn s t \<longleftrightarrow>
     running t = [] \<and> waiting t = [] \<and>
     (case pc t of Sleeping \<Rightarrow> True | Stopped e \<Rightarrow> raises_within n rn s e | _ \<Rightarrow> False)"

definition settles :: "nat \<Rightarrow> ('c, 'z) run_loop_scheme \<Rightarrow> bool" where
  "settles n s \<longleftrightarrow>
     (case pc s of Executing b current \<Rightarrow> loop_work s \<le> n | Sleeping \<Rightarrow> \<not> has_work s | _ \<Rightarrow> False)"

lemma settles_step:
  assumes "loop_inv s" "1 \<le> max_batch_size s" "rows_ok rn"
    and "pc s = Executing b current" "execute rn (seqs s) b (rstate s) = (Inr rows, c)" "loop_work s \<le> Suc n"
  shows "settles n (loop_step rn s)"
proof -
  have "loop_work (loop_step rn s) < loop_work s"
    using loop_work_record [OF assms(1,4,3,5)] by (simp add: loop_step_executing(2) [OF assms(4,5)])
  then show ?thesis using loop_step_pc [OF assms(4,5,2)] assms(6) by (auto simp: settles_def)
qed

lemma at_rest_raise:
  assumes "pc s = Executing b current" "execute rn (seqs s) b (rstate s) = (Inl e, c)"
  shows "at_rest (Suc n) rn s (loop_step rn s)"
  using assms by (simp add: at_rest_def loop_step_executing(1) [OF assms])

lemma at_rest_Suc:
  assumes "at_rest n rn (loop_step rn s) t"
    and "\<And>b current. pc s = Executing b current \<Longrightarrow> \<exists>rows. fst (execute rn (seqs s) b (rstate s)) = Inr rows"
    and "\<nexists>e. pc s = Stopped e"
  shows "at_rest (Suc n) rn s t"
  using assms by (cases "pc s") (auto simp: at_rest_def split: loop_pc.splits)

lemma loop_drains_from:
  assumes "loop_inv s" "1 \<le> max_batch_size s" "rows_ok rn" "settles n s"
  shows "\<exists>t. loop_runs n rn s = Some t \<and> loop_inv t \<and> next_id t = next_id s \<and> at_rest n rn s t"
  using assms(1,2,4)
proof (induction n arbitrary: s)
  case 0
  have "loop_work s \<noteq> 0" if "pc s = Executing b current" for b current
  proof -
    have "running s \<noteq> []" using 0(1) that by (auto simp: loop_inv_def executing_ok_def)
    then show ?thesis by (cases "running s") (auto simp: loop_work_def work_left_def)
  qed
  with 0 show ?case by (auto simp: settles_def at_rest_def has_work_def split: loop_pc.splits)
next
  case (Suc n)
  let ?t = "loop_step rn s"
  have inv: "loop_inv ?t" using Suc.prems(1) assms(3) by (rule loop_step_inv)
  have unroll: "loop_runs (Suc n) rn s = loop_runs n rn ?t" using Suc.prems(2) by (simp add: loop_resume_step)
  show ?case
  proof (cases "pc s")
    case (Executing b current)
    obtain res c where ex: "execute rn (seqs s) b (rstate s) = (res, c)" by force
    show ?thesis
    proof (cases res)
      case (Inl e)
      have "pc ?t = Stopped e" using loop_step_executing(1) [OF Executing ex [unfolded Inl]] by simp
      then have "loop_runs n rn ?t = Some ?t" by (rule loop_runs_stopped)
      with unroll inv at_rest_raise [OF Executing ex [unfolded Inl], of n] show ?thesis by simp
    next
      case (Inr rows)
      have "loop_work s \<le> Suc n" using Suc.prems(3) Executing by (simp add: settles_def)
      then have "settles n ?t"
        by (rule settles_step [OF Suc.prems(1,2) assms(3) Executing ex [unfolded Inr]])
      from Suc.IH [OF inv _ this] Suc.prems(2) obtain t where
        t: "loop_runs n rn ?t = Some t" "loop_inv t" "next_id t = next_id s" "at_rest n rn ?t t" by auto
      have "at_rest (Suc n) rn s t" using t(4) by (rule at_rest_Suc) (simp_all add: Executing ex Inr)
      with t unroll show ?thesis by simp
    qed
  next
    case Sleeping
    then have idle: "\<not> has_work s" using Suc.prems(3) by (simp add: settles_def)
    have "settles n ?t" using Sleeping idle by (simp add: settles_def loop_step_idle)
    from Suc.IH [OF inv _ this] Suc.prems(2) obtain t where
      t: "loop_runs n rn ?t = Some t" "loop_inv t" "next_id t = next_id s" "at_rest n rn ?t t" by auto
    have "at_rest (Suc n) rn s t" using t(4) by (rule at_rest_Suc) (simp_all add: Sleeping)
    with t unroll show ?thesis by simp
  qed (use Suc.prems(3) in \<open>simp_all add: settles_def\<close>)
qed

lemma loop_drains_lemma:
  assumes "loop_inv s" "1 \<le> max_batch_size s" "rows_ok rn" "\<nexists>e. pc s = Stopped e" "loop_work s < n"
  shows "\<exists>t. loop_runs n rn s = Some t \<and> next_id t = next_id s \<and> at_rest n rn s t \<and>
    {..< next_id s} \<subseteq> {r. is_finished (seqs t r)}"
proof -
  obtain m where n: "n = Suc m" "loop_work s \<le> m" using assms(5) by (cases n) auto
  have "\<exists>t. loop_runs n rn s = Some t \<and> loop_inv t \<and> next_id t = next_id s \<and> at_rest n rn s t"
  proof (cases "\<exists>b current. pc s = Executing b current")
    case True
    then have "settles n s" using assms(5) by (auto simp: settles_def)
    then show ?thesis by (rule loop_drains_from [OF assms(1-3)])
  next
    case False
    let ?u = "loop_step rn s"
    have u: "?u = loop_next rn s" using False assms(4) by (cases "pc s") (auto simp: loop_step_def)
    then have "settles m ?u"
      using loop_next_pc_cases [OF assms(2), of rn] loop_work_next_le [of rn s] n(2) by (auto simp: settles_def)
    from loop_drains_from [OF loop_step_inv [OF assms(1,3)] _ assms(3) this] assms(2)
    obtain t where t: "loop_runs m rn ?u = Some t" "loop_inv t" "next_id t = next_id s" "at_rest m rn ?u t"
      by auto
    have "at_rest n rn s t" unfolding n(1) using t(4) by (rule at_rest_Suc) (use False assms(4) in auto)
    then show ?thesis using t n assms(2) by (auto simp: loop_resume_step)
  qed
  then obtain t where t: "loop_runs n rn s = Some t" "loop_inv t" "next_id t = next_id s" "at_rest n rn s t"
    by blast
  moreover have "{..< next_id s} \<subseteq> {r. is_finished (seqs t r)}"
    using t by (auto simp: loop_inv_def none_lost_def at_rest_def)
  ultimately show ?thesis by blast
qed

text \<open>C14: the loop drains, or dies answering.  Whatever its runner does, a loop that is alive is done
  with everything it had after finitely many resumptions: both deques are empty, every accepted
  request has a finish reason, and the loop is back at its idle sleep, unless the runner raised on a
  batch it was handed in one of these resumptions: then it has stopped with that exception.  The number of
  resumptions is bounded by the tokens the requests may still get, plus one per request and one to begin.
  Of the runner only that it gives one row per sequence when it does not raise is assumed, which
  both runners of the code are shown to do; the loop's invariant holds, and the batch size is at least 1.\<close>

theorem loop_drains:
  assumes "loop_inv s" "1 \<le> max_batch_size s" "rows_ok rn" "\<nexists>e. pc s = Stopped e" "loop_work s < n"
  shows "\<exists>t. loop_runs n rn s = Some t \<and> running t = [] \<and> waiting t = [] \<and>
    {..< next_id s} \<subseteq> {r. is_finished (seqs t r)} \<and>
    (case pc t of Sleeping \<Rightarrow> True | Stopped e \<Rightarrow> raises_within n rn s e | _ \<Rightarrow> False)"
  using loop_drains_lemma [OF assms] by (auto simp: at_rest_def)

text \<open>
  The production runner on a device that runs out of memory as soon as a batch is wider than five
  columns.
\<close>

definition narrow_forward :: "(int, unit) forward" where
  "narrow_forward cached ids att pos =
     (if width_of att \<le> 5 then Inr (map (map (\<lambda>_. [0, 1])) ids, ()) else Inl OutOfMemoryError)"

definition ascii_tokenizer :: tokenizer where
  "ascii_tokenizer = \<lparr>apply_chat_template = (\<lambda>ms _ _ _. concat (map snd ms)), tokenize = map int,
     tok_decode = (\<lambda>ids _. map nat ids), pad_token_id = Some 0, tok_eos_token_id = Some (EosId 1)\<rparr>"

definition narrow_runner :: "(unit, unit) qwen_state runner" where
  "narrow_runner = qwen_runner ascii_tokenizer None narrow_forward int_torch False"

lemma narrow_runner_rows_ok: "rows_ok narrow_runner"
  by (rule qwen.runner_rows_ok) (simp add: narrow_runner_def qwen_runner_def)

lemma loop_drains_witness:
  "\<exists>t. loop_runs 15 narrow_runner (loop_with \<lparr>cache = None, rng = ()\<rparr> 1 4 [(2, 3), (4, 3), (50, 0)]) = Some t \<and>
     running t = [] \<and> waiting t = [] \<and> {..< 3} \<subseteq> {r. is_finished (seqs t r)} \<and>
     (case pc t of Sleeping \<Rightarrow> True
      | Stopped e \<Rightarrow> raises_within 15 narrow_runner (loop_with \<lparr>cache = None, rng = ()\<rparr> 1 4 [(2, 3), (4, 3), (50, 0)]) e
      | _ \<Rightarrow> False)"
proof -
  let ?s = "loop_with \<lparr>cache = None, rng = ()\<rparr> 1 4 [(2, 3), (4, 3), (50, 0)] :: (unit, unit) qwen_state run_loop"
  have "loop_work ?s = 8"
    by (simp add: loop_work_def loop_over_simps work_left_def is_finished_def)
  moreover have "max_batch_size ?s = 1" "next_id ?s = 3" "pc ?s = NotStarted"
    by (simp_all add: loop_over_simps)
  ultimately show ?thesis
    using loop_drains [OF loop_over_inv, of "\<lparr>cache = None, rng = ()\<rparr>" 1 4 "[(2, 3), (4, 3), (50, 0)]" narrow_runner 15]
    by (simp add: narrow_runner_rows_ok)
qed

end
