(* ===== verification/Engine.thy ===== *)
theory Engine
  imports Run_Loop
begin

text \<open>
  \<^verbatim>\<open>src/model_server/engines.py\<close>: \<^verbatim>\<open>BatchingEngine\<close>, one request's view of the shared loop.
  \<open>generate\<close> and \<open>stream\<close> are coroutines that await their own queue; the model keeps, per
  request, where the coroutine stands and what it has handed to its caller.  A request is
  named by its sequence's reference.
\<close>

section \<open>State\<close>

record completion =
  comp_text :: ustring
  prompt_tokens :: nat
  completion_tokens :: nat
  comp_reason :: string

record stream_chunk =
  chunk_text :: ustring
  chunk_reason :: "string option"

datatype outcome = Pending | Returned completion | Ended | Disconnected

text \<open>
  \<open>sent\<close> is the local variable of \<open>stream\<close>, \<open>chunks\<close> what it has yielded.  \<open>got\<close> is a history
  variable: the queue items the coroutine has read so far, which the code drops.
\<close>

record client =
  streaming :: bool
  sent :: nat
  chunks :: "stream_chunk list"
  got :: "int option list"
  outcome :: outcome

record 'c engine = "'c run_loop" +
  engine_runner :: "'c runner"
  clients :: "nat \<Rightarrow> client option"

section \<open>Operations\<close>

definition stats :: "'a scheduler_scheme \<Rightarrow> nat \<times> nat" where
  "stats s = (num_running s, num_waiting s)"

definition submit ::
  "ustring \<Rightarrow> int \<Rightarrow> pyfloat \<Rightarrow> int option \<Rightarrow> exn + nat \<Rightarrow> ('c, 'z) engine_scheme
    \<Rightarrow> nat \<times> ('c, 'z) engine_scheme" where
  "submit prompt max_tokens temp k current s =
     (let (r, s1) = prompt_to_sequence (engine_runner s) prompt max_tokens temp k current s
      in (r, add r s1))"

definition cancel :: "nat \<Rightarrow> 'a scheduler_scheme \<Rightarrow> 'a scheduler_scheme" where
  "cancel r s = abort r ''cancelled'' s"

definition set_client :: "nat \<Rightarrow> client \<Rightarrow> ('c, 'z) engine_scheme \<Rightarrow> ('c, 'z) engine_scheme" where
  "set_client r c s = s\<lparr>clients := (clients s)(r \<mapsto> c)\<rparr>"

text \<open>Both coroutines submit first and then await the queue.\<close>

definition start_request ::
  "bool \<Rightarrow> ustring \<Rightarrow> int \<Rightarrow> pyfloat \<Rightarrow> int option \<Rightarrow> exn + nat
    \<Rightarrow> ('c, 'z) engine_scheme \<Rightarrow> ('c, 'z) engine_scheme" where
  "start_request strm prompt max_tokens temp k current s =
     (let (r, s1) = submit prompt max_tokens temp k current s
      in set_client r \<lparr>streaming = strm, sent = 0, chunks = [], got = [], outcome = Pending\<rparr> s1)"

text \<open>
  \<open>generate\<close>, resumed with an item: a token is dropped, the sentinel ends the loop, the
  \<^verbatim>\<open>finally\<close> cancels, and the completion is built from the sequence.
\<close>

definition build_completion :: "'c runner \<Rightarrow> sequence \<Rightarrow> completion" where
  "build_completion rn q =
     \<lparr>comp_text = decode rn (output_ids q), prompt_tokens = length (prompt_ids q),
      completion_tokens = length (output_ids q), comp_reason = finish_reason q\<rparr>"

definition generate_item ::
  "nat \<Rightarrow> client \<Rightarrow> int option \<Rightarrow> ('c, 'z) engine_scheme \<Rightarrow> ('c, 'z) engine_scheme" where
  "generate_item r c item s =
     (case item of
        Some token \<Rightarrow> set_client r (c\<lparr>got := got c @ [item]\<rparr>) s
      | None \<Rightarrow>
          let s1 = cancel r s in
          set_client r (c\<lparr>got := got c @ [item],
            outcome := Returned (build_completion (engine_runner s1) (seqs s1 r))\<rparr>) s1)"

text \<open>
  \<open>stream\<close>, resumed with an item: a token decodes the whole output and yields what is new of
  it, if anything is; the sentinel yields the terminal chunk and runs the \<^verbatim>\<open>finally\<close>.
\<close>

definition stream_item ::
  "nat \<Rightarrow> client \<Rightarrow> int option \<Rightarrow> ('c, 'z) engine_scheme \<Rightarrow> ('c, 'z) engine_scheme" where
  "stream_item r c item s =
     (case item of
        Some token \<Rightarrow>
          let txt = decode (engine_runner s) (output_ids (seqs s r)) in
          if length txt > sent c
          then set_client r (c\<lparr>got := got c @ [item], sent := length txt,
                 chunks := chunks c @ [\<lparr>chunk_text = drop (sent c) txt, chunk_reason = None\<rparr>]\<rparr>) s
          else set_client r (c\<lparr>got := got c @ [item]\<rparr>) s
      | None \<Rightarrow>
          let c1 = c\<lparr>got := got c @ [item],
                chunks := chunks c @ [\<lparr>chunk_text = [], chunk_reason = Some (finish_reason (seqs s r))\<rparr>],
                outcome := Ended\<rparr>
          in set_client r c1 (cancel r s))"

definition resume_request ::
  "nat \<Rightarrow> ('c, 'z) engine_scheme \<Rightarrow> ('c, 'z) engine_scheme option" where
  "resume_request r s =
     (case clients s r of
        None \<Rightarrow> None
      | Some c \<Rightarrow>
          if outcome c \<noteq> Pending then None
          else case queue_get r s of
            None \<Rightarrow> None
          | Some (item, s1) \<Rightarrow>
              Some (if streaming c then stream_item r c item s1 else generate_item r c item s1))"

text \<open>
  The client goes away: \<^verbatim>\<open>CancelledError\<close> or \<^verbatim>\<open>GeneratorExit\<close> lands on the await, and the
  \<^verbatim>\<open>finally\<close> gives the sequence up.
\<close>

definition disconnect :: "nat \<Rightarrow> ('c, 'z) engine_scheme \<Rightarrow> ('c, 'z) engine_scheme" where
  "disconnect r s =
     (case clients s r of
        None \<Rightarrow> s
      | Some c \<Rightarrow>
          if outcome c \<noteq> Pending then s
          else set_client r (c\<lparr>outcome := Disconnected\<rparr>) (cancel r s))"

section \<open>Frame facts\<close>

text \<open>The engine's own fields, through every operation of the layers below.\<close>

lemma emit_engine [simp]:
  "clients (emit r t s) = clients s" "engine_runner (emit r t s) = engine_runner s"
  by (simp_all add: emit_def put_nowait_def upd_seq_def split: option.splits)

lemma set_reason_engine [simp]:
  "clients (set_reason r x s) = clients s" "engine_runner (set_reason r x s) = engine_runner s"
  by (simp_all add: set_reason_def upd_seq_def)

lemma abort_engine [simp]:
  "clients (abort r x s) = clients s" "engine_runner (abort r x s) = engine_runner s"
  by (simp_all add: abort_def Let_def)

lemma fold_abort_engine [simp]:
  "clients (fold (\<lambda>r. abort r x) rs s) = clients s"
  "engine_runner (fold (\<lambda>r. abort r x) rs s) = engine_runner s"
  by (induction rs arbitrary: s) auto

lemma post_row_engine [simp]:
  "clients (snd (post_row r t s)) = clients s" "engine_runner (snd (post_row r t s)) = engine_runner s"
  by (simp_all add: post_row_def Let_def) (simp_all add: upd_seq_def)

lemma post_rows_engine [simp]:
  "clients (snd (post_rows rows s)) = clients s" "engine_runner (snd (post_rows rows s)) = engine_runner s"
  by (induction rows arbitrary: s) (auto simp: post_rows_simps simp del: post_rows.simps(2))

lemma fold_fail_engine [simp]:
  "clients (fold fail_row rs s) = clients s" "engine_runner (fold fail_row rs s) = engine_runner s"
  by (induction rs arbitrary: s) (auto simp: fail_row_def)

lemma schedule_engine [simp]:
  "clients (snd (schedule s)) = clients s" "engine_runner (snd (schedule s)) = engine_runner s"
  by (simp_all add: schedule_unfold Let_def)

lemma loop_record_engine [simp]:
  "clients (loop_record batch current rows s) = clients s"
  "engine_runner (loop_record batch current rows s) = engine_runner s"
  by (simp_all add: loop_record_unfold)

lemma loop_next_engine [simp]:
  "clients (loop_next rn s) = clients s" "engine_runner (loop_next rn s) = engine_runner s"
  by (simp_all add: loop_next_def Let_def)

lemma loop_raise_engine [simp]:
  "clients (loop_raise e s) = clients s" "engine_runner (loop_raise e s) = engine_runner s"
  by (simp_all add: loop_raise_def fail_all_def Let_def)

lemma loop_cancel_engine [simp]:
  "clients (loop_cancel s) = clients s" "engine_runner (loop_cancel s) = engine_runner s"
  by (simp_all add: loop_cancel_def split: loop_pc.splits)

lemma loop_step_engine [simp]:
  "clients (loop_step rn s) = clients s" "engine_runner (loop_step rn s) = engine_runner s"
  by (simp_all add: loop_step_def split: loop_pc.splits sum.splits prod.splits)

lemma deliver_engine [simp]:
  "clients (deliver s) = clients s" "engine_runner (deliver s) = engine_runner s"
  by (simp_all add: deliver_def put_nowait_def upd_seq_def split: list.splits prod.splits)

lemma arrive_engine [simp]:
  "clients (arrive p n temp k eos cur s) = clients s"
  "engine_runner (arrive p n temp k eos cur s) = engine_runner s"
  by (simp_all add: arrive_def new_sequence_def add_def Let_def)

lemma queue_get_engine:
  assumes "queue_get r s = Some (t, s')"
  shows "clients s' = clients s" "engine_runner s' = engine_runner s"
  using assms by (auto simp: queue_get_def upd_seq_def split: list.splits)

text \<open>Bookkeeping of a client does not touch the scheduler.\<close>

lemma set_client_simps [simp]:
  "seqs (set_client r c s) = seqs s" "next_id (set_client r c s) = next_id s"
  "calls (set_client r c s) = calls s" "running (set_client r c s) = running s"
  "waiting (set_client r c s) = waiting s" "max_batch_size (set_client r c s) = max_batch_size s"
  "max_batch_tokens (set_client r c s) = max_batch_tokens s" "pc (set_client r c s) = pc s"
  "members (set_client r c s) = members s" "rstate (set_client r c s) = rstate s"
  "engine_runner (set_client r c s) = engine_runner s"
  "clients (set_client r c s) = (clients s)(r \<mapsto> c)"
  "channel q (set_client r c s) = channel q s" "loop_inv (set_client r c s) = loop_inv s"
  by (simp_all add: set_client_def channel_def loop_inv_def sched_inv_def store_inv_def calls_ok_def
      none_lost_def executing_ok_def split: loop_pc.split)

lemma submit_arrive:
  "submit p n temp k cur s =
     (next_id s, arrive (encode (engine_runner s) p) n temp k (eos_ids (engine_runner s)) cur s)"
  by (simp add: submit_def prompt_to_sequence_def arrive_def new_sequence_def Let_def)

lemma start_request_arrive:
  "start_request strm p n temp k cur s =
     set_client (next_id s)
       \<lparr>streaming = strm, sent = 0, chunks = [], got = [], outcome = Pending\<rparr>
       (arrive (encode (engine_runner s) p) n temp k (eos_ids (engine_runner s)) cur s)"
  by (simp add: start_request_def submit_arrive)

end
