(* ===== verification/Wire.thy ===== *)
theory Wire
  imports Server_Prelude
begin

text \<open>
  What goes over the wire: the JSON values of \<^verbatim>\<open>src/model_server/main.py\<close> and their
  serialisation by \<^verbatim>\<open>json.dumps\<close> with its defaults, the server-sent-event frames of
  \<^verbatim>\<open>_stream\<close>, and the Prometheus text of \<^verbatim>\<open>/metrics\<close>; with the readers of both formats the
  repository's own clients use.
\<close>

section \<open>Decimal numerals\<close>

fun nat_digits :: "nat \<Rightarrow> ustring" where
  "nat_digits n = (if n < 10 then [48 + n] else nat_digits (n div 10) @ [48 + n mod 10])"

declare nat_digits.simps [simp del]

definition show_int :: "int \<Rightarrow> ustring" where
  "show_int i = (if i < 0 then 45 # nat_digits (nat (- i)) else nat_digits (nat i))"

section \<open>JSON\<close>

datatype json =
    JNull
  | JInt int
  | JStr ustring
  | JList "json list"
  | JObj "(string \<times> json) list"

fun join :: "ustring \<Rightarrow> ustring list \<Rightarrow> ustring" where
  "join sep [] = []"
| "join sep [x] = x"
| "join sep (x # y # ys) = x @ sep @ join sep (y # ys)"

definition hex_digit :: "nat \<Rightarrow> nat" where
  "hex_digit d = (if d < 10 then 48 + d else 87 + d)"

definition u_escape :: "nat \<Rightarrow> ustring" where
  "u_escape c = [92, 117] @
     [hex_digit (c div 4096 mod 16), hex_digit (c div 256 mod 16), hex_digit (c div 16 mod 16),
      hex_digit (c mod 16)]"

text \<open>
  The escapes of \<^verbatim>\<open>ensure_ascii=True\<close>: the short ones, printable ASCII as it is, everything
  else as \<^verbatim>\<open>\uXXXX\<close>, a code point beyond the basic plane as a surrogate pair.
\<close>

definition escape_char :: "nat \<Rightarrow> ustring" where
  "escape_char c =
     (if c = 34 then [92, 34]
      else if c = 92 then [92, 92]
      else if c = 10 then [92, 110]
      else if c = 13 then [92, 114]
      else if c = 9 then [92, 116]
      else if c = 12 then [92, 102]
      else if c = 8 then [92, 98]
      else if 32 \<le> c \<and> c \<le> 126 then [c]
      else if c < 65536 then u_escape c
      else u_escape (55296 + (c - 65536) div 1024) @ u_escape (56320 + (c - 65536) mod 1024))"

definition json_string :: "ustring \<Rightarrow> ustring" where
  "json_string s = 34 # concat (map escape_char s) @ [34]"

fun dumps :: "json \<Rightarrow> ustring" where
  "dumps JNull = lit ''null''"
| "dumps (JInt i) = show_int i"
| "dumps (JStr s) = json_string s"
| "dumps (JList xs) = [91] @ join (lit '', '') (map dumps xs) @ [93]"
| "dumps (JObj kvs) =
     [123] @ join (lit '', '') (map (\<lambda>(k, v). json_string (lit k) @ lit '': '' @ dumps v) kvs) @ [125]"

section \<open>Server-sent events\<close>

definition sse_data :: "ustring \<Rightarrow> ustring" where
  "sse_data payload = lit ''data: '' @ payload @ [10, 10]"

definition sse_done :: ustring where
  "sse_done = lit ''[DONE]''"

text \<open>
  The reader: lines, of which those starting with \<^verbatim>\<open>data: \<close> carry a payload
  (\<^verbatim>\<open>_one_request\<close> of \<^verbatim>\<open>src/model_server/tests/test_bench_serving.py\<close>).
\<close>

definition line_break :: "nat \<Rightarrow> bool" where
  "line_break c \<longleftrightarrow> c \<in> {10, 11, 12, 13, 28, 29, 30, 133, 8232, 8233}"

text \<open>\<^verbatim>\<open>str.splitlines()\<close>: a carriage return and the line feed after it are one break.\<close>

fun split_lines :: "ustring \<Rightarrow> ustring \<Rightarrow> ustring list" where
  "split_lines acc [] = (if acc = [] then [] else [acc])"
| "split_lines acc [c] = (if line_break c then [acc] else [acc @ [c]])"
| "split_lines acc (c # d # cs) =
     (if c = 13 \<and> d = 10 then acc # split_lines [] cs
      else if line_break c then acc # split_lines [] (d # cs)
      else split_lines (acc @ [c]) (d # cs))"

definition starts_with :: "ustring \<Rightarrow> ustring \<Rightarrow> bool" where
  "starts_with pre s \<longleftrightarrow> take (length pre) s = pre"

definition sse_payloads :: "ustring \<Rightarrow> ustring list" where
  "sse_payloads txt =
     map (drop 6) (filter (starts_with (lit ''data: '')) (split_lines [] txt))"

section \<open>Metrics\<close>

definition metric_line :: "string \<Rightarrow> ustring \<Rightarrow> nat \<Rightarrow> ustring" where
  "metric_line metric model_name n =
     lit metric @ lit ''{model_name='' @ [34] @ model_name @ [34] @ lit ''} '' @ nat_digits n @ [10]"

definition metrics_text :: "ustring \<Rightarrow> nat \<Rightarrow> nat \<Rightarrow> ustring" where
  "metrics_text model_name n_running n_waiting =
     lit ''# HELP vllm:num_requests_running Number of requests currently running on GPU.'' @ [10] @
     lit ''# TYPE vllm:num_requests_running gauge'' @ [10] @
     metric_line ''vllm:num_requests_running'' model_name n_running @
     lit ''# HELP vllm:num_requests_waiting Number of requests waiting to be processed.'' @ [10] @
     lit ''# TYPE vllm:num_requests_waiting gauge'' @ [10] @
     metric_line ''vllm:num_requests_waiting'' model_name n_waiting"

text \<open>
  The scraper of \<^verbatim>\<open>src/model_server/tests/conftest.py\<close>: the number after the last space of the
  first line that names the metric.  \<^verbatim>\<open>int()\<close> of something that is not a numeral raises.
\<close>

definition parse_nat :: "ustring \<Rightarrow> nat option" where
  "parse_nat ds =
     (if ds \<noteq> [] \<and> (\<forall>d \<in> set ds. 48 \<le> d \<and> d \<le> 57)
      then Some (foldl (\<lambda>n d. 10 * n + (d - 48)) 0 ds) else None)"

definition after_last_space :: "ustring \<Rightarrow> ustring" where
  "after_last_space s = rev (takeWhile (\<lambda>c. c \<noteq> 32) (rev s))"

fun metric_value_in :: "ustring list \<Rightarrow> string \<Rightarrow> exn + nat" where
  "metric_value_in [] metric = Inl (OtherException ''AssertionError'')"
| "metric_value_in (line # lines) metric =
     (if starts_with (lit metric @ lit ''{'') line
      then (case parse_nat (after_last_space line) of
              None \<Rightarrow> Inl (OtherException ''ValueError'')
            | Some n \<Rightarrow> Inr n)
      else metric_value_in lines metric)"

definition metric_value :: "ustring \<Rightarrow> string \<Rightarrow> exn + nat" where
  "metric_value txt metric = metric_value_in (split_lines [] txt) metric"

section \<open>Numerals read back\<close>

lemma nat_digits_range: "d \<in> set (nat_digits n) \<Longrightarrow> 48 \<le> d \<and> d \<le> 57"
proof (induction n rule: nat_digits.induct)
  case (1 n)
  then show ?case
    by (subst (asm) (2) nat_digits.simps) (auto split: if_splits)
qed

lemma nat_digits_ne [simp]: "nat_digits n \<noteq> []"
  by (subst nat_digits.simps) simp

lemma foldl_digits: "foldl (\<lambda>n d. 10 * n + (d - 48)) 0 (nat_digits n) = n"
proof (induction n rule: nat_digits.induct)
  case (1 n)
  then show ?case
    by (subst nat_digits.simps) auto
qed

lemma parse_nat_digits [simp]: "parse_nat (nat_digits n) = Some n"
  by (auto simp: parse_nat_def foldl_digits dest: nat_digits_range)

lemma after_last_space_append [simp]:
  "32 \<notin> set ds \<Longrightarrow> after_last_space (xs @ 32 # ds) = ds"
  unfolding after_last_space_def by (simp, subst takeWhile_append2) auto

section \<open>Lines\<close>

lemma split_lines_plain:
  "\<forall>c \<in> set xs. \<not> line_break c \<Longrightarrow> split_lines acc (xs @ 10 # ys) = (acc @ xs) # split_lines [] ys"
proof (induction xs arbitrary: acc)
  case Nil
  then show ?case by (cases ys) (simp_all add: line_break_def)
next
  case (Cons x xs)
  then have "x \<noteq> 13" "\<not> line_break x" by (auto simp: line_break_def)
  then show ?case using Cons by (cases "xs @ 10 # ys") auto
qed

text \<open>Text no line break can hide in.\<close>

definition printable :: "ustring \<Rightarrow> bool" where
  "printable s \<longleftrightarrow> (\<forall>c \<in> set s. 32 \<le> c \<and> c \<le> 126)"

lemma printable_append [simp]: "printable (s @ t) \<longleftrightarrow> printable s \<and> printable t"
  by (auto simp: printable_def)

lemma printable_Cons [simp]: "printable (c # s) \<longleftrightarrow> 32 \<le> c \<and> c \<le> 126 \<and> printable s"
  by (auto simp: printable_def)

lemma printable_Nil [simp]: "printable []"
  by (simp add: printable_def)

lemma printable_concat: "(\<And>x. x \<in> set xs \<Longrightarrow> printable x) \<Longrightarrow> printable (concat xs)"
  by (induction xs) auto

lemma printable_no_break: "printable s \<Longrightarrow> \<forall>c \<in> set s. \<not> line_break c"
  by (auto simp: printable_def line_break_def)

lemma printable_join: "printable sep \<Longrightarrow> (\<And>x. x \<in> set xs \<Longrightarrow> printable x) \<Longrightarrow> printable (join sep xs)"
  by (induction sep xs rule: join.induct) auto

lemma hex_digit_range: "d < 16 \<Longrightarrow> 48 \<le> hex_digit d \<and> hex_digit d \<le> 102"
  by (simp add: hex_digit_def)

lemma printable_u_escape [simp]: "printable (u_escape c)"
  using hex_digit_range [of "c div 4096 mod 16"] hex_digit_range [of "c div 256 mod 16"]
    hex_digit_range [of "c div 16 mod 16"] hex_digit_range [of "c mod 16"]
  by (simp add: u_escape_def)

lemma printable_escape_char: "printable (escape_char c)"
  by (simp add: escape_char_def)

lemma printable_json_string [simp]: "printable (json_string s)"
  by (auto simp: json_string_def intro!: printable_concat printable_escape_char)

lemma printable_digits [simp]: "printable (nat_digits n)"
  by (auto simp: printable_def dest: nat_digits_range)

lemma printable_lits [simp]: "printable (lit ''null'')" "printable (lit '', '')" "printable (lit '': '')"
  by (simp_all add: lit_def)

lemma printable_dumps [simp]: "printable (dumps j)"
proof (induction j rule: dumps.induct)
  case (4 xs)
  then show ?case by (auto intro!: printable_join)
next
  case (5 kvs)
  then show ?case by (auto intro!: printable_join)
qed (simp_all add: show_int_def)

lemma sse_payload_line:
  "printable p \<Longrightarrow> sse_payloads (sse_data p @ txt) = p # sse_payloads txt"
proof -
  assume p: "printable p"
  have l: "lit ''data: '' = [100, 97, 116, 97, 58, 32]" by (simp add: lit_def)
  have "printable (lit ''data: '' @ p)" using p by (simp add: l)
  from split_lines_plain [OF printable_no_break [OF this], of "[]" "10 # txt"]
  have "split_lines [] (sse_data p @ txt) = (lit ''data: '' @ p) # split_lines [] (10 # txt)"
    by (simp add: sse_data_def)
  also have "split_lines [] (10 # txt) = [] # split_lines [] txt"
    using split_lines_plain [of "[]" "[]" "txt"] by simp
  finally show ?thesis by (simp add: sse_payloads_def starts_with_def l)
qed

lemma sse_payloads_Nil [simp]: "sse_payloads [] = []"
  by (simp add: sse_payloads_def)

lemma sse_payloads_frames: "\<forall>p \<in> set ps. printable p \<Longrightarrow> sse_payloads (concat (map sse_data ps)) = ps"
  by (induction ps) (auto simp: sse_payload_line)

text \<open>The lines of the metrics text, and what a scraper makes of them.\<close>

definition gauge_line :: "string \<Rightarrow> ustring \<Rightarrow> nat \<Rightarrow> ustring" where
  "gauge_line metric name n = lit metric @ lit ''{model_name='' @ [34] @ name @ [34, 125] @ 32 # nat_digits n"

lemma split_metrics_text:
  assumes "\<forall>c \<in> set name. \<not> line_break c"
  shows "split_lines [] (metrics_text name r w) =
    [lit ''# HELP vllm:num_requests_running Number of requests currently running on GPU.'',
     lit ''# TYPE vllm:num_requests_running gauge'', gauge_line ''vllm:num_requests_running'' name r,
     lit ''# HELP vllm:num_requests_waiting Number of requests waiting to be processed.'',
     lit ''# TYPE vllm:num_requests_waiting gauge'', gauge_line ''vllm:num_requests_waiting'' name w]"
proof -
  let ?h1 = "lit ''# HELP vllm:num_requests_running Number of requests currently running on GPU.''"
  let ?t1 = "lit ''# TYPE vllm:num_requests_running gauge''"
  let ?g1 = "gauge_line ''vllm:num_requests_running'' name r"
  let ?h2 = "lit ''# HELP vllm:num_requests_waiting Number of requests waiting to be processed.''"
  let ?t2 = "lit ''# TYPE vllm:num_requests_waiting gauge''"
  let ?g2 = "gauge_line ''vllm:num_requests_waiting'' name w"
  have digits: "\<forall>c \<in> set (nat_digits n). \<not> line_break c" for n
    by (rule printable_no_break) simp
  have plain: "\<forall>c \<in> set ?h1. \<not> line_break c" "\<forall>c \<in> set ?t1. \<not> line_break c"
    "\<forall>c \<in> set ?h2. \<not> line_break c" "\<forall>c \<in> set ?t2. \<not> line_break c"
    by (simp_all add: lit_def line_break_def)
  have fixed: "\<forall>c \<in> set (lit ''vllm:num_requests_running''). \<not> line_break c"
    "\<forall>c \<in> set (lit ''vllm:num_requests_waiting''). \<not> line_break c"
    "\<forall>c \<in> set (lit ''{model_name=''). \<not> line_break c" "\<forall>c \<in> {32, 34, 125}. \<not> line_break c"
    by (simp_all add: lit_def line_break_def)
  have gauge: "\<forall>c \<in> set ?g1. \<not> line_break c" "\<forall>c \<in> set ?g2. \<not> line_break c"
    using assms digits fixed unfolding gauge_line_def by auto
  have "lit ''} '' = [125, 32]" by (simp add: lit_def)
  then have "metrics_text name r w =
      ?h1 @ 10 # ?t1 @ 10 # ?g1 @ 10 # ?h2 @ 10 # ?t2 @ 10 # ?g2 @ 10 # []"
    by (simp add: metrics_text_def metric_line_def gauge_line_def)
  then show ?thesis
    by (simp add: split_lines_plain [OF plain(1)] split_lines_plain [OF plain(2)] split_lines_plain [OF plain(3)]
        split_lines_plain [OF plain(4)] split_lines_plain [OF gauge(1)] split_lines_plain [OF gauge(2)])
qed

lemma gauge_line_value: "parse_nat (after_last_space (gauge_line metric name n)) = Some n"
proof -
  have "32 \<notin> set (nat_digits n)" by (auto dest: nat_digits_range)
  then have "after_last_space ((lit metric @ lit ''{model_name='' @ [34] @ name @ [34, 125]) @ 32 # nat_digits n) = nat_digits n"
    by (rule after_last_space_append)
  then show ?thesis by (simp add: gauge_line_def)
qed

lemma gauge_line_starts:
  "starts_with (lit ''vllm:num_requests_running'' @ lit ''{'') (gauge_line ''vllm:num_requests_running'' name n)"
  "starts_with (lit ''vllm:num_requests_waiting'' @ lit ''{'') (gauge_line ''vllm:num_requests_waiting'' name n)"
  "\<not> starts_with (lit ''vllm:num_requests_waiting'' @ lit ''{'') (gauge_line ''vllm:num_requests_running'' name n)"
  by (simp_all add: starts_with_def lit_def gauge_line_def)

lemma help_line_starts:
  "\<not> starts_with (lit (''vllm:'' @ metric) @ lit ''{'') (lit (CHR ''#'' # rest))"
  "\<not> starts_with (lit ''vllm:num_requests_running'' @ lit ''{'') (lit (CHR ''#'' # rest))"
  "\<not> starts_with (lit ''vllm:num_requests_waiting'' @ lit ''{'') (lit (CHR ''#'' # rest))"
  by (simp_all add: starts_with_def lit_def)

lemma metric_values:
  assumes "\<forall>c \<in> set name. \<not> line_break c"
  shows "metric_value (metrics_text name r w) ''vllm:num_requests_running'' = Inr r"
    and "metric_value (metrics_text name r w) ''vllm:num_requests_waiting'' = Inr w"
  unfolding metric_value_def split_metrics_text [OF assms]
  by (simp_all add: gauge_line_starts gauge_line_value help_line_starts)

end
