(* ===== verification/Json_Reader.thy ===== *)
theory Json_Reader
  imports Wire
begin

text \<open>
  The other side of \<^verbatim>\<open>json.dumps\<close>: a reader of the JSON this server writes -- \<^verbatim>\<open>null\<close>, integers,
  strings with all escapes and surrogate pairs, arrays and objects, with white space between tokens --
  as the repository's clients use \<^verbatim>\<open>json.loads\<close>.  Nothing is lost on the wire: what a client reads is
  what the handler built.
\<close>

section \<open>Strings\<close>

definition hex_val :: "nat \<Rightarrow> nat option" where
  "hex_val c =
     (if 48 \<le> c \<and> c \<le> 57 then Some (c - 48)
      else if 97 \<le> c \<and> c \<le> 102 then Some (c - 87)
      else if 65 \<le> c \<and> c \<le> 70 then Some (c - 55) else None)"

fun hex_num :: "nat \<Rightarrow> ustring \<Rightarrow> nat option" where
  "hex_num acc [] = Some acc"
| "hex_num acc (c # cs) = (case hex_val c of None \<Rightarrow> None | Some d \<Rightarrow> hex_num (16 * acc + d) cs)"

definition read_unit :: "ustring \<Rightarrow> (nat \<times> ustring) option" where
  "read_unit cs =
     (if length cs < 4 then None
      else map_option (\<lambda>u. (u, drop 4 cs)) (hex_num 0 (take 4 cs)))"

text \<open>A high surrogate takes the low one after it, if there is one.\<close>

definition join_surrogates :: "nat \<times> ustring \<Rightarrow> nat \<times> ustring" where
  "join_surrogates = (\<lambda>(u, cs).
     if 55296 \<le> u \<and> u \<le> 56319 \<and> take 2 cs = [92, 117]
     then (case read_unit (drop 2 cs) of
             Some (v, ds) \<Rightarrow>
               if 56320 \<le> v \<and> v \<le> 57343
               then (65536 + (u - 55296) * 1024 + (v - 56320), ds) else (u, cs)
           | None \<Rightarrow> (u, cs))
     else (u, cs))"

definition short_escape :: "nat \<Rightarrow> nat option" where
  "short_escape e =
     (if e \<in> {34, 92, 47} then Some e
      else if e = 110 then Some 10 else if e = 114 then Some 13 else if e = 116 then Some 9
      else if e = 102 then Some 12 else if e = 98 then Some 8 else None)"

definition read_char :: "ustring \<Rightarrow> (nat \<times> ustring) option" where
  "read_char cs =
     (case cs of
        [] \<Rightarrow> None
      | c # ds \<Rightarrow>
          if c < 32 then None
          else if c \<noteq> 92 then Some (c, ds)
          else (case ds of
                  [] \<Rightarrow> None
                | e # es \<Rightarrow>
                    if e = 117 then map_option join_surrogates (read_unit es)
                    else map_option (\<lambda>x. (x, es)) (short_escape e)))"

function read_string :: "ustring \<Rightarrow> (ustring \<times> ustring) option" where
  "read_string cs =
     (case cs of
        [] \<Rightarrow> None
      | c # ds \<Rightarrow>
          if c = 34 then Some ([], ds)
          else (case read_char cs of
                  None \<Rightarrow> None
                | Some (x, rest) \<Rightarrow>
                    if length rest < length cs
                    then map_option (\<lambda>(s, out). (x # s, out)) (read_string rest)
                    else None))"
  by pat_completeness auto

termination by (relation "measure length") auto

declare read_string.simps [simp del]

section \<open>Values\<close>

fun skip_ws :: "ustring \<Rightarrow> ustring" where
  "skip_ws [] = []"
| "skip_ws (c # cs) = (if c \<in> {32, 9, 10, 13} then skip_ws cs else c # cs)"

definition is_digit :: "nat \<Rightarrow> bool" where
  "is_digit c \<longleftrightarrow> 48 \<le> c \<and> c \<le> 57"

definition read_nat :: "ustring \<Rightarrow> (nat \<times> ustring) option" where
  "read_nat cs = map_option (\<lambda>n. (n, dropWhile is_digit cs)) (parse_nat (takeWhile is_digit cs))"

definition read_int :: "ustring \<Rightarrow> (json \<times> ustring) option" where
  "read_int cs =
     (case cs of
        [] \<Rightarrow> None
      | c # ds \<Rightarrow>
          if c = 45 then map_option (\<lambda>(n, r). (JInt (- int n), r)) (read_nat ds)
          else map_option (\<lambda>(n, r). (JInt (int n), r)) (read_nat cs))"

text \<open>A key of the model is text of HOL characters.\<close>

definition key_of :: "ustring \<Rightarrow> string option" where
  "key_of s = (if \<forall>c \<in> set s. c < 256 then Some (map char_of s) else None)"

fun read_value :: "nat \<Rightarrow> ustring \<Rightarrow> (json \<times> ustring) option"
and read_items :: "nat \<Rightarrow> ustring \<Rightarrow> (json list \<times> ustring) option"
and read_members :: "nat \<Rightarrow> ustring \<Rightarrow> ((string \<times> json) list \<times> ustring) option" where
  "read_value 0 cs = None"
| "read_value (Suc n) cs =
     (case skip_ws cs of
        [] \<Rightarrow> None
      | c # ds \<Rightarrow>
          if c = 34 then map_option (\<lambda>(s, r). (JStr s, r)) (read_string ds)
          else if c = 91 then
            (if take 1 (skip_ws ds) = [93] then Some (JList [], drop 1 (skip_ws ds))
             else map_option (\<lambda>(xs, r). (JList xs, r)) (read_items n ds))
          else if c = 123 then
            (if take 1 (skip_ws ds) = [125] then Some (JObj [], drop 1 (skip_ws ds))
             else map_option (\<lambda>(kvs, r). (JObj kvs, r)) (read_members n ds))
          else if c = 110 then
            (if take 3 ds = lit ''ull'' then Some (JNull, drop 3 ds) else None)
          else read_int (c # ds))"
| "read_items 0 cs = None"
| "read_items (Suc n) cs =
     (case read_value n cs of
        None \<Rightarrow> None
      | Some (x, r) \<Rightarrow>
          (case skip_ws r of
             [] \<Rightarrow> None
           | c # ds \<Rightarrow>
               if c = 93 then Some ([x], ds)
               else if c = 44 then map_option (\<lambda>(xs, r). (x # xs, r)) (read_items n ds)
               else None))"
| "read_members 0 cs = None"
| "read_members (Suc n) cs =
     (case skip_ws cs of
        [] \<Rightarrow> None
      | c # ds \<Rightarrow>
          if c \<noteq> 34 then None
          else (case read_string ds of
                  None \<Rightarrow> None
                | Some (k, r) \<Rightarrow>
                    (case (key_of k, skip_ws r) of
                       (Some key, d # es) \<Rightarrow>
                         if d \<noteq> 58 then None
                         else (case read_value n es of
                                 None \<Rightarrow> None
                               | Some (v, r') \<Rightarrow>
                                   (case skip_ws r' of
                                      [] \<Rightarrow> None
                                    | e # fs \<Rightarrow>
                                        if e = 125 then Some ([(key, v)], fs)
                                        else if e = 44
                                        then map_option (\<lambda>(kvs, r). ((key, v) # kvs, r)) (read_members n fs)
                                        else None))
                     | _ \<Rightarrow> None)))"

text \<open>The fuel is the length of the text, which bounds how deeply values nest and follow each other.\<close>

definition loads :: "ustring \<Rightarrow> json option" where
  "loads cs =
     (case read_value (length cs) cs of
        None \<Rightarrow> None
      | Some (v, r) \<Rightarrow> if skip_ws r = [] then Some v else None)"

section \<open>Reading back what was written\<close>

text \<open>Text of Unicode scalar values: no lone half of a surrogate pair.\<close>

definition scalar :: "nat \<Rightarrow> bool" where
  "scalar c \<longleftrightarrow> c < 1114112 \<and> \<not> (55296 \<le> c \<and> c \<le> 57343)"

fun clean :: "json \<Rightarrow> bool" where
  "clean JNull = True"
| "clean (JInt i) = True"
| "clean (JStr s) = (\<forall>c \<in> set s. scalar c)"
| "clean (JList xs) = (\<forall>x \<in> set xs. clean x)"
| "clean (JObj kvs) = (\<forall>(k, v) \<in> set kvs. clean v)"

lemma hex_val_digit: "d < 16 \<Longrightarrow> hex_val (hex_digit d) = Some d"
  by (simp add: hex_val_def hex_digit_def)

lemma hex_num_digits:
  assumes "w < 16" "x < 16" "y < 16" "z < 16"
  shows "hex_num 0 [hex_digit w, hex_digit x, hex_digit y, hex_digit z]
    = Some (16 * (16 * (16 * w + x) + y) + z)"
  using assms by (simp add: hex_val_digit)

lemma read_unit_escape:
  assumes "c < 65536" and "u_escape c = [92, 117] @ ds"
  shows "read_unit (ds @ rest) = Some (c, rest)"
proof -
  have ds: "ds = [hex_digit (c div 4096 mod 16), hex_digit (c div 256 mod 16), hex_digit (c div 16 mod 16),
      hex_digit (c mod 16)]"
    using assms(2) by (simp add: u_escape_def)
  have "16 * (16 * (16 * (c div 4096 mod 16) + c div 256 mod 16) + c div 16 mod 16) + c mod 16 = c"
  proof -
    have "c div 256 = c div 16 div 16" "c div 4096 = c div 16 div 16 div 16"
      by (simp_all add: div_mult2_eq [symmetric])
    moreover have "c div 16 div 16 div 16 < 16" using assms(1) by (simp add: div_mult2_eq [symmetric] less_mult_imp_div_less)
    ultimately show ?thesis by simp
  qed
  then have "hex_num 0 ds = Some c"
    unfolding ds by (subst hex_num_digits) (simp_all only: mod_less_divisor zero_less_numeral)
  then show ?thesis by (simp add: read_unit_def ds)
qed

lemma u_escape_split: obtains ds where "u_escape c = [92, 117] @ ds"
  by (rule that) (simp add: u_escape_def)

lemma read_char_unit:
  assumes "c < 65536"
  shows "read_char (u_escape c @ rest) = Some (join_surrogates (c, rest))"
proof -
  obtain ds where ds: "u_escape c = [92, 117] @ ds" by (rule u_escape_split)
  then show ?thesis using read_unit_escape [OF assms ds] by (simp add: read_char_def)
qed

lemma read_char_pair:
  assumes "65536 \<le> c" "c < 1114112"
  shows "read_char (u_escape (55296 + (c - 65536) div 1024) @ u_escape (56320 + (c - 65536) mod 1024) @ rest)
    = Some (c, rest)"
proof -
  let ?u = "55296 + (c - 65536) div 1024" and ?v = "56320 + (c - 65536) mod 1024"
  have u: "?u < 65536" "55296 \<le> ?u" "?u \<le> 56319" and v: "?v < 65536" "56320 \<le> ?v" "?v \<le> 57343"
    using assms by auto
  obtain ds where ds: "u_escape ?v = [92, 117] @ ds" by (rule u_escape_split)
  have "65536 + (?u - 55296) * 1024 + (?v - 56320) = c" using assms by simp
  then show ?thesis
    using u v read_char_unit [OF u(1)] read_unit_escape [OF v(1) ds, of rest]
    by (simp add: join_surrogates_def ds)
qed

lemma read_char_escape:
  assumes "scalar c"
  shows "read_char (escape_char c @ rest) = Some (c, rest)"
proof -
  consider "c \<in> {34, 92, 10, 13, 9, 12, 8}" | "c \<notin> {34, 92, 10, 13, 9, 12, 8}" "32 \<le> c" "c \<le> 126"
    | "c \<notin> {34, 92, 10, 13, 9, 12, 8}" "\<not> (32 \<le> c \<and> c \<le> 126)" "c < 65536"
    | "65536 \<le> c" by (cases "c < 65536") auto
  then show ?thesis
  proof cases
    case 1
    then show ?thesis by (auto simp: escape_char_def read_char_def short_escape_def)
  next
    case 2
    then show ?thesis by (simp add: escape_char_def read_char_def)
  next
    case 3
    then have e: "escape_char c = u_escape c" by (auto simp: escape_char_def)
    show ?thesis
      using assms by (auto simp: e read_char_unit [OF 3(3)] join_surrogates_def scalar_def)
  next
    case 4
    then show ?thesis using assms read_char_pair [of c rest] by (simp add: escape_char_def scalar_def)
  qed
qed

lemma escape_char_head: "\<exists>h t. escape_char c = h # t \<and> h \<noteq> 34"
  by (auto simp: escape_char_def u_escape_def)

lemma read_string_escaped:
  "\<forall>c \<in> set s. scalar c \<Longrightarrow> read_string (concat (map escape_char s) @ 34 # rest) = Some (s, rest)"
proof (induction s)
  case Nil
  then show ?case by (subst read_string.simps) simp
next
  case (Cons c s)
  let ?tail = "concat (map escape_char s) @ 34 # rest"
  obtain h t where h: "escape_char c = h # t" "h \<noteq> 34" using escape_char_head by blast
  have "read_char (escape_char c @ ?tail) = Some (c, ?tail)"
    using Cons.prems by (intro read_char_escape) simp
  then have "read_string (escape_char c @ ?tail) = map_option (\<lambda>(s, out). (c # s, out)) (read_string ?tail)"
    by (subst read_string.simps) (simp add: h)
  then show ?case using Cons by simp
qed

lemma read_json_string:
  "\<forall>c \<in> set s. scalar c \<Longrightarrow> json_string s @ rest = 34 # (concat (map escape_char s) @ 34 # rest)"
  by (simp add: json_string_def)

text \<open>A numeral ends where the text ends or something else begins.\<close>

definition ends_number :: "ustring \<Rightarrow> bool" where
  "ends_number rest \<longleftrightarrow> (case rest of [] \<Rightarrow> True | c # _ \<Rightarrow> \<not> is_digit c)"

lemma read_nat_digits:
  assumes "ends_number rest"
  shows "read_nat (nat_digits n @ rest) = Some (n, rest)"
proof -
  have d: "\<forall>c \<in> set (nat_digits n). is_digit c" by (auto simp: is_digit_def dest: nat_digits_range)
  have "takeWhile is_digit rest = []" "dropWhile is_digit rest = rest"
    using assms by (auto simp: ends_number_def split: list.splits)
  with d have "takeWhile is_digit (nat_digits n @ rest) = nat_digits n"
    "dropWhile is_digit (nat_digits n @ rest) = rest"
    by (simp_all add: takeWhile_append2 dropWhile_append2)
  then show ?thesis by (simp add: read_nat_def)
qed

lemma nat_digits_Cons: "\<exists>h t. nat_digits n = h # t \<and> 48 \<le> h \<and> h \<le> 57"
  using nat_digits_range [of "hd (nat_digits n)" n] by (cases "nat_digits n") auto

lemma read_int_shown:
  assumes "ends_number rest"
  shows "read_int (show_int i @ rest) = Some (JInt i, rest)"
proof (cases "i < 0")
  case True
  then show ?thesis using read_nat_digits [OF assms] by (simp add: read_int_def show_int_def)
next
  case False
  obtain h t where h: "nat_digits (nat i) = h # t" "48 \<le> h" using nat_digits_Cons by blast
  then show ?thesis using False read_nat_digits [OF assms, of "nat i"]
    by (simp add: read_int_def show_int_def)
qed

lemma show_int_Cons: "\<exists>h t. show_int i = h # t \<and> h \<notin> {32, 9, 10, 13, 34, 91, 123, 110}"
  using nat_digits_Cons [of "nat i"] by (fastforce simp: show_int_def)

lemma dumps_Cons: "\<exists>h t. dumps j = h # t \<and> h \<notin> {32, 9, 10, 13, 93, 125}"
  using show_int_Cons nat_digits_Cons
  by (cases j) (fastforce simp: show_int_def json_string_def lit_def)+

lemma join_Cons2: "xs \<noteq> [] \<Longrightarrow> join sep (x # xs) = x @ sep @ join sep xs"
  by (cases xs) simp_all

lemma of_char_bound: "of_char c < (256 :: nat)"
  by (metis of_char_mod_256 mod_less_divisor zero_less_numeral)

lemma key_of_lit [simp]: "key_of (lit k) = Some k"
  by (auto simp: key_of_def lit_def map_idI of_char_bound)

lemma key_scalar: "\<forall>c \<in> set (lit k). scalar c"
proof -
  have "scalar (of_char c)" for c using of_char_bound [of c] unfolding scalar_def by linarith
  then show ?thesis by (simp add: lit_def)
qed

lemma read_space [simp]:
  "read_value n (32 # cs) = read_value n cs" "read_items n (32 # cs) = read_items n cs"
  "read_members n (32 # cs) = read_members n cs"
proof -
  show v: "read_value n (32 # cs) = read_value n cs" for n by (cases n) simp_all
  show "read_items n (32 # cs) = read_items n cs" by (cases n) (simp_all add: v)
  show "read_members n (32 # cs) = read_members n cs" by (cases n) simp_all
qed

text \<open>The lists of values and of members, given that each value is read back.\<close>

lemma read_items_joined:
  assumes "xs \<noteq> []"
    and "\<And>x m r. x \<in> set xs \<Longrightarrow> length (dumps x) \<le> m \<Longrightarrow> ends_number r \<Longrightarrow>
      read_value m (dumps x @ r) = Some (x, r)"
    and "length (join (lit '', '') (map dumps xs)) < n"
  shows "read_items n (join (lit '', '') (map dumps xs) @ 93 # rest) = Some (xs, rest)"
  using assms
proof (induction xs arbitrary: n)
  case (Cons x xs)
  obtain m where n: "n = Suc m" using Cons.prems(3) by (cases n) auto
  have sep: "lit '', '' = [44, 32]" by (simp add: lit_def)
  show ?case
  proof (cases "xs = []")
    case True
    have "read_value m (dumps x @ 93 # rest) = Some (x, 93 # rest)"
      using Cons.prems(3) by (intro Cons.prems(2)) (simp_all add: n True ends_number_def is_digit_def)
    then show ?thesis by (simp add: n True)
  next
    case False
    let ?tail = "join (lit '', '') (map dumps xs) @ 93 # rest"
    have j: "join (lit '', '') (map dumps (x # xs)) = dumps x @ lit '', '' @ join (lit '', '') (map dumps xs)"
      using False by (simp add: join_Cons2)
    have len: "length (dumps x) \<le> m" "length (join (lit '', '') (map dumps xs)) < m"
      using Cons.prems(3) unfolding j by (simp_all add: n sep)
    have "read_value m (dumps x @ 44 # 32 # ?tail) = Some (x, 44 # 32 # ?tail)"
      using len(1) by (intro Cons.prems(2)) (simp_all add: ends_number_def is_digit_def)
    moreover have "read_items m ?tail = Some (xs, rest)"
      using False len(2) by (intro Cons.IH Cons.prems(2)) simp_all
    ultimately show ?thesis unfolding j by (simp add: n sep)
  qed
qed simp

lemma read_members_joined:
  assumes "kvs \<noteq> []"
    and "\<And>k v m r. (k, v) \<in> set kvs \<Longrightarrow> length (dumps v) \<le> m \<Longrightarrow> ends_number r \<Longrightarrow>
      read_value m (dumps v @ r) = Some (v, r)"
    and "length (join (lit '', '') (map (\<lambda>(k, v). json_string (lit k) @ lit '': '' @ dumps v) kvs)) < n"
  shows "read_members n (join (lit '', '') (map (\<lambda>(k, v). json_string (lit k) @ lit '': '' @ dumps v) kvs)
    @ 125 # rest) = Some (kvs, rest)"
  using assms
proof (induction kvs arbitrary: n)
  case (Cons kv kvs)
  obtain k v where kv: "kv = (k, v)" by force
  obtain m where n: "n = Suc m" using Cons.prems(3) by (cases n) auto
  let ?member = "\<lambda>(k, v). json_string (lit k) @ lit '': '' @ dumps v"
  have sep: "lit '', '' = [44, 32]" "lit '': '' = [58, 32]" by (simp_all add: lit_def)
  have str: "read_string (concat (map escape_char (lit k)) @ 34 # r) = Some (lit k, r)" for r
    by (rule read_string_escaped [OF key_scalar])
  show ?case
  proof (cases "kvs = []")
    case True
    have "read_value m (dumps v @ 125 # rest) = Some (v, 125 # rest)"
      using Cons.prems(3) by (intro Cons.prems(2) [of k]) (simp_all add: n kv True ends_number_def is_digit_def)
    then show ?thesis by (simp add: n kv True json_string_def sep str)
  next
    case False
    let ?tail = "join (lit '', '') (map ?member kvs) @ 125 # rest"
    have j: "join (lit '', '') (map ?member (kv # kvs)) =
        json_string (lit k) @ lit '': '' @ dumps v @ lit '', '' @ join (lit '', '') (map ?member kvs)"
      using False by (simp add: join_Cons2 kv)
    have len: "length (dumps v) \<le> m" "length (join (lit '', '') (map ?member kvs)) < m"
      using Cons.prems(3) unfolding j by (simp_all add: n sep)
    have "read_value m (dumps v @ 44 # 32 # ?tail) = Some (v, 44 # 32 # ?tail)"
      using len(1) by (intro Cons.prems(2) [of k]) (simp_all add: kv ends_number_def is_digit_def)
    moreover have "read_members m ?tail = Some (kvs, rest)"
      using False len(2) by (intro Cons.IH Cons.prems(2)) auto
    ultimately show ?thesis unfolding j by (simp add: n kv json_string_def sep str)
  qed
qed simp

lemma read_dumped:
  "clean j \<Longrightarrow> length (dumps j) \<le> n \<Longrightarrow> ends_number rest \<Longrightarrow> read_value n (dumps j @ rest) = Some (j, rest)"
proof (induction j arbitrary: n rest rule: dumps.induct)
  case 1
  then show ?case by (cases n) (simp_all add: lit_def)
next
  case (2 i)
  obtain h t where h: "show_int i = h # t" "h \<notin> {32, 9, 10, 13, 34, 91, 123, 110}"
    using show_int_Cons by blast
  then obtain m where "n = Suc m" using 2 by (cases n) auto
  then show ?case using h read_int_shown [OF 2(3), of i] by simp
next
  case (3 s)
  then obtain m where "n = Suc m" by (cases n) (auto simp: json_string_def)
  then show ?case using 3 read_string_escaped [of s rest] by (simp add: json_string_def)
next
  case (4 xs)
  then obtain m where n: "n = Suc m" by (cases n) auto
  show ?case
  proof (cases "xs = []")
    case False
    then obtain x ys where xs: "xs = x # ys" by (cases xs) auto
    have "read_items m (join (lit '', '') (map dumps xs) @ 93 # rest) = Some (xs, rest)"
      using False 4 by (intro read_items_joined) (auto simp: n)
    moreover have "\<exists>h t. join (lit '', '') (map dumps xs) = h # t \<and> h \<notin> {32, 9, 10, 13, 93}"
      using dumps_Cons [of x] by (cases ys) (auto simp: xs)
    ultimately show ?thesis by (auto simp: n)
  qed (simp add: n)
next
  case (5 kvs)
  then obtain m where n: "n = Suc m" by (cases n) auto
  let ?member = "\<lambda>(k, v). json_string (lit k) @ lit '': '' @ dumps v"
  show ?case
  proof (cases "kvs = []")
    case False
    then obtain kv ys where kvs: "kvs = kv # ys" by (cases kvs) auto
    have "read_members m (join (lit '', '') (map ?member kvs) @ 125 # rest) = Some (kvs, rest)"
      using False 5 by (intro read_members_joined) (auto simp: n)
    moreover have "\<exists>t. join (lit '', '') (map ?member kvs) = 34 # t"
      by (cases ys; cases kv) (auto simp: kvs json_string_def)
    ultimately show ?thesis by (auto simp: n)
  qed (simp add: n)
qed

text \<open>Reading back what \<^verbatim>\<open>json.dumps\<close> wrote gives the same value, for
  every value whose text consists of Unicode scalar values -- escapes, control characters and
  characters beyond the basic plane included.\<close>

lemma loads_dumps:
  assumes "clean j"
  shows "loads (dumps j) = Some j"
proof -
  have "read_value (length (dumps j)) (dumps j @ []) = Some (j, [])"
    by (rule read_dumped [OF assms]) (simp_all add: ends_number_def)
  then show ?thesis by (simp add: loads_def)
qed

end
