(* ===== verification/Loading.thy ===== *)
theory Loading
  imports Runners
begin

text \<open>
  \<^verbatim>\<open>src/model_server/qwen.py\<close> and \<^verbatim>\<open>load_qwen_runner\<close> of \<^verbatim>\<open>src/model_server/runners.py\<close>: which
  device and dtype the weights are loaded with, and the runner made of them.  The hub
  (\<^verbatim>\<open>AutoTokenizer\<close>, \<^verbatim>\<open>AutoModelForCausalLM\<close>) is an argument: a tokenizer per model id, and per
  model id, dtype and device a generation config and a forward pass.
\<close>

datatype dtype = Bfloat16 | Float32

definition default_model_id :: ustring where
  "default_model_id = lit ''Qwen/Qwen3-0.6B''"

definition pick_dtype :: "ustring \<Rightarrow> dtype" where
  "pick_dtype device = (if take 4 device = lit ''cuda'' then Bfloat16 else Float32)"

record ('v, 'k, 'g) hub =
  hub_tokenizer :: "ustring \<Rightarrow> tokenizer"
  hub_model :: "ustring \<Rightarrow> dtype \<Rightarrow> ustring \<Rightarrow> eos_setting option option \<times> ('v, 'k) forward"
  hub_torch :: "('v, 'g) torch"
  hub_rng :: 'g
  cuda_available :: bool

text \<open>\<^verbatim>\<open>device or (...)\<close>: no device and the empty string both mean the default.\<close>

definition resolve_device :: "('v, 'k, 'g) hub \<Rightarrow> ustring option \<Rightarrow> ustring" where
  "resolve_device H device =
     (case device of
        Some d \<Rightarrow> if d = [] then (if cuda_available H then lit ''cuda'' else lit ''cpu'') else d
      | None \<Rightarrow> if cuda_available H then lit ''cuda'' else lit ''cpu'')"

definition load_qwen ::
  "('v, 'k, 'g) hub \<Rightarrow> ustring \<Rightarrow> ustring option
    \<Rightarrow> (eos_setting option option \<times> ('v, 'k) forward) \<times> tokenizer" where
  "load_qwen H model_id device =
     (let d = resolve_device H device
      in (hub_model H model_id (pick_dtype d) d, hub_tokenizer H model_id))"

text \<open>The new runner starts without a cache.\<close>

definition load_qwen_runner ::
  "('v, 'k, 'g) hub \<Rightarrow> ustring \<Rightarrow> bool \<Rightarrow> ('k, 'g) qwen_state runner \<times> ('k, 'g) qwen_state" where
  "load_qwen_runner H model_id thinking =
     (let ((generation_config, forward), tok) = load_qwen H model_id None
      in (qwen_runner tok generation_config forward (hub_torch H) thinking,
          \<lparr>cache = None, rng = hub_rng H\<rparr>))"

lemma load_qwen_runner_parts:
  obtains tok gc forward where
    "load_qwen_runner H model_id thinking =
       (qwen_runner tok gc forward (hub_torch H) thinking, \<lparr>cache = None, rng = hub_rng H\<rparr>)"
proof -
  obtain gc forward where "hub_model H model_id (pick_dtype (resolve_device H None)) (resolve_device H None) = (gc, forward)"
    by force
  then show thesis by (intro that) (simp add: load_qwen_runner_def load_qwen_def Let_def)
qed

end
