(* ===== verification/Gateway.thy ===== *)
theory Gateway
  imports Engine Json_Reader Loading
begin

text \<open>
  \<^verbatim>\<open>src/model_server/main.py\<close>: the request schema, the lifecycle of the loop task, and the
  handlers of \<^verbatim>\<open>/health\<close>, \<^verbatim>\<open>/v1/completions\<close> and \<^verbatim>\<open>/metrics\<close>.  FastAPI and pydantic call this
  code and are not modelled; a validated body satisfies the declared field constraints, and a
  rejected one comes with a non-empty list of errors.  The id and the creation time of a
  completion are arguments.
\<close>

section \<open>Constants\<close>

definition mock_model_prefix :: ustring where
  "mock_model_prefix = lit ''mock/''"

definition fatal_finish_reasons :: "string set" where
  "fatal_finish_reasons = {''error'', ''cancelled''}"

text \<open>
  The double nearest to 1e-5 lies above it and no double lies between the two, so comparing
  a double with the exact rational gives the same answer.
\<close>

definition sampling_eps :: pyfloat where
  "sampling_eps = Fin (1 / 100000)"

section \<open>The request body\<close>

record completion_request =
  prompt :: ustring
  max_tokens :: int
  req_temperature :: pyfloat
  req_top_k :: "int option"
  stream :: bool

definition default_request :: completion_request where
  "default_request = \<lparr>prompt = [], max_tokens = 64, req_temperature = Fin (8 / 10),
                      req_top_k = None, stream = False\<rparr>"

text \<open>The bounds the fields declare: \<^verbatim>\<open>ge=0\<close>, \<^verbatim>\<open>ge=0.0, le=2.0\<close>, \<^verbatim>\<open>ge=-1\<close>.\<close>

definition field_constraints :: "completion_request \<Rightarrow> bool" where
  "field_constraints body \<longleftrightarrow>
     0 \<le> max_tokens body \<and>
     fle (Fin 0) (req_temperature body) \<and> fle (req_temperature body) (Fin 2) \<and>
     (case req_top_k body of None \<Rightarrow> True | Some k \<Rightarrow> -1 \<le> k)"

definition normalize_body :: "completion_request \<Rightarrow> completion_request" where
  "normalize_body body =
     (let b1 = (if flt (req_temperature body) sampling_eps
                then body\<lparr>req_temperature := Fin 0\<rparr> else body)
      in case req_top_k b1 of
           None \<Rightarrow> b1
         | Some k \<Rightarrow> if k \<le> 0 then b1\<lparr>req_top_k := None\<rparr> else b1)"

section \<open>Responses\<close>

datatype body = NoBody | JsonBody json | PlainText ustring

record http_response =
  http_status :: nat
  http_body :: body

definition error_response :: "nat \<Rightarrow> ustring \<Rightarrow> string \<Rightarrow> ustring option \<Rightarrow> http_response" where
  "error_response code message err_type param =
     \<lparr>http_status = code,
      http_body = JsonBody (JObj [(''error'', JObj
        [(''message'', JStr message), (''type'', JStr (lit err_type)),
         (''param'', (case param of None \<Rightarrow> JNull | Some p \<Rightarrow> JStr p)), (''code'', JNull)])])\<rparr>"

text \<open>A validation error: where it is (names and list positions) and what it says.\<close>

datatype loc_part = LocName ustring | LocIndex int

fun show_loc :: "loc_part \<Rightarrow> ustring" where
  "show_loc (LocName s) = s"
| "show_loc (LocIndex i) = show_int i"

definition invalid_request :: "(loc_part list \<times> ustring) list \<Rightarrow> http_response" where
  "invalid_request errors =
     (let (loc, msg) = hd errors;
          param = join (lit ''.'') (map show_loc (drop 1 loc))
      in error_response 400 msg ''invalid_request_error'' (if param = [] then None else Some param))"

section \<open>The application's state\<close>

record settings =
  model_name :: ustring
  model_id :: ustring
  load_time_seconds :: pyfloat
  set_max_batch_size :: int
  set_max_batch_tokens :: int
  enable_thinking :: bool

text \<open>
  Where the background task \<^verbatim>\<open>_load\<close> stands: at the worker thread that fetches the weights (a task
  that has no weights to fetch goes on at once), in its final sleep, or done -- with the model, or
  with an exception nobody awaits.
\<close>

datatype load_pc = Fetching | Warming | Ready | LoadFailed

record 'c app = "'c engine" +
  app_settings :: settings
  loaded :: bool
  load_task :: load_pc
  has_loop_task :: bool
  accepted :: "completion_request list"

text \<open>
  \<open>accepted\<close> holds the streaming requests whose handler has returned a \<^verbatim>\<open>StreamingResponse\<close> but
  whose generator has not been started: FastAPI keeps them, and starts them later.

  \<^verbatim>\<open>create_app\<close>: a scheduler with the configured limits, an engine over the mock runner, and no
  loop task until the lifespan starts.
\<close>

definition create_app :: "settings \<Rightarrow> 'c \<Rightarrow> 'c app" where
  "create_app st c =
     \<lparr>seqs = (\<lambda>_. blank_sequence), next_id = 0, calls = [],
      waiting = [], running = [], max_batch_size = set_max_batch_size st,
      max_batch_tokens = set_max_batch_tokens st,
      members = [], pc = NotStarted, rstate = c,
      engine_runner = mock_runner, clients = (\<lambda>_. None),
      app_settings = st, loaded = False, load_task = Fetching, has_loop_task = False, accepted = []\<rparr>"

definition lifespan_start :: "'c app \<Rightarrow> 'c app" where
  "lifespan_start s = (loop_start (rstate s) s)\<lparr>has_loop_task := True\<rparr>"

definition wants_model :: "settings \<Rightarrow> bool" where
  "wants_model st \<longleftrightarrow> model_id st \<noteq> [] \<and> \<not> starts_with mock_model_prefix (model_id st)"

text \<open>
  \<^verbatim>\<open>_load\<close> once the weights are there: cancel the loop, swap the runner, start a loop on it.
  The cancelled task runs before the new one, so the two are one step.
\<close>

definition load_swap ::
  "('v, 'k, 'g) hub \<Rightarrow> ('k, 'g) qwen_state app \<Rightarrow> ('k, 'g) qwen_state app" where
  "load_swap H s =
     (if wants_model (app_settings s)
      then let (rn, c) = load_qwen_runner H (model_id (app_settings s)) (enable_thinking (app_settings s))
           in (loop_start c ((loop_cancel s)\<lparr>engine_runner := rn\<rparr>))\<lparr>load_task := Warming\<rparr>
      else s\<lparr>load_task := Warming\<rparr>)"

definition load_fail :: "'c app \<Rightarrow> 'c app" where
  "load_fail s = (if wants_model (app_settings s) then s\<lparr>load_task := LoadFailed\<rparr> else s)"

definition load_done :: "'c app \<Rightarrow> 'c app" where
  "load_done s = s\<lparr>loaded := True, load_task := Ready\<rparr>"

definition lifespan_stop :: "'c app \<Rightarrow> 'c app" where
  "lifespan_stop s = loop_cancel s"

definition loop_is_dead :: "'c app \<Rightarrow> bool" where
  "loop_is_dead s \<longleftrightarrow> \<not> has_loop_task s \<or> (case pc s of Stopped e \<Rightarrow> True | _ \<Rightarrow> False)"

section \<open>Handlers\<close>

definition health :: "'c app \<Rightarrow> http_response" where
  "health s =
     (if \<not> loaded s then \<lparr>http_status = 503, http_body = NoBody\<rparr>
      else if loop_is_dead s then \<lparr>http_status = 503, http_body = NoBody\<rparr>
      else \<lparr>http_status = 200, http_body = JsonBody (JObj
              [(''status'', JStr (lit ''ok'')), (''model'', JStr (model_name (app_settings s)))])\<rparr>)"

text \<open>
  The first half of \<^verbatim>\<open>completions\<close>, up to its first \<^verbatim>\<open>await\<close>: refuse, hand back a stream whose
  generator has not run yet, or submit the request and wait.
\<close>

datatype 'c handled =
    Refused http_response
  | StreamLater "'c app"
  | Submitted "'c app"

definition completions :: "completion_request \<Rightarrow> nat \<Rightarrow> 'c app \<Rightarrow> 'c handled" where
  "completions body ev s =
     (if loop_is_dead s
      then Refused (error_response 503 (lit ''the inference loop is not running'') ''service_unavailable'' None)
      else if stream body then StreamLater (s\<lparr>accepted := accepted s @ [body]\<rparr>)
      else Submitted (start_request False (prompt body) (max_tokens body) (req_temperature body)
                        (req_top_k body) (Inr ev) s))"

text \<open>The generator of an accepted stream takes its first step: it submits.\<close>

definition stream_begins :: "nat \<Rightarrow> nat \<Rightarrow> 'c app \<Rightarrow> 'c app option" where
  "stream_begins i ev s =
     (if i < length (accepted s) then
        let body = accepted s ! i in
        Some (start_request True (prompt body) (max_tokens body) (req_temperature body)
                (req_top_k body) (Inr ev)
                (s\<lparr>accepted := take i (accepted s) @ drop (Suc i) (accepted s)\<rparr>))
      else None)"

text \<open>A client that leaves before its generator has started leaves nothing behind.\<close>

definition drop_stream :: "nat \<Rightarrow> 'c app \<Rightarrow> 'c app" where
  "drop_stream i s = s\<lparr>accepted := take i (accepted s) @ drop (Suc i) (accepted s)\<rparr>"

definition reason_json :: "string option \<Rightarrow> json" where
  "reason_json reason = (case reason of None \<Rightarrow> JNull | Some r \<Rightarrow> JStr (lit r))"

definition choice_json :: "ustring \<Rightarrow> string option \<Rightarrow> json" where
  "choice_json txt reason =
     JObj [(''text'', JStr txt), (''index'', JInt 0), (''logprobs'', JNull),
           (''finish_reason'', reason_json reason)]"

text \<open>The second half, with the completion the engine returned.\<close>

definition completions_result :: "ustring \<Rightarrow> int \<Rightarrow> settings \<Rightarrow> completion \<Rightarrow> http_response" where
  "completions_result cmpl_id created st result =
     (if comp_reason result \<in> fatal_finish_reasons
      then error_response 500 (lit ''generation failed: '' @ lit (comp_reason result))
             ''internal_server_error'' None
      else \<lparr>http_status = 200, http_body = JsonBody (JObj
        [(''id'', JStr cmpl_id), (''object'', JStr (lit ''text_completion'')),
         (''created'', JInt created), (''model'', JStr (model_name st)),
         (''choices'', JList [choice_json (comp_text result) (Some (comp_reason result))]),
         (''usage'', JObj
           [(''prompt_tokens'', JInt (int (prompt_tokens result))),
            (''completion_tokens'', JInt (int (completion_tokens result))),
            (''total_tokens'', JInt (int (prompt_tokens result) + int (completion_tokens result)))])])\<rparr>)"

definition chunk_payload :: "ustring \<Rightarrow> int \<Rightarrow> settings \<Rightarrow> ustring \<Rightarrow> string option \<Rightarrow> json" where
  "chunk_payload cmpl_id created st txt reason =
     JObj
       [(''id'', JStr cmpl_id), (''object'', JStr (lit ''text_completion'')),
        (''created'', JInt created), (''model'', JStr (model_name st)),
        (''choices'', JList [choice_json txt reason])]"

definition chunk_frame :: "ustring \<Rightarrow> int \<Rightarrow> settings \<Rightarrow> ustring \<Rightarrow> string option \<Rightarrow> ustring" where
  "chunk_frame cmpl_id created st txt reason =
     sse_data (dumps (chunk_payload cmpl_id created st txt reason))"

text \<open>
  \<^verbatim>\<open>_stream\<close> over the chunks the engine yields: what it has written, and the error that breaks
  the body off, if one does.
\<close>

fun stream_body ::
  "ustring \<Rightarrow> int \<Rightarrow> settings \<Rightarrow> stream_chunk list \<Rightarrow> ustring list \<times> exn option" where
  "stream_body cmpl_id created st [] = ([sse_data sse_done], None)"
| "stream_body cmpl_id created st (piece # pieces) =
     (case chunk_reason piece of
        Some reason \<Rightarrow>
          if reason \<in> fatal_finish_reasons
          then ([], Some (OtherException (''generation failed: '' @ reason)))
          else (let (out, err) = stream_body cmpl_id created st pieces
                in (chunk_frame cmpl_id created st (chunk_text piece) (Some reason) # out, err))
      | None \<Rightarrow>
          (let (out, err) = stream_body cmpl_id created st pieces
           in (chunk_frame cmpl_id created st (chunk_text piece) None # out, err)))"

definition metrics :: "'c app \<Rightarrow> http_response" where
  "metrics s =
     (let (n_running, n_waiting) = stats s in
      \<lparr>http_status = 200,
       http_body = PlainText (metrics_text (model_name (app_settings s)) n_running n_waiting)\<rparr>)"

section \<open>What the clients read\<close>

text \<open>The chunks a stream gets to send: those before the first fatal reason.\<close>

definition fatal_chunk :: "stream_chunk \<Rightarrow> bool" where
  "fatal_chunk p \<longleftrightarrow> (case chunk_reason p of None \<Rightarrow> False | Some r \<Rightarrow> r \<in> fatal_finish_reasons)"

lemma stream_body_Cons:
  "stream_body i n st (p # ps) =
     (if fatal_chunk p then ([], Some (OtherException (''generation failed: '' @ the (chunk_reason p))))
      else (chunk_frame i n st (chunk_text p) (chunk_reason p) # fst (stream_body i n st ps),
            snd (stream_body i n st ps)))"
  by (simp add: fatal_chunk_def split: option.split prod.split)

lemma stream_body_frames:
  "fst (stream_body i n st ps) =
     map sse_data (map (\<lambda>p. dumps (chunk_payload i n st (chunk_text p) (chunk_reason p)))
       (takeWhile (\<lambda>p. \<not> fatal_chunk p) ps) @ (if list_ex fatal_chunk ps then [] else [sse_done]))"
  by (induction ps) (simp_all add: stream_body_Cons chunk_frame_def del: stream_body.simps(2))

lemma stream_body_error: "(snd (stream_body i n st ps) = None) = (\<not> list_ex fatal_chunk ps)"
  by (induction ps) (simp_all add: stream_body_Cons del: stream_body.simps(2))

lemma stream_payloads:
  "sse_payloads (concat (fst (stream_body i n st ps))) =
     map (\<lambda>p. dumps (chunk_payload i n st (chunk_text p) (chunk_reason p)))
       (takeWhile (\<lambda>p. \<not> fatal_chunk p) ps) @ (if list_ex fatal_chunk ps then [] else [sse_done])"
proof -
  have "printable sse_done" by (simp add: sse_done_def lit_def)
  then have "\<forall>q \<in> set (map (\<lambda>p. dumps (chunk_payload i n st (chunk_text p) (chunk_reason p)))
      (takeWhile (\<lambda>p. \<not> fatal_chunk p) ps) @ (if list_ex fatal_chunk ps then [] else [sse_done])). printable q"
    by auto
  from sse_payloads_frames [OF this] show ?thesis by (simp add: stream_body_frames)
qed

text \<open>C18: the stream on the wire.  A client that splits the body into lines and keeps those with the
  \<^verbatim>\<open>data: \<close> prefix reads exactly the JSON payloads of the chunks, in order and one each, whatever
  characters text, id and model name contain; \<^verbatim>\<open>[DONE]\<close> is the last payload exactly if no chunk has a
  fatal reason, and otherwise the body breaks off before the first such chunk with an exception.\<close>

theorem stream_body_read_back:
  "sse_payloads (concat (fst (stream_body i n st ps))) =
     map (\<lambda>p. dumps (chunk_payload i n st (chunk_text p) (chunk_reason p)))
       (takeWhile (\<lambda>p. \<not> fatal_chunk p) ps) @ (if list_ex fatal_chunk ps then [] else [sse_done]) \<and>
   (snd (stream_body i n st ps) = None) = (\<not> list_ex fatal_chunk ps)"
  by (simp add: stream_payloads stream_body_error)

text \<open>C19: nothing is lost on the wire.  If the id, the model's name and the texts are Unicode scalar
  values -- quotes, control characters and characters beyond the basic plane included --, a client
  that parses the payloads of the stream gets back the very chunk objects the server built; only
  \<^verbatim>\<open>[DONE]\<close> does not parse.\<close>

theorem stream_values_read_back:
  assumes "list_all scalar (i @ model_name st @ concat (map chunk_text ps))"
  shows "map loads (sse_payloads (concat (fst (stream_body i n st ps)))) =
     map (\<lambda>p. Some (chunk_payload i n st (chunk_text p) (chunk_reason p)))
       (takeWhile (\<lambda>p. \<not> fatal_chunk p) ps) @ (if list_ex fatal_chunk ps then [] else [None])"
proof -
  have reason: "clean (reason_json x)" for x
    by (auto simp: reason_json_def key_scalar split: option.split)
  have "clean (chunk_payload i n st (chunk_text p) (chunk_reason p))" if "p \<in> set ps" for p
    using assms that reason by (auto simp: chunk_payload_def choice_json_def list_all_iff key_scalar)
  then have "map (\<lambda>p. loads (dumps (chunk_payload i n st (chunk_text p) (chunk_reason p))))
      (takeWhile (\<lambda>p. \<not> fatal_chunk p) ps) =
    map (\<lambda>p. Some (chunk_payload i n st (chunk_text p) (chunk_reason p))) (takeWhile (\<lambda>p. \<not> fatal_chunk p) ps)"
    by (auto simp: loads_dumps dest: set_takeWhileD)
  moreover have "loads sse_done = None" by code_simp
  ultimately show ?thesis by (simp add: stream_payloads comp_def)
qed

lemma stream_values_read_back_witness:
  "map loads (sse_payloads (concat (fst (stream_body [97] 0 \<lparr>model_name = [109], model_id = [],
      load_time_seconds = Fin 20, set_max_batch_size = 8, set_max_batch_tokens = 8192, enable_thinking = False\<rparr>
      [\<lparr>chunk_text = [128512, 34], chunk_reason = None\<rparr>, \<lparr>chunk_text = [], chunk_reason = Some ''stop''\<rparr>])))) =
   [Some (JObj [(''id'', JStr [97]), (''object'', JStr (lit ''text_completion'')), (''created'', JInt 0),
      (''model'', JStr [109]), (''choices'', JList [choice_json [128512, 34] None])]),
    Some (JObj [(''id'', JStr [97]), (''object'', JStr (lit ''text_completion'')), (''created'', JInt 0),
      (''model'', JStr [109]), (''choices'', JList [choice_json [] (Some ''stop'')])]), None]"
  by (subst stream_values_read_back)
    (simp_all add: scalar_def fatal_chunk_def fatal_finish_reasons_def chunk_payload_def)

text \<open>C20: the metrics on the wire.  If the model's name has no line break, the scraper finds both gauges
  in the text of \<^verbatim>\<open>/metrics\<close>, with the values of the scheduler's counters.\<close>

theorem metrics_read_back:
  assumes "\<forall>c \<in> set (model_name (app_settings s)). \<not> line_break c"
  shows "\<exists>txt. metrics s = \<lparr>http_status = 200, http_body = PlainText txt\<rparr> \<and>
    metric_value txt ''vllm:num_requests_running'' = Inr (num_running s) \<and>
    metric_value txt ''vllm:num_requests_waiting'' = Inr (num_waiting s)"
  using metric_values [OF assms] by (simp add: metrics_def stats_def)

lemma metrics_read_back_witness:
  "\<exists>txt. metrics (create_app \<lparr>model_name = lit ''Qwen/Qwen3-0.6B'', model_id = [],
      load_time_seconds = Fin 20, set_max_batch_size = 8, set_max_batch_tokens = 8192,
      enable_thinking = False\<rparr> ()) = \<lparr>http_status = 200, http_body = PlainText txt\<rparr> \<and>
    metric_value txt ''vllm:num_requests_running'' = Inr 0 \<and>
    metric_value txt ''vllm:num_requests_waiting'' = Inr 0"
  using metrics_read_back [of "create_app \<lparr>model_name = lit ''Qwen/Qwen3-0.6B'', model_id = [],
      load_time_seconds = Fin 20, set_max_batch_size = 8, set_max_batch_tokens = 8192,
      enable_thinking = False\<rparr> ()"]
  by (simp add: create_app_def lit_def line_break_def num_running_def num_waiting_def)

end
