(* ===== verification/Server.thy ===== *)
theory Server
  imports Gateway
begin

text \<open>
  The whole server as a transition system.  Everything but the worker thread runs on one
  event loop, so a step is what one callback or coroutine does between two awaits: a handler
  takes a request, a generator begins, a request's coroutine reads an item, a client goes
  away, the loop is resumed or cancelled, the model arrives, or a pending callback runs.
\<close>

section \<open>Steps\<close>

datatype event =
    Post completion_request nat
  | StreamBegins nat nat
  | Resume nat
  | HangUp nat
  | LoopRuns
  | StreamDropped nat
  | Shutdown
  | ModelArrives
  | ModelFails
  | LoadDone
  | Callback

definition handled_state :: "'c handled \<Rightarrow> 'c app \<Rightarrow> 'c app" where
  "handled_state h s = (case h of Refused resp \<Rightarrow> s | StreamLater t \<Rightarrow> t | Submitted t \<Rightarrow> t)"

inductive serve ::
  "('v, 'k, 'g) hub \<Rightarrow> ('k, 'g) qwen_state app \<Rightarrow> event \<Rightarrow> ('k, 'g) qwen_state app \<Rightarrow> bool"
  for H :: "('v, 'k, 'g) hub" where
  post: "field_constraints body \<Longrightarrow>
    serve H s (Post body ev) (handled_state (completions (normalize_body body) ev s) s)"
| begins: "stream_begins i ev s = Some t \<Longrightarrow> serve H s (StreamBegins i ev) t"
| resume: "resume_request r s = Some t \<Longrightarrow> serve H s (Resume r) t"
| hangup: "serve H s (HangUp r) (disconnect r s)"
| runs: "loop_resume (engine_runner s) s = Some t \<Longrightarrow> serve H s LoopRuns t"
| dropped: "serve H s (StreamDropped i) (drop_stream i s)"
| shutdown: "serve H s Shutdown (lifespan_stop s)"
| arrives: "load_task s = Fetching \<Longrightarrow> serve H s ModelArrives (load_swap H s)"
| fails: "load_task s = Fetching \<Longrightarrow> serve H s ModelFails (load_fail s)"
| loads: "load_task s = Warming \<Longrightarrow> serve H s LoadDone (load_done s)"
| callback: "calls s \<noteq> [] \<Longrightarrow> serve H s Callback (deliver s)"

inductive_cases serveE: "serve H s e t"
inductive_simps serve_runs_simp: "serve H s LoopRuns t"
inductive_simps serve_resume_simp: "serve H s (Resume r) t"

text \<open>A server that has just started, with room for at least one request.\<close>

definition started :: "'c app \<Rightarrow> bool" where
  "started s \<longleftrightarrow> (\<exists>st c. 1 \<le> set_max_batch_size st \<and> s = lifespan_start (create_app st c))"

abbreviation reachable :: "('v, 'k, 'g) hub \<Rightarrow> ('k, 'g) qwen_state app \<Rightarrow> bool" where
  "reachable H \<equiv> reach started (serve H)"

section \<open>What every reachable state satisfies\<close>

text \<open>
  A request whose coroutine is still waiting has been sent exactly the tokens of its output,
  counting those read, those in its queue and those on the way; the sentinel follows them as
  soon as there is a finish reason, and not before.
\<close>

definition history :: "nat \<Rightarrow> client \<Rightarrow> 'a store_scheme \<Rightarrow> int option list" where
  "history r c s = got c @ channel r s"

definition client_ok :: "nat \<Rightarrow> client \<Rightarrow> 'a store_scheme \<Rightarrow> bool" where
  "client_ok r c s \<longleftrightarrow>
     None \<notin> set (got c) \<and> finish_reason (seqs s r) \<noteq> ''cancelled'' \<and>
     before_none (history r c s) = output_ids (seqs s r) \<and>
     (None \<in> set (history r c s) \<longleftrightarrow> is_finished (seqs s r))"

definition clients_inv :: "('c, 'z) engine_scheme \<Rightarrow> bool" where
  "clients_inv s \<longleftrightarrow>
     (\<forall>r c. clients s r = Some c \<longrightarrow> r < next_id s \<and> (outcome c = Pending \<longrightarrow> client_ok r c s))"

definition server_inv :: "'c app \<Rightarrow> bool" where
  "server_inv s \<longleftrightarrow>
     loop_inv s \<and> rows_ok (engine_runner s) \<and> 1 \<le> max_batch_size s \<and>
     int (length (running s)) \<le> max_batch_size s \<and> clients_inv s"

section \<open>Clients through the steps of the layers below\<close>

text \<open>
  A waiting client's view only depends on its channel and on the progress of its sequence; it
  survives a step that leaves both alone, appends a token to both, or finishes the sequence
  and appends the sentinel.
\<close>

lemma history_append: "channel r t = channel r s @ xs \<Longrightarrow> history r c t = history r c s @ xs"
  by (simp add: history_def)

lemma history_same: "channel r t = channel r s \<Longrightarrow> history r c t = history r c s"
  by (simp add: history_def)

lemma client_ok_same:
  assumes "client_ok r c s" "channel r t = channel r s"
    "output_ids (seqs t r) = output_ids (seqs s r)" "finish_reason (seqs t r) = finish_reason (seqs s r)"
  shows "client_ok r c t"
  using assms(1,3,4) by (simp add: client_ok_def history_same [OF assms(2)] is_finished_def)

lemma client_ok_token:
  assumes "client_ok r c s" "\<not> is_finished (seqs s r)"
    and ch: "channel r t = channel r s @ Some x # (if finish_reason (seqs t r) \<noteq> '''' then [None] else [])"
    and "output_ids (seqs t r) = output_ids (seqs s r) @ [x]" "finish_reason (seqs t r) \<noteq> ''cancelled''"
  shows "client_ok r c t"
  using assms(1,2,4,5)
  by (auto simp: client_ok_def history_append [OF ch] is_finished_def before_none_append)

lemma client_ok_end:
  assumes "client_ok r c s" and ch: "channel r t = channel r s @ [None]"
    and "output_ids (seqs t r) = output_ids (seqs s r)"
    and "finish_reason (seqs t r) = (if is_finished (seqs s r) then finish_reason (seqs s r) else ''error'')"
  shows "client_ok r c t"
  using assms(1,3,4)
  by (cases "None \<in> set (history r c s)")
    (auto simp: client_ok_def history_append [OF ch] is_finished_def before_none_append)

lemma client_ok_more [simp]:
  "client_ok r c (u\<lparr>rstate := x\<rparr>) = client_ok r c u" "client_ok r c (u\<lparr>pc := p\<rparr>) = client_ok r c u"
  "client_ok r c (u\<lparr>members := m\<rparr>) = client_ok r c u"
  by (simp_all add: client_ok_def history_def)

lemma client_ok_loop_next: "client_ok r c (loop_next rn s) = client_ok r c s"
  by (simp add: client_ok_def history_def)

lemma client_ok_raise:
  assumes "sched_inv s" "client_ok r c s"
  shows "client_ok r c (loop_raise e s)"
proof (cases "r \<in> set (running s @ waiting s)")
  case True
  with assms show ?thesis
    by (intro client_ok_end [OF assms(2)]) (auto simp: channel_loop_raise loop_raise_seqs)
next
  case False
  with assms show ?thesis
    by (intro client_ok_same [OF assms(2)]) (auto simp: channel_loop_raise loop_raise_seqs)
qed

lemma client_ok_record:
  assumes inv: "sched_inv s" and ok: "client_ok r c s" and batch: "batch = running s"
    and len: "length rows = length batch"
    and reasons: "\<forall>q \<in> set batch. finish_reason (seqs s q) \<in> {'''', ''cancelled''}"
  shows "client_ok r c (loop_record batch current rows s)"
proof (cases "r \<in> set batch")
  case False
  have "calls_ok s" using inv by (simp add: sched_inv_def store_inv_def)
  with False show ?thesis
    by (intro client_ok_same [OF ok]) (simp_all add: channel_loop_record_other loop_record_other)
next
  case True
  have dist: "distinct batch" and calls: "calls_ok s"
    using inv batch by (auto simp: sched_inv_def store_inv_def)
  have fin: "finish_reason (seqs s r) = ''''"
    using ok reasons True by (auto simp: client_ok_def)
  have "r \<in> set (map fst (zip batch rows))" using True len by simp
  then obtain tok where tok: "(r, tok) \<in> set (zip batch rows)" by auto
  show ?thesis
  proof (cases tok)
    case None
    with tok dist calls fin show ?thesis
      by (intro client_ok_end [OF ok])
        (simp_all add: channel_loop_record_casualty loop_record_casualty is_finished_def)
  next
    case (Some t)
    note row = tok [unfolded Some]
    have "verdict (seqs s r) t \<noteq> ''cancelled''" using fin by (simp add: verdict_def)
    with row dist calls fin show ?thesis
      by (intro client_ok_token [OF ok, of _ t])
        (simp_all add: channel_loop_record_survivor loop_record_survivor is_finished_def)
  qed
qed

lemma client_ok_loop_step:
  assumes inv: "loop_inv s" and rn: "rows_ok rn" and ok: "client_ok r c s"
  shows "client_ok r c (loop_step rn s)"
proof (cases "pc s")
  case (Executing b current)
  obtain res c' where ex: "execute rn (seqs s) b (rstate s) = (res, c')" by force
  have ok': "client_ok r c (s\<lparr>rstate := c'\<rparr>)" using ok by simp
  have si: "sched_inv (s\<lparr>rstate := c'\<rparr>)" using inv by (simp add: loop_inv_def)
  show ?thesis
  proof (cases res)
    case (Inl e)
    with Executing ex client_ok_raise [OF si ok'] show ?thesis by (simp add: loop_step_def)
  next
    case (Inr rows)
    have "length rows = length (fb_seqs b)" using rn ex [unfolded Inr] by (rule rows_okD)
    moreover have "fb_seqs b = running s"
      "\<forall>q \<in> set (running s). finish_reason (seqs s q) \<in> {'''', ''cancelled''}"
      using inv Executing by (auto simp: loop_inv_def executing_ok_def)
    ultimately have "client_ok r c (loop_record (fb_seqs b) current rows (s\<lparr>rstate := c'\<rparr>))"
      by (intro client_ok_record [OF si ok']) simp_all
    with Executing ex Inr show ?thesis by (simp add: loop_step_def client_ok_loop_next)
  qed
qed (use ok in \<open>simp_all add: loop_step_def client_ok_loop_next\<close>)

lemma client_ok_loop_cancel:
  "loop_inv s \<Longrightarrow> client_ok r c s \<Longrightarrow> client_ok r c (loop_cancel s)"
  using client_ok_raise [of s r c CancelledError]
  by (cases "pc s") (simp_all add: loop_cancel_def loop_inv_def)

section \<open>Every step of the server keeps the invariant\<close>

lemma server_inv_more [simp]:
  "server_inv (s\<lparr>accepted := a\<rparr>) = server_inv s" "server_inv (s\<lparr>loaded := b\<rparr>) = server_inv s"
  "server_inv (s\<lparr>has_loop_task := d\<rparr>) = server_inv s" "server_inv (s\<lparr>load_task := l\<rparr>) = server_inv s"
  by (simp_all add: server_inv_def clients_inv_def client_ok_def history_def channel_def loop_inv_def
      sched_inv_def store_inv_def calls_ok_def none_lost_def executing_ok_def split: loop_pc.split)

lemma clients_inv_mono:
  assumes "clients_inv s" "clients t = clients s" "next_id s \<le> next_id t"
    and "\<And>r c. r < next_id s \<Longrightarrow> client_ok r c s \<Longrightarrow> client_ok r c t"
  shows "clients_inv t"
  using assms by (auto simp: clients_inv_def intro: less_le_trans)

lemma client_ok_set_client [simp]: "client_ok q d (set_client r c s) = client_ok q d s"
  by (simp add: client_ok_def history_def)

text \<open>After a step that changes the entry of one client, only that client has to be looked at.\<close>

lemma clients_inv_set_client:
  assumes "clients_inv s" "r < next_id s" "clients t = clients s" "next_id s \<le> next_id t"
    and "outcome c = Pending \<Longrightarrow> client_ok r c t"
    and "\<And>q d. q < next_id s \<Longrightarrow> q \<noteq> r \<Longrightarrow> client_ok q d s \<Longrightarrow> client_ok q d t"
  shows "clients_inv (set_client r c t)"
  using assms by (auto simp: clients_inv_def intro: less_le_trans)

lemma clients_inv_D:
  "clients_inv s \<Longrightarrow> clients s r = Some c \<Longrightarrow> r < next_id s"
  "clients_inv s \<Longrightarrow> clients s r = Some c \<Longrightarrow> outcome c = Pending \<Longrightarrow> client_ok r c s"
  by (auto simp: clients_inv_def)

lemma server_inv_D:
  assumes "server_inv s"
  shows "loop_inv s" "sched_inv s" "store_inv s" "calls_ok s" "clients_inv s" "1 \<le> max_batch_size s"
    "rows_ok (engine_runner s)" "int (length (running s)) \<le> max_batch_size s"
  using assms by (auto simp: server_inv_def loop_inv_def sched_inv_def store_inv_def)

text \<open>A request starts: a new channel, empty or already ended.\<close>

lemma start_request_inv:
  assumes inv: "server_inv s"
  shows "server_inv (start_request strm p n temp k cur s)"
proof -
  note facts = server_inv_D [OF inv]
  let ?t = "arrive (encode (engine_runner s) p) n temp k (eos_ids (engine_runner s)) cur s"
  have "clients_inv ?t"
  proof (rule clients_inv_mono [OF facts(5)])
    fix r c assume r: "r < next_id s" "client_ok r c s"
    from r(2) show "client_ok r c ?t"
      by (rule client_ok_same) (use r(1) in \<open>simp_all add: channel_arrive facts(2) arrive_other\<close>)
  qed (simp_all add: arrive_frame)
  moreover have "client_ok (next_id s) \<lparr>streaming = strm, sent = 0, chunks = [], got = [], outcome = Pending\<rparr> ?t"
    by (simp add: client_ok_def history_def channel_arrive facts(2) arrive_new is_finished_def)
  ultimately have "clients_inv (start_request strm p n temp k cur s)"
    unfolding start_request_arrive
    by (intro clients_inv_set_client) (simp_all add: arrive_frame)
  with facts show ?thesis
    by (simp add: server_inv_def start_request_arrive loop_inv_arrive arrive_frame)
qed

lemma completions_inv: "server_inv s \<Longrightarrow> server_inv (handled_state (completions b ev s) s)"
  by (simp add: handled_state_def completions_def start_request_inv)

lemma stream_begins_inv: "server_inv s \<Longrightarrow> stream_begins i ev s = Some t \<Longrightarrow> server_inv t"
  by (auto simp: stream_begins_def Let_def start_request_inv split: if_splits)

text \<open>A request's coroutine reads an item, or goes away.\<close>

lemma abort_inv:
  assumes inv: "server_inv s" and r: "r < next_id s" and c: "outcome c \<noteq> Pending"
  shows "server_inv (set_client r c (abort r ''cancelled'' s))"
proof -
  note facts = server_inv_D [OF inv]
  have "client_ok q d (abort r ''cancelled'' s)" if "q \<noteq> r" "client_ok q d s" for q d
    using that(2)
    by (rule client_ok_same) (use that(1) in \<open>simp_all add: channel_abort facts(4) abort_reason\<close>)
  then have "clients_inv (set_client r c (abort r ''cancelled'' s))"
    using r c by (intro clients_inv_set_client [OF facts(5)]) simp_all
  with facts r show ?thesis by (simp add: server_inv_def loop_inv_abort)
qed

lemma history_queue_get:
  assumes "queue_get r s = Some (item, s1)" "got c' = got c @ [item]"
  shows "history r c' s1 = history r c s"
  using queue_get_Some(1) [OF assms(1)] assms(2) by (simp add: history_def)

lemma queue_get_inv:
  assumes inv: "server_inv s" and c: "clients s r = Some c" and pending: "outcome c = Pending"
    and qg: "queue_get r s = Some (item, s1)" and got: "got c' = got c @ [item]"
    and "outcome c' = Pending \<Longrightarrow> item \<noteq> None"
  shows "server_inv (set_client r c' s1)"
proof -
  note facts = server_inv_D [OF inv] and q = queue_get_Some [OF qg]
  have "client_ok r c s" using facts(5) c pending by (rule clients_inv_D)
  then have pend: "outcome c' = Pending \<Longrightarrow> client_ok r c' s1"
    using assms(6) by (auto simp: client_ok_def history_queue_get [OF qg got] got q)
  have "client_ok p d s1" if "p \<noteq> r" "client_ok p d s" for p d
    using that(2) by (rule client_ok_same) (use q that(1) in simp_all)
  then have "clients_inv (set_client r c' s1)"
    using clients_inv_D(1) [OF facts(5) c]
    by (intro clients_inv_set_client [OF facts(5)]) (simp_all add: queue_get_engine [OF qg] q(3) pend)
  with facts show ?thesis
    by (simp add: server_inv_def loop_inv_queue_get [OF _ qg] queue_get_loop [OF qg]
        queue_get_engine [OF qg])
qed

lemma resume_inv:
  assumes inv: "server_inv s" and res: "resume_request r s = Some t"
  shows "server_inv t"
proof -
  obtain c item s1 where c: "clients s r = Some c" and pend: "outcome c = Pending"
    and qg: "queue_get r s = Some (item, s1)"
    and t: "t = (if streaming c then stream_item r c item s1 else generate_item r c item s1)"
    using res by (auto simp: resume_request_def split: option.splits if_splits)
  note step = queue_get_inv [OF inv c pend qg]
  show ?thesis
  proof (cases item)
    case (Some x)
    then show ?thesis unfolding t stream_item_def generate_item_def Let_def
      by (auto intro!: step)
  next
    case None
    have "client_ok r c s" using server_inv_D(5) [OF inv] c pend by (rule clients_inv_D)
    then have "is_finished (seqs s r)"
      using queue_get_Some(1) [OF qg] None by (auto simp: client_ok_def history_def)
    then have "abort r ''cancelled'' s1 = s1" by (simp add: abort_def queue_get_Some(7) [OF qg])
    then show ?thesis unfolding t stream_item_def generate_item_def Let_def cancel_def
      using None by (auto intro!: step)
  qed
qed

lemma disconnect_inv: "server_inv s \<Longrightarrow> server_inv (disconnect r s)"
  unfolding disconnect_def cancel_def
  by (auto intro!: abort_inv split: option.split dest: server_inv_D(5) clients_inv_D(1))

text \<open>The loop runs, dies, or is replaced.\<close>

lemma loop_step_running:
  assumes "int (length (running s)) \<le> max_batch_size s" "0 \<le> max_batch_size s"
  shows "int (length (running (loop_step rn s))) \<le> max_batch_size s"
proof -
  have filt: "length (filter P xs) \<le> length xs" for P and xs :: "nat list" by simp
  have "int (length (running (loop_next rn u))) \<le> max_batch_size u"
    if u: "int (length (running u)) \<le> max_batch_size u" for u :: "('a, 'b) run_loop_scheme"
  proof -
    let ?live = "filter (\<lambda>r. \<not> is_finished (seqs u r)) (running u)"
    have "int (length ?live) \<le> max_batch_size u"
      using filt [of "\<lambda>r. \<not> is_finished (seqs u r)" "running u"] u by linarith
    from admitted_size [OF this, of "seqs u" "max_batch_tokens u" "waiting u"]
    have "int (length (fst (schedule u))) \<le> max_batch_size u"
      by (auto simp: schedule_unfold Let_def admit_count_le min_absorb2)
    with u show ?thesis by (simp add: loop_next_def Let_def)
  qed
  note next_ok = this
  show ?thesis
  proof (cases "pc s")
    case (Executing b current)
    have "int (length (running (loop_next rn (loop_record (fb_seqs b) current rows (s\<lparr>rstate := c\<rparr>)))))
        \<le> max_batch_size s" for rows c
      using next_ok [of "loop_record (fb_seqs b) current rows (s\<lparr>rstate := c\<rparr>)"] assms by simp
    with Executing assms show ?thesis by (simp add: loop_step_def split: sum.split prod.split)
  qed (use assms next_ok [of s] in \<open>simp_all add: loop_step_def\<close>)
qed

lemma loop_step_server_inv:
  assumes inv: "server_inv s"
  shows "server_inv (loop_step (engine_runner s) s)"
proof -
  note facts = server_inv_D [OF inv]
  have "clients_inv (loop_step (engine_runner s) s)"
    using facts(5)
    by (rule clients_inv_mono) (simp_all add: client_ok_loop_step [OF facts(1) facts(7)])
  with facts show ?thesis
    by (simp add: server_inv_def loop_step_inv loop_step_running)
qed

lemma loop_cancel_frame [simp]:
  "max_batch_size (loop_cancel s) = max_batch_size s" "next_id (loop_cancel s) = next_id s"
  by (simp_all add: loop_cancel_def split: loop_pc.split)

lemma loop_cancel_inv:
  assumes inv: "server_inv s"
  shows "server_inv (loop_cancel s)"
proof -
  note facts = server_inv_D [OF inv]
  have "clients_inv (loop_cancel s)"
    using facts(5)
    by (rule clients_inv_mono) (simp_all add: client_ok_loop_cancel [OF facts(1)])
  moreover have "int (length (running (loop_cancel s))) \<le> max_batch_size s"
    using facts by (simp add: loop_cancel_def split: loop_pc.split)
  ultimately show ?thesis using facts by (simp add: server_inv_def loop_inv_cancel)
qed

lemma engine_runner_more [simp]:
  "loop_inv (s\<lparr>engine_runner := rn\<rparr>) = loop_inv s" "client_ok r c (s\<lparr>engine_runner := rn\<rparr>) = client_ok r c s"
  by (simp_all add: loop_inv_def sched_inv_def store_inv_def calls_ok_def none_lost_def executing_ok_def
      client_ok_def history_def channel_def split: loop_pc.split)

lemma loop_start_frame [simp]:
  "running (loop_start c s) = running s" "max_batch_size (loop_start c s) = max_batch_size s"
  "next_id (loop_start c s) = next_id s" "clients (loop_start c t) = clients t"
  "engine_runner (loop_start c t) = engine_runner t" "client_ok r d (loop_start c s) = client_ok r d s"
  by (simp_all add: loop_start_def client_ok_def history_def)

lemma loop_start_inv:
  assumes inv: "server_inv s" and rn: "rows_ok rn"
  shows "server_inv (loop_start c (s\<lparr>engine_runner := rn\<rparr>))"
proof -
  note facts = server_inv_D [OF inv]
  have "loop_inv (s\<lparr>engine_runner := rn\<rparr>)" using facts by simp
  then have "sched_inv (s\<lparr>engine_runner := rn\<rparr>)" "none_lost (s\<lparr>engine_runner := rn\<rparr>)"
    unfolding loop_inv_def by blast+
  then have "loop_inv (loop_start c (s\<lparr>engine_runner := rn\<rparr>))" by (rule loop_inv_start)
  moreover have "clients_inv (loop_start c (s\<lparr>engine_runner := rn\<rparr>))"
    using facts(5) by (simp add: clients_inv_def)
  ultimately show ?thesis using facts rn by (simp add: server_inv_def)
qed

lemma load_swap_inv:
  assumes "server_inv s"
  shows "server_inv (load_swap H s)"
proof (cases "wants_model (app_settings s)")
  case True
  obtain tok gc forward where
    "load_qwen_runner H (model_id (app_settings s)) (enable_thinking (app_settings s)) =
       (qwen_runner tok gc forward (hub_torch H) (enable_thinking (app_settings s)),
        \<lparr>cache = None, rng = hub_rng H\<rparr>)"
    by (rule load_qwen_runner_parts)
  moreover have "rows_ok (qwen_runner tok gc forward (hub_torch H) b)" for b
    by (rule qwen.runner_rows_ok) (simp add: qwen_runner_def)
  ultimately show ?thesis
    using True loop_cancel_inv [OF assms] by (simp add: load_swap_def loop_start_inv)
qed (use assms in \<open>simp add: load_swap_def\<close>)

lemma deliver_inv:
  assumes inv: "server_inv s"
  shows "server_inv (deliver s)"
proof -
  note facts = server_inv_D [OF inv]
  have "client_ok q d (deliver s)" if "client_ok q d s" for q d
    using that by (rule client_ok_same) (simp_all add: channel_deliver facts(4))
  then have "clients_inv (deliver s)"
    by (intro clients_inv_mono [OF facts(5)]) simp_all
  with facts show ?thesis by (simp add: server_inv_def loop_inv_deliver)
qed

lemma started_inv: "started s \<Longrightarrow> server_inv s"
proof -
  assume "started s"
  then obtain st c where *: "1 \<le> set_max_batch_size st" "s = lifespan_start (create_app st c)"
    by (auto simp: started_def)
  have "rows_ok (mock_runner :: 'a runner)"
    by (rule mock.runner_rows_ok) (simp add: mock_runner_def)
  with * show ?thesis
    by (simp add: lifespan_start_def create_app_def loop_start_def server_inv_def clients_inv_def
        loop_inv_def sched_inv_def store_inv_def calls_ok_def none_lost_def executing_ok_def)
qed

lemma serve_inv:
  assumes "server_inv s" "serve H s e t"
  shows "server_inv t"
  using assms(2)
proof cases
  case (runs)
  with assms(1) loop_resume_step [of s "engine_runner s"] show ?thesis
    by (simp add: server_inv_D loop_step_server_inv)
qed (use assms(1) in \<open>auto simp: completions_inv disconnect_inv loop_cancel_inv load_swap_inv
    load_done_def load_fail_def drop_stream_def lifespan_stop_def deliver_inv intro: stream_begins_inv resume_inv\<close>)

interpretation served: step_invariant started "serve H" server_inv for H
  by unfold_locales (auto intro: started_inv serve_inv)

section \<open>A finished request reaches its reader\<close>

text \<open>
  Once a request has its reason, the event loop's callbacks and the request's own coroutine are
  enough for its response: the sentinel is in the channel, and each of these steps brings it closer.
\<close>

definition delivery :: "('v, 'k, 'g) hub \<Rightarrow> nat \<Rightarrow> ('k, 'g) qwen_state app \<Rightarrow> ('k, 'g) qwen_state app \<Rightarrow> bool" where
  "delivery H r s t \<longleftrightarrow> serve H s Callback t \<or> serve H s (Resume r) t"

definition distance :: "nat \<Rightarrow> 'a store_scheme \<Rightarrow> nat" where
  "distance r s = 2 * length (calls s) + length (queue (seqs s r))"

lemma generate_item_client:
  "\<exists>c'. clients (generate_item r c item s) r = Some c' \<and> streaming c' = streaming c \<and>
    got c' = got c @ [item] \<and>
    outcome c' = (case item of None \<Rightarrow> Returned (build_completion (engine_runner s) (seqs (cancel r s) r))
                              | Some t \<Rightarrow> outcome c)"
  by (simp add: generate_item_def Let_def cancel_def split: option.split)

lemma stream_item_client:
  "\<exists>c'. clients (stream_item r c item s) r = Some c' \<and> streaming c' = streaming c \<and>
    got c' = got c @ [item] \<and> outcome c' = (case item of None \<Rightarrow> Ended | Some t \<Rightarrow> outcome c)"
  by (simp add: stream_item_def Let_def split: option.split)

lemma item_frame:
  "item \<noteq> None \<Longrightarrow> seqs (generate_item r c item s) = seqs s \<and> calls (generate_item r c item s) = calls s"
  "item \<noteq> None \<Longrightarrow> seqs (stream_item r c item s) = seqs s \<and> calls (stream_item r c item s) = calls s"
  by (auto simp: generate_item_def stream_item_def Let_def)

lemma resume_one:
  assumes c: "clients s r = Some c" and p: "outcome c = Pending" and qg: "queue_get r s = Some (item, s1)"
  shows "\<exists>t c'. resume_request r s = Some t \<and> clients t r = Some c' \<and>
    (if item = None then outcome c' \<noteq> Pending
     else outcome c' = Pending \<and> seqs t = seqs s1 \<and> calls t = calls s)"
proof -
  have calls: "calls s1 = calls s" by (rule queue_get_Some [OF qg])
  let ?t = "if streaming c then stream_item r c item s1 else generate_item r c item s1"
  have "resume_request r s = Some ?t" using c p qg by (simp add: resume_request_def)
  then show ?thesis
    using generate_item_client [of r c item s1] stream_item_client [of r c item s1]
      item_frame [of item r c s1] p calls
    by (cases item; cases "streaming c") auto
qed

lemma delivered_to_reader:
  assumes "server_inv s" "clients s r = Some c" "outcome c = Pending" "is_finished (seqs s r)"
  shows "\<exists>t c'. (delivery H r)\<^sup>*\<^sup>* s t \<and> clients t r = Some c' \<and> outcome c' \<noteq> Pending"
  using assms
proof (induction "distance r s" arbitrary: s c rule: less_induct)
  case less
  have ok: "client_ok r c s"
    using server_inv_D(5) [OF less.prems(1)] less.prems(2,3) by (rule clients_inv_D)
  have closer: ?case if step: "delivery H r s t" and "distance r t < distance r s"
      "clients t r = Some c'" "outcome c' = Pending" "is_finished (seqs t r)" for t c'
  proof -
    have "server_inv t" using step less.prems(1) by (auto simp: delivery_def intro: serve_inv)
    from less.hyps [OF that(2) this that(3-5)] step show ?thesis
      by (blast intro: converse_rtranclp_into_rtranclp)
  qed
  show ?case
  proof (cases "queue_get r s")
    case (Some x)
    then obtain item s1 where qg: "queue_get r s = Some (item, s1)" by (cases x) auto
    obtain t c' where t: "resume_request r s = Some t" "clients t r = Some c'"
      "if item = None then outcome c' \<noteq> Pending else outcome c' = Pending \<and> seqs t = seqs s1 \<and> calls t = calls s"
      using resume_one [OF less.prems(2,3) qg] by blast
    have step: "delivery H r s t" using t(1) by (simp add: delivery_def serve.resume)
    show ?thesis
    proof (cases item)
      case None
      with t step show ?thesis by auto
    next
      case (Some tok)
      have "length (queue (seqs s1 r)) < length (queue (seqs s r))"
        using qg by (auto simp: queue_get_def split: list.splits)
      with Some t less.prems(4) show ?thesis
        by (intro closer [OF step, of c']) (simp_all add: distance_def queue_get_Some [OF qg])
    qed
  next
    case None
    then have "queue (seqs s r) = []" by (simp add: queue_get_def split: list.splits)
    moreover have "None \<in> set (channel r s)"
      using ok less.prems(4) by (auto simp: client_ok_def history_def)
    ultimately have "calls s \<noteq> []" by (auto simp: channel_def)
    then obtain q token cs where calls: "calls s = (q, token) # cs" by (cases "calls s") auto
    have "distance r (deliver s) < distance r s"
      using calls by (simp add: distance_def deliver_def)
    then show ?thesis
      by (intro closer [of "deliver s" c])
        (use less.prems calls in \<open>simp_all add: delivery_def serve.callback\<close>)
  qed
qed

section \<open>What a step leaves alone\<close>

text \<open>
  Only the loop, its cancellation and its replacement touch where the loop stands, the runner and
  the progress of the requests there are.
\<close>

lemma quiet_start_request:
  "pc (start_request m p n temp k cur s) = pc s" "rstate (start_request m p n temp k cur s) = rstate s"
  "r < next_id s \<Longrightarrow> output_ids (seqs (start_request m p n temp k cur s) r) = output_ids (seqs s r)"
  "r < next_id s \<Longrightarrow> spec_of (seqs (start_request m p n temp k cur s) r) = spec_of (seqs s r)"
  "engine_runner (start_request m p n temp k cur s) = engine_runner s"
  by (simp_all add: start_request_arrive arrive_loop arrive_other)

lemma quiet_item:
  "pc (generate_item r c item s) = pc s" "rstate (generate_item r c item s) = rstate s"
  "output_ids (seqs (generate_item r c item s) q) = output_ids (seqs s q)"
  "spec_of (seqs (generate_item r c item s) q) = spec_of (seqs s q)"
  "engine_runner (generate_item r c item s) = engine_runner s"
  "pc (stream_item r c item s) = pc s" "rstate (stream_item r c item s) = rstate s"
  "output_ids (seqs (stream_item r c item s) q) = output_ids (seqs s q)"
  "spec_of (seqs (stream_item r c item s) q) = spec_of (seqs s q)"
  "engine_runner (stream_item r c item s) = engine_runner s"
  by (simp_all add: generate_item_def stream_item_def cancel_def Let_def split: option.split)

lemma quiet_step:
  assumes "serve H s e t" "e \<notin> {LoopRuns, Shutdown, ModelArrives}" "server_inv s"
  shows "pc t = pc s \<and> rstate t = rstate s \<and> engine_runner t = engine_runner s \<and>
    (\<forall>r < next_id s. output_ids (seqs t r) = output_ids (seqs s r) \<and> spec_of (seqs t r) = spec_of (seqs s r))"
  using assms(1)
proof cases
  case (post body ev)
  then show ?thesis by (simp add: handled_state_def completions_def quiet_start_request)
next
  case (begins i ev)
  then show ?thesis
    by (auto simp: stream_begins_def Let_def quiet_start_request split: if_splits)
next
  case (resume r)
  then obtain c item s1 where "queue_get r s = Some (item, s1)"
    "t = (if streaming c then stream_item r c item s1 else generate_item r c item s1)"
    by (auto simp: resume_request_def split: option.splits if_splits)
  then show ?thesis
    by (simp add: quiet_item queue_get_Some queue_get_loop queue_get_engine)
next
  case (hangup r)
  then show ?thesis by (simp add: disconnect_def cancel_def split: option.split)
qed (use assms(2) in \<open>simp_all add: drop_stream_def load_fail_def load_done_def\<close>)

section \<open>A request nobody serves\<close>

text \<open>
  A waiting request on a dead loop that will not be replaced: nothing in its channel, no reason.
\<close>

definition stranded :: "nat \<Rightarrow> client \<Rightarrow> 'c app \<Rightarrow> bool" where
  "stranded r c s \<longleftrightarrow>
     clients s r = Some c \<and> outcome c = Pending \<and> chunks c = [] \<and> channel r s = [] \<and>
     \<not> is_finished (seqs s r) \<and> load_task s \<noteq> Fetching \<and>
     (case pc s of Stopped e \<Rightarrow> True | _ \<Rightarrow> False)"

lemma stranded_cong:
  assumes "stranded r c s" "clients t r = clients s r" "channel r t = channel r s"
    "finish_reason (seqs t r) = finish_reason (seqs s r)" "load_task t = Fetching \<longrightarrow> load_task s = Fetching"
    "pc t = pc s"
  shows "stranded r c t"
  using assms by (auto simp: stranded_def is_finished_def)

lemma load_task_frame [simp]:
  "load_task (emit r t s) = load_task s" "load_task (upd_seq r f s) = load_task s"
  "load_task (set_reason r x s) = load_task s" "load_task (set_client r c s) = load_task s"
  "load_task (abort r x s) = load_task s" "load_task (deliver s) = load_task s"
  "load_task (arrive p n temp k eos cur s) = load_task s"
  by (simp_all add: emit_def put_nowait_def upd_seq_def set_reason_def set_client_def abort_def Let_def
      deliver_def arrive_def new_sequence_def add_def split: option.split list.split prod.split)

lemma stranded_step:
  assumes inv: "server_inv s" and st: "stranded r c s" and step: "serve H s e t" and e: "e \<noteq> HangUp r"
  shows "stranded r c t"
proof -
  note facts = server_inv_D [OF inv]
  have r: "r < next_id s" using clients_inv_D(1) [OF facts(5)] st by (auto simp: stranded_def)
  obtain x where pc: "pc s = Stopped x" using st by (auto simp: stranded_def split: loop_pc.splits)
  show ?thesis
    using step
  proof cases
    case (post body ev)
    with st pc show ?thesis
      by (simp add: handled_state_def completions_def loop_is_dead_def)
  next
    case (begins i ev)
    then obtain m p n temp k cur a where
      t: "t = start_request m p n temp k cur (s\<lparr>accepted := a\<rparr>)"
      by (auto simp: stream_begins_def Let_def split: if_splits)
    have si: "sched_inv (s\<lparr>accepted := a\<rparr>)" and ch: "channel r (s\<lparr>accepted := a\<rparr>) = channel r s"
      using facts(2) by (simp_all add: sched_inv_def store_inv_def calls_ok_def channel_def)
    show ?thesis unfolding t
      by (rule stranded_cong [OF st])
        (use r in \<open>simp_all add: start_request_arrive channel_arrive si ch arrive_other arrive_loop\<close>)
  next
    case (resume q)
    then obtain d item s1 where d: "clients s q = Some d" and qg: "queue_get q s = Some (item, s1)"
      and t: "t = (if streaming d then stream_item q d item s1 else generate_item q d item s1)"
      by (auto simp: resume_request_def split: option.splits if_splits)
    have q: "q \<noteq> r"
      using qg st by (auto simp: queue_get_def stranded_def channel_def split: list.splits)
    have ok: "calls_ok s1"
      using facts(4) by (simp add: calls_ok_def queue_get_Some [OF qg] spec_of_fields(7) [OF queue_get_Some(6) [OF qg]])
    have "load_task s1 = load_task s"
      using qg by (auto simp: queue_get_def split: list.splits)
    with q ok show ?thesis unfolding t
      by (intro stranded_cong [OF st])
        (simp_all add: stream_item_def generate_item_def Let_def cancel_def channel_abort abort_reason
          queue_get_Some [OF qg] queue_get_loop [OF qg] queue_get_engine [OF qg] split: option.split)
  next
    case (hangup q)
    with e have "q \<noteq> r" by simp
    with hangup show ?thesis
      by (intro stranded_cong [OF st])
        (simp_all add: disconnect_def cancel_def channel_abort facts(4) abort_reason split: option.split)
  next
    case runs
    with st pc show ?thesis by (simp add: loop_resume_def)
  next
    case dropped
    show ?thesis unfolding dropped
      by (rule stranded_cong [OF st]) (simp_all add: drop_stream_def channel_def)
  next
    case shutdown
    with st pc show ?thesis by (simp add: lifespan_stop_def loop_cancel_def)
  next
    case arrives
    with st show ?thesis by (simp add: stranded_def)
  next
    case fails
    with st show ?thesis by (simp add: stranded_def)
  next
    case loads
    show ?thesis unfolding loads
      by (rule stranded_cong [OF st]) (simp_all add: load_done_def channel_def)
  next
    case callback
    show ?thesis unfolding callback
      by (rule stranded_cong [OF st]) (simp_all add: channel_deliver facts(4))
  qed
qed

section \<open>The parameters a request may have\<close>

text \<open>
  What validation and normalisation leave of a request body, and what the sequences inherit.
\<close>

definition sane_params :: "int \<Rightarrow> pyfloat \<Rightarrow> int option \<Rightarrow> bool" where
  "sane_params n temp k \<longleftrightarrow>
     0 \<le> n \<and> (case temp of Fin x \<Rightarrow> x = 0 \<or> 1 / 100000 \<le> x \<and> x \<le> 2 | _ \<Rightarrow> False) \<and>
     (case k of None \<Rightarrow> True | Some j \<Rightarrow> 1 \<le> j)"

definition sane_body :: "completion_request \<Rightarrow> bool" where
  "sane_body b \<longleftrightarrow> sane_params (max_tokens b) (req_temperature b) (req_top_k b)"

definition sane_seq :: "sequence \<Rightarrow> bool" where
  "sane_seq q \<longleftrightarrow> sane_params (max_new_tokens q) (temperature q) (top_k q)"

definition params_inv :: "'c app \<Rightarrow> bool" where
  "params_inv s \<longleftrightarrow> (\<forall>r < next_id s. sane_seq (seqs s r)) \<and> (\<forall>b \<in> set (accepted s). sane_body b)"

lemma sane_normalized: "field_constraints b \<Longrightarrow> sane_body (normalize_body b)"
  by (cases "req_temperature b"; cases "req_top_k b")
    (auto simp: field_constraints_def normalize_body_def sane_body_def sane_params_def sampling_eps_def Let_def)

lemma sane_seq_cong:
  assumes "spec_of p = spec_of q"
  shows "sane_seq p = sane_seq q"
  unfolding sane_seq_def spec_of_fields [OF assms] by (rule refl)

lemma accepted_frame [simp]:
  "accepted (emit r t s) = accepted s" "accepted (upd_seq r f s) = accepted s"
  "accepted (set_reason r x s) = accepted s" "accepted (set_client r c s) = accepted s"
  "accepted (abort r x s) = accepted s" "accepted (deliver s) = accepted s"
  "accepted (arrive p n temp k eos cur s) = accepted s" "accepted (snd (schedule s)) = accepted s"
  by (simp_all add: emit_def put_nowait_def upd_seq_def set_reason_def set_client_def abort_def Let_def
      deliver_def arrive_def new_sequence_def add_def schedule_unfold split: option.split list.split prod.split)

lemma accepted_folds [simp]:
  "accepted (fold (\<lambda>r. abort r x) rs s) = accepted s" "accepted (fold fail_row rs s) = accepted s"
  "accepted (snd (post_rows rows s)) = accepted s"
proof -
  show "accepted (fold (\<lambda>r. abort r x) rs s) = accepted s" by (induction rs arbitrary: s) simp_all
  show "accepted (fold fail_row rs s) = accepted s" by (induction rs arbitrary: s) (simp_all add: fail_row_def)
  show "accepted (snd (post_rows rows s)) = accepted s"
    by (induction rows arbitrary: s)
      (auto simp: post_rows_simps post_row_def Let_def simp del: post_rows.simps(2))
qed

lemma accepted_loop [simp]:
  "accepted (loop_record b cur rows s) = accepted s" "accepted (loop_next rn s) = accepted s"
  "accepted (loop_raise e s) = accepted s" "accepted (loop_cancel s) = accepted s"
  "accepted (loop_step rn s) = accepted s" "accepted (loop_start c s) = accepted s"
  by (simp_all add: loop_record_unfold loop_next_def loop_raise_def fail_all_def loop_cancel_def loop_step_def
      loop_start_def Let_def split: loop_pc.split sum.split prod.split)

lemma loop_step_spec [simp]: "spec_of (seqs (loop_step rn s) q) = spec_of (seqs s q)"
  by (simp add: loop_step_def loop_raise_seqs split: loop_pc.split sum.split prod.split)

lemma loop_cancel_spec [simp]: "spec_of (seqs (loop_cancel s) q) = spec_of (seqs s q)"
  by (simp add: loop_cancel_def loop_raise_seqs split: loop_pc.split)

lemma params_inv_mono:
  assumes "params_inv s" "next_id t = next_id s" "set (accepted t) \<subseteq> set (accepted s)"
    and "\<And>r. r < next_id s \<Longrightarrow> spec_of (seqs t r) = spec_of (seqs s r)"
  shows "params_inv t"
  using assms sane_seq_cong [OF assms(4)] by (auto simp: params_inv_def)

lemma arrive_params:
  "temperature (seqs (arrive p n temp k eos cur s) (next_id s)) = temp"
  "top_k (seqs (arrive p n temp k eos cur s) (next_id s)) = k"
  by (simp_all add: arrive_def new_sequence_def add_def Let_def emit_def put_nowait_def split: option.split)

lemma params_inv_start_request:
  assumes "params_inv s" "sane_params n temp k"
  shows "params_inv (start_request m p n temp k cur s)"
proof -
  have "sane_seq (seqs (start_request m p n temp k cur s) r)" if "r < Suc (next_id s)" for r
  proof (cases "r = next_id s")
    case True
    with assms(2) show ?thesis by (simp add: sane_seq_def start_request_arrive arrive_new arrive_params)
  next
    case False
    with that have "r < next_id s" by simp
    with assms(1) sane_seq_cong [OF quiet_start_request(4) [OF this]] show ?thesis by (simp add: params_inv_def)
  qed
  with assms(1) show ?thesis by (simp add: params_inv_def start_request_arrive arrive_frame)
qed

lemma params_step:
  assumes inv: "server_inv s" and ps: "params_inv s" and step: "serve H s e t"
  shows "params_inv t"
  using step
proof cases
  case (post body ev)
  have sane: "sane_body (normalize_body body)" using post by (simp add: sane_normalized)
  show ?thesis
  proof (cases "loop_is_dead s \<or> stream (normalize_body body)")
    case True
    with post ps sane show ?thesis
      by (auto simp: handled_state_def completions_def params_inv_def)
  next
    case False
    with post ps sane show ?thesis
      by (simp add: handled_state_def completions_def params_inv_start_request sane_body_def)
  qed
next
  case (begins i ev)
  then have i: "i < length (accepted s)"
    and t: "t = start_request True (prompt (accepted s ! i)) (max_tokens (accepted s ! i))
      (req_temperature (accepted s ! i)) (req_top_k (accepted s ! i)) (Inr ev)
      (s\<lparr>accepted := take i (accepted s) @ drop (Suc i) (accepted s)\<rparr>)"
    by (auto simp: stream_begins_def Let_def split: if_splits)
  have "params_inv (s\<lparr>accepted := take i (accepted s) @ drop (Suc i) (accepted s)\<rparr>)"
    using ps by (auto simp: params_inv_def dest: in_set_takeD in_set_dropD)
  moreover have "sane_body (accepted s ! i)" using ps i by (simp add: params_inv_def)
  ultimately show ?thesis unfolding t by (simp add: params_inv_start_request sane_body_def)
next
  case (resume r)
  then obtain c item s1 where qg: "queue_get r s = Some (item, s1)"
    and t: "t = (if streaming c then stream_item r c item s1 else generate_item r c item s1)"
    by (auto simp: resume_request_def split: option.splits if_splits)
  have "accepted s1 = accepted s" using qg by (auto simp: queue_get_def split: list.splits)
  then have "next_id t = next_id s" "accepted t = accepted s"
    by (simp_all add: t stream_item_def generate_item_def Let_def cancel_def queue_get_Some [OF qg] split: option.split)
  then show ?thesis
    by (intro params_inv_mono [OF ps]) (simp_all add: t quiet_item queue_get_Some [OF qg])
next
  case (hangup r)
  have "next_id t = next_id s" "accepted t = accepted s" "spec_of (seqs t q) = spec_of (seqs s q)" for q
    by (simp_all add: hangup disconnect_def cancel_def split: option.split)
  then show ?thesis by (intro params_inv_mono [OF ps]) simp_all
next
  case runs
  then have "t = loop_step (engine_runner s) s"
    using inv by (simp add: loop_resume_step server_inv_D)
  then show ?thesis by (intro params_inv_mono [OF ps]) simp_all
next
  case (dropped i)
  then show ?thesis
    by (intro params_inv_mono [OF ps]) (auto simp: drop_stream_def dest: in_set_takeD in_set_dropD)
next
  case shutdown
  then show ?thesis by (intro params_inv_mono [OF ps]) (simp_all add: lifespan_stop_def)
next
  case arrives
  have "spec_of (seqs (load_swap H s) q) = spec_of (seqs s q)" "next_id (load_swap H s) = next_id s"
    "accepted (load_swap H s) = accepted s" for q
    by (simp_all add: load_swap_def loop_start_def split: prod.split)
  then show ?thesis unfolding arrives by (intro params_inv_mono [OF ps]) simp_all
next
  case fails
  then show ?thesis by (intro params_inv_mono [OF ps]) (simp_all add: load_fail_def)
next
  case loads
  then show ?thesis by (intro params_inv_mono [OF ps]) (simp_all add: load_done_def)
next
  case callback
  then show ?thesis by (intro params_inv_mono [OF ps]) simp_all
qed

lemma started_params: "started s \<Longrightarrow> params_inv s"
  by (auto simp: started_def params_inv_def lifespan_start_def create_app_def loop_start_def)

interpretation sane: step_invariant started "serve H" "\<lambda>s. server_inv s \<and> params_inv s" for H
  by unfold_locales (auto intro: started_inv started_params serve_inv params_step)

lemma resume_engine:
  assumes "resume_request r s = Some t"
  shows "engine_runner t = engine_runner s" "max_batch_size t = max_batch_size s"
proof -
  obtain c item s1 where qg: "queue_get r s = Some (item, s1)"
    and t: "t = (if streaming c then stream_item r c item s1 else generate_item r c item s1)"
    using assms by (auto simp: resume_request_def split: option.splits if_splits)
  show "engine_runner t = engine_runner s" by (simp add: t quiet_item queue_get_engine [OF qg])
  show "max_batch_size t = max_batch_size s"
    by (simp add: t stream_item_def generate_item_def Let_def cancel_def queue_get_loop [OF qg] split: option.split)
qed

text \<open>No step but the loop's own touches the outputs there are.\<close>

lemma quiet_outputs:
  assumes inv: "server_inv s" and step: "serve H s e t" and e: "e \<noteq> LoopRuns" and r: "r < next_id s"
  shows "output_ids (seqs t r) = output_ids (seqs s r) \<and> spec_of (seqs t r) = spec_of (seqs s r)"
proof (cases "e \<in> {Shutdown, ModelArrives}")
  case True
  have "output_ids (seqs (loop_cancel s) r) = output_ids (seqs s r)"
    by (simp add: loop_cancel_def loop_raise_seqs split: loop_pc.split)
  with step True show ?thesis
    by cases (simp_all add: lifespan_stop_def load_swap_def loop_start_def split: prod.split)
qed (use quiet_step [OF step _ inv] e r in simp)

section \<open>What a request keeps\<close>

text \<open>
  A request keeps what it was accepted with, and what it is accepted with are the stop tokens of the
  runner of that moment.
\<close>

lemma start_request_next_id [simp]: "next_id (start_request m p n temp k cur s) = Suc (next_id s)"
  by (simp add: start_request_arrive arrive_frame)

lemma start_request_eos:
  "eos_token_ids (seqs (start_request m p n temp k cur s) (next_id s)) = eos_ids (engine_runner s)"
  by (simp add: start_request_arrive arrive_new)

definition keeps_requests :: "'c app \<Rightarrow> 'c app \<Rightarrow> bool" where
  "keeps_requests s t \<longleftrightarrow>
     next_id s \<le> next_id t \<and> (\<forall>r < next_id s. spec_of (seqs t r) = spec_of (seqs s r)) \<and>
     (\<forall>r \<in> {next_id s ..< next_id t}. eos_token_ids (seqs t r) = eos_ids (engine_runner s))"

lemma keeps_requests_same:
  "next_id t = next_id s \<Longrightarrow> (\<And>r. spec_of (seqs t r) = spec_of (seqs s r)) \<Longrightarrow> keeps_requests s t"
  by (simp add: keeps_requests_def)

lemma keeps_requests_start:
  assumes "next_id u = next_id s" "seqs u = seqs s" "engine_runner u = engine_runner s"
  shows "keeps_requests s (start_request m p n temp k cur u)"
  using start_request_eos [of m p n temp k cur u] quiet_start_request(4) [of _ u m p n temp k cur] assms
  by (auto simp: keeps_requests_def less_Suc_eq)

lemma serve_keeps_requests:
  assumes inv: "server_inv s" and step: "serve H s e t"
  shows "keeps_requests s t"
  using step
proof cases
  case (post body ev)
  then show ?thesis
    by (auto simp: handled_state_def completions_def intro: keeps_requests_start keeps_requests_same)
next
  case (begins i ev)
  then show ?thesis
    by (auto simp: stream_begins_def Let_def intro: keeps_requests_start split: if_splits)
next
  case (resume r)
  then obtain c item s1 where qg: "queue_get r s = Some (item, s1)"
    and t: "t = (if streaming c then stream_item r c item s1 else generate_item r c item s1)"
    by (auto simp: resume_request_def split: option.splits if_splits)
  have "next_id t = next_id s"
    by (simp add: t stream_item_def generate_item_def Let_def cancel_def queue_get_Some [OF qg] split: option.split)
  then show ?thesis by (rule keeps_requests_same) (simp add: t quiet_item queue_get_Some [OF qg])
next
  case (hangup r)
  then show ?thesis
    by (intro keeps_requests_same) (simp_all add: disconnect_def cancel_def split: option.split)
next
  case runs
  then have "t = loop_step (engine_runner s) s" using inv by (simp add: loop_resume_step server_inv_D)
  then show ?thesis by (intro keeps_requests_same) simp_all
next
  case arrives
  have "next_id (load_swap H s) = next_id s" "spec_of (seqs (load_swap H s) q) = spec_of (seqs s q)" for q
    by (simp_all add: load_swap_def loop_start_def split: prod.split)
  then show ?thesis unfolding arrives by (rule keeps_requests_same)
qed (rule keeps_requests_same; simp add: drop_stream_def lifespan_stop_def load_fail_def load_done_def)+

lemma steps_keep_request:
  assumes "(\<lambda>s t. \<exists>e. serve H s e t)\<^sup>*\<^sup>* s t" "server_inv s" "r < next_id s"
  shows "server_inv t \<and> r < next_id t \<and> spec_of (seqs t r) = spec_of (seqs s r)"
  using assms(1)
proof induction
  case (step t u)
  then obtain e where e: "serve H t e u" by blast
  have "keeps_requests t u" using serve_keeps_requests [OF _ e] step.IH by blast
  moreover have "server_inv u" using serve_inv [OF _ e] step.IH by blast
  ultimately show ?case using step.IH by (auto simp: keeps_requests_def)
qed (use assms in simp)

text \<open>C22: validation and normalisation.  A body that passes the declared bounds is folded into the
  parameters the sampler understands: what ``greedy'' and ``no top-k'' are spelled like becomes 0 and
  \<^verbatim>\<open>None\<close>; every other temperature and top-k, the prompt, the budget and the stream flag stay as they
  are; and folding twice is folding once.\<close>

theorem body_normalised:
  assumes "field_constraints b"
  defines "b' \<equiv> normalize_body b"
  shows "sane_params (max_tokens b') (req_temperature b') (req_top_k b') \<and>
    (req_temperature b' = (if flt (req_temperature b) sampling_eps then Fin 0 else req_temperature b)) \<and>
    (req_top_k b' = (case req_top_k b of None \<Rightarrow> None | Some k \<Rightarrow> if k \<le> 0 then None else Some k)) \<and>
    b'\<lparr>req_temperature := req_temperature b, req_top_k := req_top_k b\<rparr> = b \<and> normalize_body b' = b'"
proof -
  have "sane_params (max_tokens b') (req_temperature b') (req_top_k b')"
    using sane_normalized [OF assms(1)] by (simp add: b'_def sane_body_def)
  moreover have "normalize_body b' = b'"
    by (auto simp: b'_def normalize_body_def sampling_eps_def Let_def split: option.split)
  ultimately show ?thesis
    by (auto simp: b'_def normalize_body_def Let_def split: option.split)
qed

lemma body_normalised_witness:
  "normalize_body (normalize_body (default_request\<lparr>req_temperature := Fin (1 / 10 ^ 40), req_top_k := Some (- 1)\<rparr>))
     = default_request\<lparr>req_temperature := Fin 0, req_top_k := None\<rparr>"
proof -
  let ?b = "default_request\<lparr>req_temperature := Fin (1 / 10 ^ 40), req_top_k := Some (- 1)\<rparr>"
  have n: "normalize_body ?b = default_request\<lparr>req_temperature := Fin 0, req_top_k := None\<rparr>"
    by (simp add: normalize_body_def default_request_def sampling_eps_def)
  have "field_constraints ?b" by (simp add: field_constraints_def default_request_def)
  from body_normalised [OF this] n show ?thesis by metis
qed

end
