(* ===== verification/Readiness.thy ===== *)
theory Readiness
  imports Server
begin

text \<open>
  The life of a server as Kubernetes sees it through \<^verbatim>\<open>/health\<close>: loading, ready, and out of service
  when the loop has died or the model could not be loaded.  The states of the background task \<^verbatim>\<open>_load\<close>
  are ordered, and no event of the server moves backwards in this order.
\<close>

section \<open>The order of loading\<close>

fun load_rank :: "load_pc \<Rightarrow> nat" where
  "load_rank Fetching = 0"
| "load_rank Warming = 1"
| "load_rank Ready = 2"
| "load_rank LoadFailed = 3"

lemma load_rank_inj [simp]: "load_rank p = load_rank q \<longleftrightarrow> p = q"
  by (cases p; cases q) simp_all

instantiation load_pc :: linorder
begin

definition less_eq_load_pc :: "load_pc \<Rightarrow> load_pc \<Rightarrow> bool" where
  "less_eq_load_pc p q \<longleftrightarrow> load_rank p \<le> load_rank q"

definition less_load_pc :: "load_pc \<Rightarrow> load_pc \<Rightarrow> bool" where
  "less_load_pc p q \<longleftrightarrow> load_rank p < load_rank q"

instance
  by standard (auto simp: less_eq_load_pc_def less_load_pc_def dest: antisym)

end

section \<open>What the lower layers leave alone\<close>

definition lifecycle :: "'c app \<Rightarrow> settings \<times> bool \<times> load_pc \<times> bool" where
  "lifecycle s = (app_settings s, loaded s, load_task s, has_loop_task s)"

lemma lifecycle_frame [simp]:
  "lifecycle (emit r t s) = lifecycle s" "lifecycle (upd_seq r f s) = lifecycle s"
  "lifecycle (set_reason r x s) = lifecycle s" "lifecycle (set_client r c s) = lifecycle s"
  "lifecycle (abort r x s) = lifecycle s" "lifecycle (deliver s) = lifecycle s"
  "lifecycle (arrive p n temp k eos cur s) = lifecycle s" "lifecycle (snd (schedule s)) = lifecycle s"
  by (simp_all add: lifecycle_def emit_def put_nowait_def upd_seq_def set_reason_def set_client_def abort_def
      Let_def deliver_def arrive_def new_sequence_def add_def schedule_unfold
      split: option.split list.split prod.split)

lemma lifecycle_updates [simp]:
  "lifecycle (s\<lparr>members := m\<rparr>) = lifecycle s" "lifecycle (s\<lparr>pc := p\<rparr>) = lifecycle s"
  "lifecycle (s\<lparr>rstate := c\<rparr>) = lifecycle s" "lifecycle (s\<lparr>running := rs\<rparr>) = lifecycle s"
  "lifecycle (s\<lparr>waiting := rs\<rparr>) = lifecycle s" "lifecycle (s\<lparr>accepted := bs\<rparr>) = lifecycle s"
  "lifecycle (s\<lparr>engine_runner := rn\<rparr>) = lifecycle s"
  by (simp_all add: lifecycle_def)

lemma lifecycle_folds [simp]:
  "lifecycle (fold (\<lambda>r. abort r x) rs s) = lifecycle s" "lifecycle (fold fail_row rs s) = lifecycle s"
  "lifecycle (snd (post_rows rows s)) = lifecycle s"
proof -
  show "lifecycle (fold (\<lambda>r. abort r x) rs s) = lifecycle s" by (induction rs arbitrary: s) simp_all
  show "lifecycle (fold fail_row rs s) = lifecycle s" by (induction rs arbitrary: s) (simp_all add: fail_row_def)
  show "lifecycle (snd (post_rows rows s)) = lifecycle s"
    by (induction rows arbitrary: s)
      (auto simp: post_rows_simps post_row_def Let_def simp del: post_rows.simps(2))
qed

lemma lifecycle_loop [simp]:
  "lifecycle (loop_record b cur rows s) = lifecycle s" "lifecycle (loop_next rn s) = lifecycle s"
  "lifecycle (loop_raise e s) = lifecycle s" "lifecycle (loop_cancel s) = lifecycle s"
  "lifecycle (loop_step rn s) = lifecycle s" "lifecycle (loop_start c s) = lifecycle s"
  by (simp_all add: loop_record_unfold loop_next_def loop_raise_def fail_all_def loop_cancel_def loop_step_def
      loop_start_def Let_def split: loop_pc.split sum.split prod.split)

lemma lifecycle_start_request [simp]: "lifecycle (start_request m p n temp k cur s) = lifecycle s"
  by (simp add: start_request_arrive)

text \<open>Only the three events of \<^verbatim>\<open>_load\<close> change what \<^verbatim>\<open>/health\<close> looks at besides the loop.\<close>

lemma serve_lifecycle:
  assumes inv: "server_inv s" and step: "serve H s e t" and e: "e \<notin> {ModelArrives, ModelFails, LoadDone}"
  shows "lifecycle t = lifecycle s"
  using step
proof cases
  case (resume r)
  then obtain c item s1 where qg: "queue_get r s = Some (item, s1)"
    and t: "t = (if streaming c then stream_item r c item s1 else generate_item r c item s1)"
    by (auto simp: resume_request_def split: option.splits if_splits)
  have "lifecycle s1 = lifecycle s" using qg by (auto simp: queue_get_def split: list.splits)
  then show ?thesis
    by (simp add: t stream_item_def generate_item_def Let_def cancel_def split: option.split)
next
  case runs
  then have "t = loop_step (engine_runner s) s" using inv by (simp add: loop_resume_step server_inv_D)
  then show ?thesis by simp
qed (use e in \<open>auto simp: handled_state_def completions_def stream_begins_def Let_def disconnect_def cancel_def
      drop_stream_def lifespan_stop_def split: option.splits if_splits\<close>)

section \<open>Readiness\<close>

definition ready_inv :: "'c app \<Rightarrow> bool" where
  "ready_inv s \<longleftrightarrow> has_loop_task s \<and> (loaded s \<longleftrightarrow> load_task s = Ready)"

lemma ready_inv_lifecycle: "lifecycle t = lifecycle s \<Longrightarrow> ready_inv t = ready_inv s"
  by (simp add: ready_inv_def lifecycle_def)

lemma load_events:
  "lifecycle (load_swap H s) = (app_settings s, loaded s, Warming, has_loop_task s)"
  "lifecycle (load_fail s) = (app_settings s, loaded s,
     (if wants_model (app_settings s) then LoadFailed else load_task s), has_loop_task s)"
  "lifecycle (load_done s) = (app_settings s, True, Ready, has_loop_task s)"
proof -
  have "lifecycle (load_swap H s) = (app_settings (loop_cancel s), loaded (loop_cancel s), Warming, has_loop_task (loop_cancel s))
      \<or> lifecycle (load_swap H s) = (app_settings s, loaded s, Warming, has_loop_task s)"
    by (simp add: load_swap_def lifecycle_def loop_start_def split: prod.split)
  moreover have "lifecycle (loop_cancel s) = lifecycle s" by simp
  ultimately show "lifecycle (load_swap H s) = (app_settings s, loaded s, Warming, has_loop_task s)"
    by (auto simp: lifecycle_def)
qed (simp_all add: lifecycle_def load_fail_def load_done_def)

lemma load_progress:
  assumes inv: "server_inv s" "ready_inv s" and step: "serve H s e t"
  shows "ready_inv t \<and> load_task s \<le> load_task t \<and> (load_task s \<in> {Ready, LoadFailed} \<longrightarrow> load_task t = load_task s)"
proof (cases "e \<in> {ModelArrives, ModelFails, LoadDone}")
  case False
  then have l: "lifecycle t = lifecycle s" using serve_lifecycle [OF inv(1) step] by simp
  then have "load_task t = load_task s" by (simp add: lifecycle_def)
  then show ?thesis using inv(2) ready_inv_lifecycle [OF l] by simp
next
  case True
  from step show ?thesis
  proof cases
    case arrives
    then show ?thesis using inv(2) load_events(1) [of H s]
      by (simp add: lifecycle_def ready_inv_def less_eq_load_pc_def)
  next
    case fails
    then show ?thesis using inv(2) load_events(2) [of s]
      by (auto simp: lifecycle_def ready_inv_def less_eq_load_pc_def)
  next
    case loads
    then show ?thesis using inv(2) load_events(3) [of s]
      by (simp add: lifecycle_def ready_inv_def less_eq_load_pc_def)
  qed (use True in auto)
qed

interpretation readiness: step_invariant started "serve H" "\<lambda>s. server_inv s \<and> ready_inv s" for H
proof
  show "started s \<Longrightarrow> server_inv s \<and> ready_inv s" for s :: "('a, 'b) qwen_state app"
    by (auto simp: started_inv) (auto simp: started_def ready_inv_def lifespan_start_def create_app_def loop_start_def)
qed (auto intro: serve_inv dest: load_progress)

end
