(* ===== verification/Streaming.thy ===== *)
theory Streaming
  imports Readiness
begin

text \<open>
  What a streaming client is sent (\<^verbatim>\<open>BatchingEngine.stream\<close>).  At every token the coroutine decodes the
  whole output and sends what is beyond the length it has already sent; so the chunks of a stream are
  determined by the texts it has read, whatever the tokenizer does.  If each of these texts is a
  beginning of the last one, the chunks put together are the last one, the text of a one-shot
  response.  A decoder that only ever adds text at the end guarantees this; that is the interface
  \<open>stream_decoder\<close>, which the mock's decoder meets and a byte-level one need not.
\<close>

section \<open>New suffixes\<close>

text \<open>
  Of each text what is beyond the length reached so far, if there is anything; and the length
  reached.
\<close>

primrec new_suffixes :: "nat \<Rightarrow> ustring list \<Rightarrow> ustring list" where
  "new_suffixes n [] = []"
| "new_suffixes n (t # ts) =
     (if n < length t then drop n t # new_suffixes (length t) ts else new_suffixes n ts)"

primrec reached :: "nat \<Rightarrow> ustring list \<Rightarrow> nat" where
  "reached n [] = n"
| "reached n (t # ts) = reached (max n (length t)) ts"

lemma new_suffixes_append:
  "new_suffixes n (ts @ [t]) = new_suffixes n ts @ (if reached n ts < length t then [drop (reached n ts) t] else [])"
  by (induction ts arbitrary: n) (auto simp: max_def)

lemma reached_append: "reached n (ts @ [t]) = max (reached n ts) (length t)"
  by (induction ts arbitrary: n) auto

lemma new_suffixes_nonempty: "[] \<notin> set (new_suffixes n ts)"
  by (induction ts arbitrary: n) auto

lemma reached_ge: "n \<le> reached n ts"
proof (induction ts arbitrary: n)
  case (Cons t ts)
  from Cons.IH [of "max n (length t)"] show ?case by simp
qed simp

lemma new_suffixes_prefixes:
  assumes "list_all (\<lambda>t. take (length t) full = t) ts"
  shows "concat (new_suffixes n ts) = drop n (take (reached n ts) full)"
  using assms
proof (induction ts arbitrary: n)
  case (Cons t ts)
  show ?case
  proof (cases "n < length t")
    case True
    have "length t \<le> reached (length t) ts" by (rule reached_ge)
    then have "take (reached (length t) ts) full = t @ drop (length t) (take (reached (length t) ts) full)"
      using Cons.prems append_take_drop_id [of "length t" "take (reached (length t) ts) full"]
      by (simp add: min_absorb1)
    then have "drop n (take (reached (length t) ts) full) = drop n t @ drop (length t) (take (reached (length t) ts) full)"
      using True by (metis drop_append diff_is_0_eq' drop_0 less_imp_le)
    then show ?thesis using Cons True by (simp add: max_def)
  qed (use Cons in \<open>simp add: max_def\<close>)
qed simp

lemma reached_upper: "list_all (\<lambda>t. length t \<le> m) ts \<Longrightarrow> n \<le> m \<Longrightarrow> reached n ts \<le> m"
  by (induction ts arbitrary: n) auto

text \<open>Beginnings of the last text, put together, are the last text.\<close>

lemma new_suffixes_last:
  assumes "list_all (\<lambda>t. take (length t) (last ts) = t) ts" "ts \<noteq> []"
  shows "concat (new_suffixes 0 ts) = last ts"
proof -
  have "reached 0 ts = max (reached 0 (butlast ts)) (length (last ts))"
    using reached_append [of 0 "butlast ts" "last ts"] assms(2) by simp
  then have "length (last ts) \<le> reached 0 ts" by simp
  then show ?thesis using new_suffixes_prefixes [OF assms(1), of 0] by simp
qed

section \<open>Decoders that can be streamed\<close>

text \<open>The texts a stream has read: each the decoding of some of the first tokens, and of at least as many as it has read.\<close>

definition readings :: "(int list \<Rightarrow> ustring) set \<Rightarrow> int list \<Rightarrow> ustring list \<Rightarrow> bool" where
  "readings decs out texts \<longleftrightarrow>
     (\<forall>i < length texts. \<exists>dec \<in> decs. \<exists>k \<in> {i <.. length out}. texts ! i = dec (take k out))"

lemma readingsE:
  assumes "readings decs out texts" "i < length texts"
  obtains dec k where "dec \<in> decs" "i < k" "k \<le> length out" "texts ! i = dec (take k out)"
  using assms unfolding readings_def greaterThanAtMost_iff Bex_def by blast

lemma readings_mono:
  assumes "readings decs out texts" "decs \<subseteq> decs'"
  shows "readings decs' (out @ ys) texts"
  unfolding readings_def
proof (intro allI impI)
  fix i assume "i < length texts"
  with assms(1) obtain dec k where "dec \<in> decs" "i < k" "k \<le> length out" "texts ! i = dec (take k out)"
    by (rule readingsE)
  then show "\<exists>dec \<in> decs'. \<exists>k \<in> {i <.. length (out @ ys)}. texts ! i = dec (take k (out @ ys))"
    using assms(2) by (intro bexI [of _ dec] bexI [of _ k]) auto
qed

lemma readings_append:
  assumes "readings decs out texts" "dec \<in> decs" "length texts < length out" "txt = dec out"
  shows "readings decs out (texts @ [txt])"
  unfolding readings_def
proof (intro allI impI)
  fix i assume i: "i < length (texts @ [txt])"
  show "\<exists>dec \<in> decs. \<exists>k \<in> {i <.. length out}. (texts @ [txt]) ! i = dec (take k out)"
  proof (cases "i < length texts")
    case True
    then show ?thesis using assms(1) by (simp add: readings_def nth_append)
  next
    case False
    then show ?thesis using i assms(2,3,4)
      by (intro bexI [of _ dec] bexI [of _ "length out"]) (auto simp: nth_append)
  qed
qed

lemma readings_last:
  assumes "readings decs out texts" "length texts = length out" "texts \<noteq> []"
  shows "\<exists>dec \<in> decs. last texts = dec out"
proof -
  have "length texts - 1 < length texts" using assms(3) by simp
  with assms(1) obtain dec k where "dec \<in> decs" "length texts - 1 < k" "k \<le> length out"
    "texts ! (length texts - 1) = dec (take k out)" by (rule readingsE)
  then show ?thesis using assms(2,3) by (auto simp: last_conv_nth)
qed

locale stream_decoder =
  fixes dec :: "int list \<Rightarrow> ustring"
  assumes dec_Nil: "dec [] = []"
    and dec_append: "take (length (dec xs)) (dec (xs @ ys)) = dec xs"
begin

lemma dec_take: "take (length (dec (take k xs))) (dec xs) = dec (take k xs)"
  using dec_append [of "take k xs" "drop k xs"] by simp

lemma pieces_are_the_text:
  assumes "readings {dec} out texts" "length texts = length out"
  shows "concat (new_suffixes 0 texts) = dec out"
proof (cases "texts = []")
  case True
  then show ?thesis using assms(2) by (simp add: dec_Nil)
next
  case False
  have "last texts = dec out" using readings_last [OF assms False] by simp
  moreover have "list_all (\<lambda>t. take (length t) (dec out) = t) texts"
    using assms(1) by (auto simp: list_all_length readings_def dec_take)
  ultimately show ?thesis using new_suffixes_last [OF _ False] by simp
qed

end

lemma mock_decode_append: "mock_decode (xs @ ys) = mock_decode xs @ mock_decode ys"
  by (simp add: mock_decode_def replicate_add)

interpretation mock_stream: stream_decoder mock_decode
  by unfold_locales (simp_all add: mock_decode_append, simp add: mock_decode_def)

section \<open>The chunks of a stream\<close>

abbreviation piece :: "ustring \<Rightarrow> stream_chunk" where
  "piece t \<equiv> \<lparr>chunk_text = t, chunk_reason = None\<rparr>"

definition decoders :: "('c, 'z) engine_scheme \<Rightarrow> (int list \<Rightarrow> ustring) set" where
  "decoders s = {mock_decode, decode (engine_runner s)}"

definition stream_ok :: "(int list \<Rightarrow> ustring) set \<Rightarrow> nat \<Rightarrow> client \<Rightarrow> 'a store_scheme \<Rightarrow> bool" where
  "stream_ok decs r c s \<longleftrightarrow>
     (case outcome c of
        Pending \<Rightarrow>
          (\<exists>texts. length texts = length (got c) \<and> chunks c = map piece (new_suffixes 0 texts) \<and>
             sent c = reached 0 texts \<and> readings decs (output_ids (seqs s r)) texts)
      | Ended \<Rightarrow>
          (\<exists>texts reason. length texts = length (before_none (got c)) \<and>
             chunks c = map piece (new_suffixes 0 texts) @ [\<lparr>chunk_text = [], chunk_reason = Some reason\<rparr>] \<and>
             readings decs (before_none (got c)) texts \<and> reason \<in> {''stop'', ''length'', ''error''})
      | _ \<Rightarrow> True)"

text \<open>Until the model has arrived, the decoder is the mock's; then it is the model's.\<close>

definition streams_ok :: "'c app \<Rightarrow> bool" where
  "streams_ok s \<longleftrightarrow>
     (load_task s = Fetching \<longrightarrow> decode (engine_runner s) = mock_decode) \<and>
     (\<forall>r c. clients s r = Some c \<longrightarrow> streaming c \<longrightarrow> stream_ok (decoders s) r c s)"

text \<open>Outputs only grow.\<close>

lemma loop_step_outputs:
  assumes inv: "loop_inv s" and rn: "rows_ok rn"
  shows "\<exists>ys. output_ids (seqs (loop_step rn s) r) = output_ids (seqs s r) @ ys"
proof (cases "pc s")
  case (Executing b current)
  obtain res c where ex: "execute rn (seqs s) b (rstate s) = (res, c)" by force
  show ?thesis
  proof (cases res)
    case (Inl e)
    with Executing ex show ?thesis by (simp add: loop_step_def loop_raise_seqs)
  next
    case (Inr rows)
    let ?u = "loop_record (fb_seqs b) current rows (s\<lparr>rstate := c\<rparr>)"
    have dist: "distinct (fb_seqs b)"
      using inv Executing by (auto simp: loop_inv_def executing_ok_def sched_inv_def)
    have len: "length rows = length (fb_seqs b)" using rows_okD [OF rn ex [unfolded Inr]] .
    have "\<exists>ys. output_ids (seqs ?u r) = output_ids (seqs s r) @ ys"
    proof (cases "r \<in> set (fb_seqs b)")
      case True
      then have "r \<in> set (map fst (zip (fb_seqs b) rows))" using len by simp
      then obtain tok where "(r, tok) \<in> set (zip (fb_seqs b) rows)" by auto
      with loop_record_casualty(1) [OF dist, of r rows current "s\<lparr>rstate := c\<rparr>"]
        loop_record_survivor(1) [OF dist, of r _ rows current "s\<lparr>rstate := c\<rparr>"]
      show ?thesis by (cases tok) auto
    qed (simp add: loop_record_other)
    with Executing ex Inr show ?thesis by (simp add: loop_step_def)
  qed
qed (simp_all add: loop_step_def)

lemma step_outputs:
  assumes inv: "server_inv s" and step: "serve H s e t" and r: "r < next_id s"
  shows "\<exists>ys. output_ids (seqs t r) = output_ids (seqs s r) @ ys"
proof (cases "e \<in> {LoopRuns, Shutdown, ModelArrives}")
  case False
  then have "output_ids (seqs t r) = output_ids (seqs s r)" using quiet_step [OF step _ inv] r by simp
  then show ?thesis by simp
next
  case True
  note facts = server_inv_D [OF inv]
  have cancelled: "output_ids (seqs (loop_cancel s) r) = output_ids (seqs s r)"
    by (simp add: loop_cancel_def loop_raise_seqs split: loop_pc.split)
  from step True show ?thesis
  proof cases
    case runs
    then have "t = loop_step (engine_runner s) s" using facts by (simp add: loop_resume_step)
    then show ?thesis using loop_step_outputs [OF facts(1,7)] by simp
  next
    case shutdown
    then show ?thesis by (simp add: lifespan_stop_def cancelled)
  next
    case arrives
    then show ?thesis by (simp add: load_swap_def loop_start_def cancelled split: prod.split)
  qed simp_all
qed

lemma item_clients:
  "clients (stream_item r c item s) = (clients s)(r := clients (stream_item r c item s) r)"
  "clients (generate_item r c item s) = (clients s)(r := clients (generate_item r c item s) r)"
  by (simp_all add: stream_item_def generate_item_def Let_def cancel_def split: option.split)

lemma stream_ok_grow:
  assumes "stream_ok decs r c s" "output_ids (seqs t r) = output_ids (seqs s r) @ ys" "decs \<subseteq> decs'"
  shows "stream_ok decs' r c t"
proof (cases "outcome c")
  case Pending
  with assms(1) obtain texts where "length texts = length (got c)" "chunks c = map piece (new_suffixes 0 texts)"
    "sent c = reached 0 texts" "readings decs (output_ids (seqs s r)) texts"
    by (auto simp: stream_ok_def)
  then show ?thesis using readings_mono [OF _ assms(3)] by (auto simp: stream_ok_def Pending assms(2))
next
  case Ended
  with assms(1) obtain texts reason where "length texts = length (before_none (got c))"
    "chunks c = map piece (new_suffixes 0 texts) @ [\<lparr>chunk_text = [], chunk_reason = Some reason\<rparr>]"
    "readings decs (before_none (got c)) texts" "reason \<in> {''stop'', ''length'', ''error''}"
    by (auto simp: stream_ok_def)
  then show ?thesis
    using readings_mono [OF _ assms(3), of "before_none (got c)" texts "[]"]
    unfolding stream_ok_def Ended outcome.case append_Nil2 by blast
qed (simp_all add: stream_ok_def)

lemma stream_ok_token:
  assumes ok: "stream_ok decs r c s" and p: "outcome c = Pending" and cl: "client_ok r c s"
    and qg: "queue_get r s = Some (Some tok, s1)" and d: "decode (engine_runner s1) \<in> decs"
    and c': "clients (stream_item r c (Some tok) s1) r = Some c'"
  shows "stream_ok decs r c' (stream_item r c (Some tok) s1)"
proof -
  let ?out = "output_ids (seqs s r)" and ?txt = "decode (engine_runner s1) (output_ids (seqs s1 r))"
  have out: "output_ids (seqs s1 r) = ?out" by (rule queue_get_Some [OF qg])
  obtain texts where texts: "length texts = length (got c)" "chunks c = map piece (new_suffixes 0 texts)"
    "sent c = reached 0 texts" "readings decs ?out texts"
    using ok p by (auto simp: stream_ok_def)
  have "before_none (got c @ Some tok # channel r s1) = ?out" "None \<notin> set (got c)"
    using cl queue_get_Some(1) [OF qg] by (auto simp: client_ok_def history_def)
  then have "?out = before_none (got c) @ tok # before_none (channel r s1)" "length (before_none (got c)) = length (got c)"
    by (simp_all add: before_none_append before_none_length)
  then have "length texts < length ?out" using texts(1) by simp
  then have "readings decs ?out (texts @ [?txt])"
    by (rule readings_append [OF texts(4) d]) (simp add: out)
  then show ?thesis
    using texts(1-3) p c' out
    by (auto simp: stream_ok_def stream_item_def Let_def new_suffixes_append reached_append max_def
        intro!: exI [of _ "texts @ [?txt]"] split: if_splits)
qed

lemma stream_ok_end:
  assumes ok: "stream_ok decs r c s" and p: "outcome c = Pending" and cl: "client_ok r c s"
    and qg: "queue_get r s = Some (None, s1)" and so: "seq_ok (seqs s r)"
    and c': "clients (stream_item r c None s1) r = Some c'"
  shows "stream_ok decs r c' (stream_item r c None s1)"
proof -
  have none: "None \<notin> set (got c)" and bn: "before_none (got c) = output_ids (seqs s r)"
    and fin: "is_finished (seqs s r)" and nc: "finish_reason (seqs s r) \<noteq> ''cancelled''"
    using cl queue_get_Some(1) [OF qg] by (auto simp: client_ok_def history_def before_none_append)
  have "finish_reason (seqs s r) \<in> {''stop'', ''length'', ''error''}"
    using so fin nc by (auto simp: seq_ok_def is_finished_def)
  moreover obtain texts where "length texts = length (got c)" "chunks c = map piece (new_suffixes 0 texts)"
    "readings decs (output_ids (seqs s r)) texts"
    using ok p by (auto simp: stream_ok_def)
  moreover have "length (before_none (got c)) = length (got c)" using none by (rule before_none_length)
  ultimately show ?thesis
    using p c' bn none
    by (auto simp: stream_ok_def stream_item_def Let_def before_none_append queue_get_Some [OF qg]
        intro!: exI [of _ texts])
qed

text \<open>The decoders in use only become more, and before the model has arrived there is only the mock's.\<close>

lemma decoders_step:
  assumes inv: "server_inv s" and step: "serve H s e t"
    and mock: "load_task s = Fetching \<longrightarrow> decode (engine_runner s) = mock_decode"
  shows "decoders s \<subseteq> decoders t" and "load_task t = Fetching \<longrightarrow> decode (engine_runner t) = mock_decode"
proof -
  have "decoders s \<subseteq> decoders t \<and> (load_task t = Fetching \<longrightarrow> decode (engine_runner t) = mock_decode)"
  proof (cases "e = ModelArrives")
    case True
    with step have "load_task s = Fetching" "t = load_swap H s" by (auto elim: serveE)
    then show ?thesis using mock load_events(1) [of H s] by (simp add: decoders_def lifecycle_def)
  next
    case False
    have rn: "engine_runner t = engine_runner s"
    proof (cases "e \<in> {LoopRuns, Shutdown}")
      case True
      from step True show ?thesis
      proof cases
        case runs
        then have "t = loop_step (engine_runner s) s" using inv by (simp add: loop_resume_step server_inv_D)
        then show ?thesis by simp
      qed (simp_all add: lifespan_stop_def)
    qed (use quiet_step [OF step _ inv] False in simp)
    have "load_task s = Fetching" if "load_task t = Fetching"
    proof (cases "e \<in> {ModelFails, LoadDone}")
      case True
      with step that show ?thesis by cases (auto simp: load_done_def)
    next
      case not_load: False
      then have "lifecycle t = lifecycle s" using serve_lifecycle [OF inv step] False by simp
      then show ?thesis using that by (simp add: lifecycle_def)
    qed
    then show ?thesis using rn mock by (auto simp: decoders_def)
  qed
  then show "decoders s \<subseteq> decoders t" and "load_task t = Fetching \<longrightarrow> decode (engine_runner t) = mock_decode"
    by simp_all
qed

lemma streams_ok_step:
  assumes inv: "server_inv s" and ok: "streams_ok s" and step: "serve H s e t"
  shows "streams_ok t"
proof -
  note facts = server_inv_D [OF inv]
  note grow = decoders_step [OF inv step conjunct1 [OF ok [unfolded streams_ok_def]]]
  have other: "stream_ok (decoders t) r c t" if c: "clients s r = Some c" "streaming c" for r c
  proof -
    obtain ys where ys: "output_ids (seqs t r) = output_ids (seqs s r) @ ys"
      using step_outputs [OF inv step clients_inv_D(1) [OF facts(5) c(1)]] by blast
    have "stream_ok (decoders s) r c s" using ok c by (simp add: streams_ok_def)
    then show ?thesis using ys grow(1) by (rule stream_ok_grow)
  qed
  have same: "streams_ok t" if "clients t = clients s"
    using that other grow(2) by (simp add: streams_ok_def)
  have set: "streams_ok t"
    if "clients t = (clients s)(r := Some c)" "streaming c \<Longrightarrow> stream_ok (decoders t) r c t" for r c
    using that other grow(2) by (simp add: streams_ok_def)
  have fresh: "streams_ok t"
    if "t = start_request m p n temp k cur u" "clients u = clients s" for m p n temp k cur u
    by (rule set [of "next_id u" "\<lparr>streaming = m, sent = 0, chunks = [], got = [], outcome = Pending\<rparr>"])
      (use that in \<open>simp_all add: start_request_arrive stream_ok_def readings_def\<close>)
  from step show ?thesis
  proof cases
    case (post body ev)
    then consider (idle) "clients t = clients s"
      | (new) m p n temp k cur where "t = start_request m p n temp k cur s"
      by (cases "loop_is_dead s"; cases "stream (normalize_body body)")
        (simp_all add: handled_state_def completions_def)
    then show ?thesis
    proof cases
      case idle
      then show ?thesis by (rule same)
    next
      case new
      then show ?thesis by (rule fresh) simp_all
    qed
  next
    case (begins i ev)
    then obtain m p n temp k cur u where "t = start_request m p n temp k cur u"
      "clients u = clients s"
      by (auto simp: stream_begins_def Let_def split: if_splits)
    then show ?thesis by (rule fresh)
  next
    case (resume r)
    then obtain c item s1 where c: "clients s r = Some c" and p: "outcome c = Pending"
      and qg: "queue_get r s = Some (item, s1)"
      and t: "t = (if streaming c then stream_item r c item s1 else generate_item r c item s1)"
      by (auto simp: resume_request_def split: option.splits if_splits)
    have d: "decode (engine_runner s1) \<in> decoders s" by (simp add: decoders_def queue_get_engine [OF qg])
    have cl: "client_ok r c s" using facts(5) c p by (rule clients_inv_D)
    have so: "seq_ok (seqs s r)"
      using facts(3) clients_inv_D(1) [OF facts(5) c] by (simp add: store_inv_def)
    obtain c' where c': "clients t = (clients s)(r \<mapsto> c')" "streaming c' = streaming c"
    proof -
      have "\<exists>c'. clients t r = Some c' \<and> streaming c' = streaming c"
        using t generate_item_client [of r c item s1] stream_item_client [of r c item s1] by auto
      moreover have "clients t = (clients s1)(r := clients t r)"
      proof (cases "streaming c")
        case True
        then have t': "t = stream_item r c item s1" by (simp add: t)
        show ?thesis unfolding t' by (rule item_clients)
      next
        case False
        then have t': "t = generate_item r c item s1" by (simp add: t)
        show ?thesis unfolding t' by (rule item_clients)
      qed
      then have "clients t = (clients s)(r := clients t r)"
        unfolding queue_get_engine(1) [OF qg] .
      ultimately show thesis using that by metis
    qed
    have "stream_ok (decoders s) r c' t" if "streaming c"
    proof -
      have sc: "stream_ok (decoders s) r c s" using ok c that by (simp add: streams_ok_def)
      have t': "t = stream_item r c item s1" using t that by simp
      have cr: "clients (stream_item r c item s1) r = Some c'" using c'(1) by (simp add: t')
      show ?thesis
      proof (cases item)
        case None
        show ?thesis unfolding t' None
          by (rule stream_ok_end [OF sc p cl qg [unfolded None] so cr [unfolded None]])
      next
        case (Some tok)
        show ?thesis unfolding t' Some
          by (rule stream_ok_token [OF sc p cl qg [unfolded Some] d cr [unfolded Some]])
      qed
    qed
    then have "stream_ok (decoders t) r c' t" if "streaming c"
      using stream_ok_grow [OF _ _ grow(1), of r c' t t "[]"] that by simp
    then show ?thesis by (intro set [OF c'(1)]) (simp add: c'(2))
  next
    case (hangup r)
    show ?thesis
    proof (cases "\<exists>c. clients s r = Some c \<and> outcome c = Pending")
      case True
      then obtain c where "clients s r = Some c" "outcome c = Pending" by blast
      with hangup show ?thesis
        by (intro set [of r "c\<lparr>outcome := Disconnected\<rparr>"]) (simp_all add: disconnect_def cancel_def stream_ok_def)
    next
      case False
      then have "t = s" using hangup by (auto simp: disconnect_def split: option.splits)
      then show ?thesis using ok by simp
    qed
  next
    case runs
    then have "t = loop_step (engine_runner s) s" using facts by (simp add: loop_resume_step)
    then show ?thesis by (intro same) simp
  next
    case arrives
    then show ?thesis by (intro same) (simp add: load_swap_def loop_start_def split: prod.split)
  qed (rule same; simp add: drop_stream_def lifespan_stop_def load_fail_def load_done_def)+
qed

lemma started_streams: "started s \<Longrightarrow> streams_ok s"
  by (auto simp: started_def streams_ok_def lifespan_start_def create_app_def loop_start_def mock_runner_def)

interpretation streams: step_invariant started "serve H" "\<lambda>s. server_inv s \<and> streams_ok s" for H
  by unfold_locales (auto intro: started_inv started_streams serve_inv streams_ok_step)

end
