(* ===== verification/KV_Cache.thy ===== *)
theory KV_Cache
  imports Run_Loop
begin

text \<open>
  The key-value cache of \<^verbatim>\<open>QwenRunner\<close> (\<^verbatim>\<open>src/model_server/runners.py\<close>) and the \<open>is_prefill\<close> flag
  of \<^verbatim>\<open>run_loop\<close>: feeding only the newest column to a model that remembers the others gives the
  tokens that feeding everything would give.  The model is not part of the repository; what the
  runner relies on is stated of an arbitrary forward pass, as \<open>cached_forward\<close>: what it returns when it
  returns.  When it raises, with the cache or without, is left open.
\<close>

section \<open>A batch that grew by one column\<close>

definition grown :: "int list list \<Rightarrow> int list list \<Rightarrow> bool" where
  "grown prev rows \<longleftrightarrow> list_all2 (\<lambda>p r. \<exists>t. r = p @ [t]) prev rows"

type_synonym tensors = "int list list \<times> int list list \<times> int list list"

text \<open>The second tensors are the first ones with one more column.\<close>

definition one_more_column :: "tensors \<Rightarrow> tensors \<Rightarrow> bool" where
  "one_more_column old new \<longleftrightarrow>
     (case (old, new) of ((ids, att, pos), (ids', att', pos')) \<Rightarrow>
        grown ids ids' \<and> grown att att' \<and> grown pos pos')"

lemma grown_length: "grown prev rows \<Longrightarrow> length prev = length rows"
  by (auto simp: grown_def dest: list_all2_lengthD)

lemma grown_map:
  assumes "grown prev rows" "\<And>p t. p \<in> set prev \<Longrightarrow> \<exists>u. f (p @ [t]) = f' p @ [u]"
  shows "grown (map f' prev) (map f rows)"
  using assms unfolding grown_def
  by (induction rule: list_all2_induct) auto

lemma width_grown:
  assumes "grown prev rows" "prev \<noteq> []"
  shows "width_of rows = Suc (width_of prev)"
proof -
  have "map length rows = map (Suc \<circ> length) prev"
    using assms(1) unfolding grown_def by (induction rule: list_all2_induct) auto
  then have "set (map length rows) = Suc ` set (map length prev)"
    by (metis image_set list.map_comp)
  moreover have "Max (Suc ` set (map length prev)) = Suc (Max (set (map length prev)))"
    by (rule mono_Max_commute [symmetric]) (use assms(2) in \<open>auto simp: mono_def\<close>)
  ultimately show ?thesis by (simp add: width_of_def)
qed

lemma stack_grown:
  assumes "grown prev rows" "prev \<noteq> []"
  shows "one_more_column (stack pad prev) (stack pad rows)"
proof -
  have "\<exists>u. pad_tokens pad (Suc w) (p @ [t]) = pad_tokens pad w p @ [u]"
    "\<exists>u. mask_tokens (Suc w) (p @ [t]) = mask_tokens w p @ [u]"
    "\<exists>u. position_row (mask_tokens (Suc w) (p @ [t])) = position_row (mask_tokens w p) @ [u]" for w p t
    by (simp_all add: pad_tokens_def mask_tokens_def replicate_append_same [symmetric]
        position_row_def cumsum_append)
  then show ?thesis
    unfolding one_more_column_def stack_def width_grown [OF assms] prod.case
    by (intro conjI grown_map [OF assms(1)]) simp_all
qed

section \<open>What the runner relies on\<close>

text \<open>
  \<open>holds k x\<close> says that the cache \<open>k\<close> describes the columns \<open>x\<close>.  A forward pass without a cache
  returns a cache that describes what it was fed.  Given a cache that describes all columns but the
  last, feeding the last column of the ids and of the positions, with the full mask, gives at that
  column the logits of a pass over everything, and a cache that describes everything.
\<close>

definition cached_forward :: "('v, 'k) forward \<Rightarrow> ('k \<Rightarrow> tensors \<Rightarrow> bool) \<Rightarrow> bool" where
  "cached_forward fw holds \<longleftrightarrow>
     (\<forall>ids att pos logits k. fw None ids att pos = Inr (logits, k) \<longrightarrow> holds k (ids, att, pos)) \<and>
     (\<forall>k old ids att pos logits k'.
        holds k old \<and> one_more_column old (ids, att, pos) \<and>
        fw (Some k) (last_column ids) att (last_column pos) = Inr (logits, k') \<longrightarrow>
        holds k' (ids, att, pos) \<and>
        (\<forall>logits' k''. fw None ids att pos = Inr (logits', k'') \<longrightarrow> last_logits logits = last_logits logits'))"

lemma cached_forwardD:
  assumes "cached_forward fw holds"
  shows "fw None ids att pos = Inr (logits, k) \<Longrightarrow> holds k (ids, att, pos)"
    and "holds k old \<Longrightarrow> one_more_column old (ids, att, pos) \<Longrightarrow>
      fw (Some k) (last_column ids) att (last_column pos) = Inr (logits, k') \<Longrightarrow> holds k' (ids, att, pos)"
    and "holds k old \<Longrightarrow> one_more_column old (ids, att, pos) \<Longrightarrow>
      fw (Some k) (last_column ids) att (last_column pos) = Inr (logits, k') \<Longrightarrow>
      fw None ids att pos = Inr (logits', k'') \<Longrightarrow> last_logits logits = last_logits logits'"
  using assms unfolding cached_forward_def by blast+

section \<open>One tick\<close>

definition tokens_of :: "(nat \<Rightarrow> sequence) \<Rightarrow> nat list \<Rightarrow> int list list" where
  "tokens_of h rs = map (\<lambda>r. token_ids (h r)) rs"

lemma stack_batch:
  "fb_seqs b \<noteq> [] \<Longrightarrow> pad_and_stack pad (map h (fb_seqs b)) = Inr (stack pad (tokens_of h (fb_seqs b)))"
  by (simp add: pad_and_stack_stack tokens_of_def o_def)

text \<open>A cache that fits the batch: it describes the rows without their newest tokens.\<close>

definition cache_fits :: "int \<Rightarrow> ('k \<Rightarrow> tensors \<Rightarrow> bool) \<Rightarrow> (nat \<Rightarrow> sequence) \<Rightarrow> nat list \<Rightarrow> 'k option \<Rightarrow> bool" where
  "cache_fits pad holds h rs cached \<longleftrightarrow>
     (\<exists>k prev. cached = Some k \<and> holds k (stack pad prev) \<and> prev \<noteq> [] \<and> grown prev (tokens_of h rs))"

text \<open>After a tick that did not raise, the cache describes the batch as it was executed.\<close>

lemma cache_after_tick:
  assumes fw: "cached_forward fw holds" and b: "fb_seqs b \<noteq> []"
    and fits: "is_prefill b \<or> cache_fits pad holds h (fb_seqs b) (cache c)"
    and ex: "qwen_execute pad fw T h b c = (Inr rows, c')"
  shows "\<exists>k. cache c' = Some k \<and> holds k (stack pad (tokens_of h (fb_seqs b)))"
proof -
  obtain ids att pos where st: "stack pad (tokens_of h (fb_seqs b)) = (ids, att, pos)" by (rule prod_cases3)
  note ex' = ex [unfolded qwen_execute_def stack_batch [OF b] st]
  show ?thesis
  proof (cases "is_prefill b")
    case True
    with ex' obtain logits k where "fw None ids att pos = Inr (logits, k)" "cache c' = Some k"
      by (auto simp: Let_def split: sum.splits prod.splits)
    with cached_forwardD(1) [OF fw] st show ?thesis by auto
  next
    case False
    with fits obtain k prev where k: "cache c = Some k" "holds k (stack pad prev)" "prev \<noteq> []"
      "grown prev (tokens_of h (fb_seqs b))"
      by (auto simp: cache_fits_def)
    have "one_more_column (stack pad prev) (ids, att, pos)"
      using stack_grown [OF k(4,3), of pad] by (simp add: st)
    moreover obtain logits k' where
      "fw (Some k) (last_column ids) att (last_column pos) = Inr (logits, k')" "cache c' = Some k'"
      using False ex' k(1) by (auto simp: Let_def split: sum.splits prod.splits)
    ultimately show ?thesis using cached_forwardD(2) [OF fw k(2)] st by auto
  qed
qed

text \<open>
  The forward pass may raise -- out of memory, say --, and need not do so on the last column when it
  does so on all columns.  As long as the two passes fail alike, or not at all, a decode step
  gives what a prefill of the same batch would give.
\<close>

definition failure :: "exn + 'a \<Rightarrow> exn option" where
  "failure r = (case r of Inl e \<Rightarrow> Some e | Inr x \<Rightarrow> None)"

lemma failure_simps [simp]: "failure (Inl e) = Some e" "failure (Inr x) = None"
  by (simp_all add: failure_def)

lemma failure_eq_cases:
  assumes "failure r = failure r'"
  obtains (raised) e where "r = Inl e" "r' = Inl e" | (returned) x y where "r = Inr x" "r' = Inr y"
  using assms by (cases r; cases r') auto

definition decode_fails_differently ::
  "('v, 'k) forward \<Rightarrow> int \<Rightarrow> (nat \<Rightarrow> sequence) \<Rightarrow> nat list \<Rightarrow> 'k option \<Rightarrow> bool" where
  "decode_fails_differently fw pad h rs cached =
     (case stack pad (tokens_of h rs) of (ids, att, pos) \<Rightarrow>
        failure (fw cached (last_column ids) att (last_column pos)) \<noteq> failure (fw None ids att pos))"

lemma decode_is_prefill:
  assumes fw: "cached_forward fw holds" "\<not> decode_fails_differently fw pad h rs (cache c)" and b: "rs \<noteq> []"
    and fits: "cache_fits pad holds h rs (cache c)" and g: "rng d = rng c"
    and ex: "qwen_execute pad fw T h \<lparr>fb_seqs = rs, is_prefill = False\<rparr> c = (res, c')"
  shows "\<exists>d'. qwen_execute pad fw T h \<lparr>fb_seqs = rs, is_prefill = True\<rparr> d = (res, d') \<and> rng d' = rng c'"
proof -
  obtain ids att pos where st: "stack pad (tokens_of h rs) = (ids, att, pos)" by (rule prod_cases3)
  obtain k0 prev where k: "cache c = Some k0" "holds k0 (stack pad prev)" "prev \<noteq> []"
    "grown prev (tokens_of h rs)"
    using fits by (auto simp: cache_fits_def)
  have col: "one_more_column (stack pad prev) (ids, att, pos)"
    using stack_grown [OF k(4,3), of pad] by (simp add: st)
  have stacked: "pad_and_stack pad (map h rs) = Inr (ids, att, pos)"
    using stack_batch [of "\<lparr>fb_seqs = rs, is_prefill = False\<rparr>" pad h] b st by simp
  have "failure (fw (Some k0) (last_column ids) att (last_column pos)) = failure (fw None ids att pos)"
    using fw(2) by (simp add: decode_fails_differently_def st k(1))
  then show ?thesis
  proof (cases rule: failure_eq_cases)
    case (raised e)
    with ex g k(1) show ?thesis by (auto simp: qwen_execute_def stacked Let_def)
  next
    case (returned x y)
    then obtain lg k' logits k'' where
      dec: "fw (Some k0) (last_column ids) att (last_column pos) = Inr (lg, k')" and
      full: "fw None ids att pos = Inr (logits, k'')" by (metis prod.collapse)
    have last: "last_logits lg = last_logits logits"
      by (rule cached_forwardD(3) [OF fw(1) k(2) col dec full])
    show ?thesis
      using ex g k(1)
      by (auto simp: qwen_execute_def stacked Let_def dec full last split: sum.splits prod.splits)
  qed
qed

section \<open>The cache over a run\<close>

text \<open>
  Whenever a batch is out as a decode step, the cache fits it; and a loop that is not executing has
  forgotten its last batch.
\<close>

definition cache_ok :: "int \<Rightarrow> ('k \<Rightarrow> tensors \<Rightarrow> bool) \<Rightarrow> (('k, 'g) qwen_state, 'z) run_loop_scheme \<Rightarrow> bool" where
  "cache_ok pad holds s \<longleftrightarrow>
     (case pc s of
        Executing b current \<Rightarrow> is_prefill b \<or> cache_fits pad holds (seqs s) (fb_seqs b) (cache (rstate s))
      | Stopped e \<Rightarrow> True
      | _ \<Rightarrow> members s = [])"

lemma loop_next_idle:
  "members s = [] \<Longrightarrow> cache_ok pad holds (loop_next rn s)"
  by (auto simp: loop_next_def Let_def cache_ok_def)

lemma loop_next_forgets:
  "pc (loop_next rn s) = Sleeping \<Longrightarrow> has_work s \<Longrightarrow> members (loop_next rn s) = []"
  by (auto simp: loop_next_def Let_def split: if_splits)

lemma loop_next_rstate:
  "pc (loop_next rn s) = Executing b current \<Longrightarrow> rstate (loop_next rn s) = rstate s"
  by (auto simp: loop_next_def Let_def split: if_splits)

lemma loop_next_pc:
  "pc (loop_next rn s) = Sleeping \<or> (\<exists>b current. pc (loop_next rn s) = Executing b current)"
  by (auto simp: loop_next_def Let_def)

lemma abort_rstate [simp]: "rstate (fold (\<lambda>r. abort r reason) rs s) = rstate s"
  by (induction rs arbitrary: s) auto

lemma post_rows_rstate [simp]: "rstate (snd (post_rows rows s)) = rstate s"
  by (induction rows arbitrary: s)
    (auto simp: post_rows_simps post_row_def Let_def emit_def put_nowait_def upd_seq_def set_reason_def
      simp del: post_rows.simps(2) split: option.splits)

lemma loop_record_rstate [simp]: "rstate (loop_record batch current rows s) = rstate s"
  by (simp add: loop_record_unfold)

lemma cache_ok_step:
  assumes inv: "loop_inv s" and ok: "cache_ok pad holds s" and fw: "cached_forward fw holds"
    and rn: "execute rn = qwen_execute pad fw T"
  shows "cache_ok pad holds (loop_step rn s)"
proof (cases "pc s")
  case (Executing b current)
  have rows: "rows_ok rn" by (rule qwen.runner_rows_ok) (rule rn)
  obtain res c' where ex: "execute rn (seqs s) b (rstate s) = (res, c')" by force
  have b: "fb_seqs b \<noteq> []" "fb_seqs b = running s"
    using inv Executing by (auto simp: loop_inv_def executing_ok_def)
  show ?thesis
  proof (cases res)
    case (Inl e)
    with Executing ex show ?thesis by (simp add: loop_step_def cache_ok_def)
  next
    case (Inr toks)
    let ?u = "loop_record (fb_seqs b) current toks (s\<lparr>rstate := c'\<rparr>)"
    have t: "loop_step rn s = loop_next rn ?u" using Executing ex Inr by (simp add: loop_step_def)
    have "is_prefill b \<or> cache_fits pad holds (seqs s) (fb_seqs b) (cache (rstate s))"
      using ok Executing by (simp add: cache_ok_def)
    from cache_after_tick [OF fw b(1) this ex [unfolded rn Inr]]
    obtain k where k: "cache c' = Some k" "holds k (stack pad (tokens_of (seqs s) (fb_seqs b)))" by blast
    consider "pc (loop_step rn s) = Sleeping"
      | b' cur' where "pc (loop_step rn s) = Executing b' cur'"
      using loop_next_pc [of rn ?u] by (auto simp: t)
    then show ?thesis
    proof cases
      case 1
      have "has_work ?u" using b by (simp add: has_work_def)
      with 1 show ?thesis using loop_next_forgets [of rn ?u] by (simp add: t cache_ok_def)
    next
      case 2
      have "cache_fits pad holds (seqs (loop_step rn s)) (fb_seqs b') (cache (rstate (loop_step rn s)))"
        if np: "\<not> is_prefill b'"
      proof -
        from decode_rows [OF inv rows Executing 2 np] obtain tokens where
          same: "fb_seqs b' = fb_seqs b" and len: "length tokens = length (fb_seqs b)" and
          toks: "map (\<lambda>r. token_ids (seqs (loop_step rn s) r)) (fb_seqs b') =
            map (\<lambda>(r, tok). token_ids (seqs s r) @ [tok]) (zip (fb_seqs b) tokens)" by blast
        have "grown (tokens_of (seqs s) (fb_seqs b)) (tokens_of (seqs (loop_step rn s)) (fb_seqs b'))"
          unfolding tokens_of_def grown_def toks using len by (auto simp: list_all2_conv_all_nth)
        moreover have "cache (rstate (loop_step rn s)) = Some k"
          using k(1) loop_next_rstate [of rn ?u b' cur'] 2 by (simp add: t)
        moreover have "tokens_of (seqs s) (fb_seqs b) \<noteq> []" using b by (simp add: tokens_of_def)
        ultimately show ?thesis unfolding cache_fits_def using k(2) by blast
      qed
      with 2 show ?thesis by (auto simp: cache_ok_def)
    qed
  qed
qed (use ok in \<open>auto simp: loop_step_def cache_ok_def [of pad holds s] loop_next_idle\<close>)

text \<open>The other coroutines leave the tokens of the batch and the cache alone.\<close>

lemma cache_ok_frame:
  assumes "cache_ok pad holds s" "pc t = pc s" "members t = members s" "rstate t = rstate s"
    and "\<And>b cur r. pc s = Executing b cur \<Longrightarrow> r \<in> set (fb_seqs b) \<Longrightarrow>
      token_ids (seqs t r) = token_ids (seqs s r)"
  shows "cache_ok pad holds t"
proof (cases "pc s")
  case (Executing b cur)
  have "tokens_of (seqs t) (fb_seqs b) = tokens_of (seqs s) (fb_seqs b)"
    using assms(5) [OF Executing] by (simp add: tokens_of_def)
  with assms Executing show ?thesis by (simp add: cache_ok_def cache_fits_def)
qed (use assms in \<open>simp_all add: cache_ok_def\<close>)

section \<open>Lockstep with a loop that never uses the cache\<close>

text \<open>
  The reference: the same runner, told at every tick that it is a prefill, so that it drops its cache
  and feeds every column.
\<close>

definition recomputing :: "'c runner \<Rightarrow> 'c runner" where
  "recomputing rn = rn\<lparr>execute := \<lambda>h b c. execute rn h (b\<lparr>is_prefill := True\<rparr>) c\<rparr>"

text \<open>
  What can happen on the event loop, in any order: the loop is resumed or cancelled, a request
  arrives, a client gives up, a pending callback runs, a reader takes an item.
\<close>

datatype action =
    Resumed
  | Cancelled
  | Arrived "int list" int pyfloat "int option" "int set" "exn + nat"
  | GivenUp nat
  | Delivered
  | ItemRead nat

fun act :: "'c runner \<Rightarrow> action \<Rightarrow> ('c, 'z) run_loop_scheme \<Rightarrow> ('c, 'z) run_loop_scheme option" where
  "act rn Resumed s = loop_resume rn s"
| "act rn Cancelled s = Some (loop_cancel s)"
| "act rn (Arrived p n temp k eos current) s = Some (arrive p n temp k eos current s)"
| "act rn (GivenUp r) s = Some (if r < next_id s then abort r ''cancelled'' s else s)"
| "act rn Delivered s = Some (deliver s)"
| "act rn (ItemRead r) s = Some (case queue_get r s of None \<Rightarrow> s | Some (item, s') \<Rightarrow> s')"

fun run_actions :: "'c runner \<Rightarrow> action list \<Rightarrow> ('c, 'z) run_loop_scheme \<Rightarrow> ('c, 'z) run_loop_scheme option" where
  "run_actions rn [] s = Some s"
| "run_actions rn (a # as) s = Option.bind (act rn a s) (run_actions rn as)"

text \<open>Nothing but the loop itself looks at the runner's state.\<close>

lemma upd_seq_rstate [simp]: "upd_seq r f (s\<lparr>rstate := c\<rparr>) = (upd_seq r f s)\<lparr>rstate := c\<rparr>"
  by (simp add: upd_seq_def)

lemma emit_rstate [simp]: "emit r t (s\<lparr>rstate := c\<rparr>) = (emit r t s)\<lparr>rstate := c\<rparr>"
  by (simp add: emit_def put_nowait_def split: option.split)

lemma set_reason_rstate [simp]: "set_reason r x (s\<lparr>rstate := c\<rparr>) = (set_reason r x s)\<lparr>rstate := c\<rparr>"
  by (simp add: set_reason_def)

lemma emit_rstate_waiting [simp]:
  "emit r t (s\<lparr>rstate := c, waiting := w\<rparr>) = (emit r t (s\<lparr>waiting := w\<rparr>))\<lparr>rstate := c\<rparr>"
  by (simp add: emit_def put_nowait_def upd_seq_def split: option.split)

lemma abort_rstate_upd [simp]: "abort r x (s\<lparr>rstate := c\<rparr>) = (abort r x s)\<lparr>rstate := c\<rparr>"
  by (simp add: abort_def Let_def)

lemma fold_abort_rstate_upd [simp]:
  "fold (\<lambda>r. abort r x) rs (s\<lparr>rstate := c\<rparr>) = (fold (\<lambda>r. abort r x) rs s)\<lparr>rstate := c\<rparr>"
  by (induction rs arbitrary: s) simp_all

lemma post_row_rstate_upd [simp]:
  "snd (post_row r t (s\<lparr>rstate := c\<rparr>)) = (snd (post_row r t s))\<lparr>rstate := c\<rparr>"
  by (simp add: post_row_def Let_def)

lemma post_rows_rstate_upd [simp]:
  "snd (post_rows rows (s\<lparr>rstate := c\<rparr>)) = (snd (post_rows rows s))\<lparr>rstate := c\<rparr>"
  by (induction rows arbitrary: s) (auto simp: post_rows_simps simp del: post_rows.simps(2))

lemma loop_record_rstate_upd [simp]:
  "loop_record b cur rows (s\<lparr>rstate := c\<rparr>) = (loop_record b cur rows s)\<lparr>rstate := c\<rparr>"
  by (simp add: loop_record_unfold)

lemma fold_fail_rstate_upd [simp]:
  "fold fail_row rs (s\<lparr>rstate := c\<rparr>) = (fold fail_row rs s)\<lparr>rstate := c\<rparr>"
  by (induction rs arbitrary: s) (simp_all add: fail_row_def)

lemma fold_fail_rstate [simp]: "rstate (fold fail_row rs s) = rstate s"
  by (induction rs arbitrary: s)
    (auto simp: fail_row_def emit_def put_nowait_def upd_seq_def set_reason_def split: option.splits)

lemma loop_raise_rstate_upd [simp]: "loop_raise e (s\<lparr>rstate := c\<rparr>) = (loop_raise e s)\<lparr>rstate := c\<rparr>"
  by (simp add: loop_raise_def fail_all_def Let_def)

lemma loop_raise_rstate: "rstate (loop_raise e s) = rstate s"
  by (simp add: loop_raise_def fail_all_def Let_def)

lemma loop_cancel_rstate_upd: "loop_cancel (s\<lparr>rstate := c\<rparr>) = (loop_cancel s)\<lparr>rstate := c\<rparr>"
  by (simp add: loop_cancel_def split: loop_pc.split)

lemma arrive_rstate_upd:
  "arrive p n temp k eos cur (s\<lparr>rstate := c\<rparr>) = (arrive p n temp k eos cur s)\<lparr>rstate := c\<rparr>"
  by (simp add: arrive_def new_sequence_def add_def Let_def emit_def put_nowait_def upd_seq_def
      set_reason_def split: option.split)

lemma deliver_rstate_upd: "deliver (s\<lparr>rstate := c\<rparr>) = (deliver s)\<lparr>rstate := c\<rparr>"
  by (simp add: deliver_def put_nowait_def upd_seq_def split: list.split prod.split)

lemma queue_get_rstate_upd:
  "queue_get r (s\<lparr>rstate := c\<rparr>) = map_option (\<lambda>(item, t). (item, t\<lparr>rstate := c\<rparr>)) (queue_get r s)"
  by (simp add: queue_get_def split: list.split)

lemma has_work_rstate_upd [simp]: "has_work (s\<lparr>rstate := c\<rparr>) = has_work s"
  by (simp add: has_work_def)

lemma schedule_rstate_upd [simp]:
  "fst (schedule (s\<lparr>rstate := c\<rparr>)) = fst (schedule s)"
  "snd (schedule (s\<lparr>rstate := c\<rparr>)) = (snd (schedule s))\<lparr>rstate := c\<rparr>"
  by (simp_all add: schedule_unfold Let_def)

section \<open>The two loops side by side\<close>

text \<open>
  One tick with the cache is one tick without: executing the batch with its flag gives the same
  tokens -- or fails in the same way, and consumes the same random numbers -- as dropping the cache
  and feeding every column.
\<close>

lemma prefill_ignores_cache:
  assumes "is_prefill b" "rng d = rng c"
  shows "qwen_execute pad fw T h b d = qwen_execute pad fw T h b c"
proof -
  have "d\<lparr>cache := None\<rparr> = c\<lparr>cache := None\<rparr>" using assms(2) by (cases d, cases c) simp
  with assms(1) show ?thesis by (simp add: qwen_execute_def)
qed

text \<open>The loop is at a decode step whose pass fails differently with the cache and without.\<close>

definition passes_differ :: "('v, 'k) forward \<Rightarrow> int \<Rightarrow> (('k, 'g) qwen_state, 'z) run_loop_scheme \<Rightarrow> bool" where
  "passes_differ fw pad s =
     (case pc s of
        Executing b current \<Rightarrow>
          \<not> is_prefill b \<and> decode_fails_differently fw pad (seqs s) (fb_seqs b) (cache (rstate s))
      | _ \<Rightarrow> False)"

lemma tick_lockstep:
  assumes "loop_inv s" "pc s = Executing b current" "cache_ok pad holds s"
    and fw: "cached_forward fw holds" "\<not> passes_differ fw pad s" and g: "rng d = rng (rstate s)"
    and ex: "qwen_execute pad fw T (seqs s) b (rstate s) = (res, c')"
  shows "\<exists>d'. qwen_execute pad fw T (seqs s) (b\<lparr>is_prefill := True\<rparr>) d = (res, d') \<and> rng d' = rng c'"
proof (cases "is_prefill b")
  case True
  then have "b\<lparr>is_prefill := True\<rparr> = b" by (cases b) simp
  with prefill_ignores_cache [OF True g, of pad fw T "seqs s"] ex show ?thesis by simp
next
  case False
  then have b: "b = \<lparr>fb_seqs = fb_seqs b, is_prefill = False\<rparr>"
    "b\<lparr>is_prefill := True\<rparr> = \<lparr>fb_seqs = fb_seqs b, is_prefill = True\<rparr>"
    by (cases b; simp)+
  have "fb_seqs b \<noteq> []" using assms(1,2) by (auto simp: loop_inv_def executing_ok_def)
  moreover have "\<not> decode_fails_differently fw pad (seqs s) (fb_seqs b) (cache (rstate s))"
    using fw(2) assms(2) False by (simp add: passes_differ_def)
  moreover have "cache_fits pad holds (seqs s) (fb_seqs b) (cache (rstate s))"
    using assms(2,3) False by (simp add: cache_ok_def)
  moreover have "qwen_execute pad fw T (seqs s) \<lparr>fb_seqs = fb_seqs b, is_prefill = False\<rparr> (rstate s) = (res, c')"
    using ex b(1) by simp
  ultimately show ?thesis
    unfolding b(2) by (intro decode_is_prefill [OF fw(1)]) (use g in simp_all)
qed

lemma loop_next_lockstep:
  assumes "reset rn = qwen_reset" "rng d = rng (rstate s)"
  shows "\<exists>d'. loop_next (recomputing rn) (s\<lparr>rstate := d\<rparr>) = (loop_next rn s)\<lparr>rstate := d'\<rparr> \<and>
    rng d' = rng (rstate (loop_next rn s))"
  using assms
  by (intro exI [of _ "if has_work s \<and> fst (schedule s) = [] then qwen_reset d else d"])
    (simp add: loop_next_def Let_def qwen_reset_def recomputing_def)

lemma loop_step_lockstep:
  assumes inv: "loop_inv s" and ok: "cache_ok pad holds s"
    and fw: "cached_forward fw holds" "\<not> passes_differ fw pad s"
    and rn: "execute rn = qwen_execute pad fw T" "reset rn = qwen_reset"
    and g: "rng d = rng (rstate s)"
  shows "\<exists>d'. loop_step (recomputing rn) (s\<lparr>rstate := d\<rparr>) = (loop_step rn s)\<lparr>rstate := d'\<rparr> \<and>
    rng d' = rng (rstate (loop_step rn s))"
proof (cases "pc s")
  case (Executing b current)
  obtain res c' where ex: "qwen_execute pad fw T (seqs s) b (rstate s) = (res, c')" by force
  from tick_lockstep [OF inv Executing ok fw g ex] obtain d' where
    d': "qwen_execute pad fw T (seqs s) (b\<lparr>is_prefill := True\<rparr>) d = (res, d')" "rng d' = rng c'" by blast
  show ?thesis
  proof (cases res)
    case (Inl e)
    with Executing ex d' rn show ?thesis
      by (intro exI [of _ d']) (simp add: loop_step_def recomputing_def)
  next
    case (Inr rows)
    let ?u = "(loop_record (fb_seqs b) current rows s)\<lparr>rstate := c'\<rparr>"
    from loop_next_lockstep [OF rn(2), of d' ?u] d'(2) obtain e where
      "loop_next (recomputing rn) (?u\<lparr>rstate := d'\<rparr>) = (loop_next rn ?u)\<lparr>rstate := e\<rparr>"
      "rng e = rng (rstate (loop_next rn ?u))" by auto
    with Executing ex d' rn Inr show ?thesis
      by (auto simp: loop_step_def recomputing_def)
  qed
qed (use loop_next_lockstep [OF rn(2) g] g in \<open>auto simp: loop_step_def\<close>)

lemma token_ids_cong:
  "output_ids p = output_ids q \<Longrightarrow> spec_of p = spec_of q \<Longrightarrow> token_ids p = token_ids q"
  by (auto simp: token_ids_def dest: spec_of_fields)

lemma act_inv:
  assumes inv: "loop_inv s" and ok: "cache_ok pad holds s" and bs: "1 \<le> max_batch_size s"
    and fw: "cached_forward fw holds" and rn: "execute rn = qwen_execute pad fw T"
  shows "\<exists>t. act rn a s = Some t \<and> loop_inv t \<and> cache_ok pad holds t \<and> 1 \<le> max_batch_size t"
proof (cases a)
  case Resumed
  have "rows_ok rn" by (rule qwen.runner_rows_ok) (rule rn)
  with Resumed assms show ?thesis by (simp add: loop_resume_step loop_step_inv cache_ok_step)
next
  case Cancelled
  have "cache_ok pad holds (loop_cancel s)"
    using ok by (simp add: loop_cancel_def cache_ok_def split: loop_pc.split)
  moreover have "max_batch_size (loop_cancel s) = max_batch_size s"
    by (simp add: loop_cancel_def split: loop_pc.split)
  ultimately show ?thesis using Cancelled inv bs by (simp add: loop_inv_cancel)
next
  case (Arrived p n temp k eos cur)
  have "cache_ok pad holds (arrive p n temp k eos cur s)"
  proof (rule cache_ok_frame [OF ok])
    fix b c r assume "pc s = Executing b c" "r \<in> set (fb_seqs b)"
    then have "r \<noteq> next_id s" using inv by (auto simp: loop_inv_def executing_ok_def sched_inv_def)
    then show "token_ids (seqs (arrive p n temp k eos cur s) r) = token_ids (seqs s r)"
      by (intro token_ids_cong) (simp_all add: arrive_other)
  qed (simp_all add: arrive_loop)
  with Arrived inv bs show ?thesis by (simp add: loop_inv_arrive arrive_frame)
next
  case (GivenUp r)
  have "token_ids (seqs (abort r ''cancelled'' s) q) = token_ids (seqs s q)" for q
    by (rule token_ids_cong) simp_all
  then have "cache_ok pad holds (abort r ''cancelled'' s)"
    by (intro cache_ok_frame [OF ok]) simp_all
  with GivenUp assms show ?thesis by (simp add: loop_inv_abort)
next
  case Delivered
  have "token_ids (seqs (deliver s) q) = token_ids (seqs s q)" for q
    by (rule token_ids_cong) simp_all
  then have "cache_ok pad holds (deliver s)"
    by (intro cache_ok_frame [OF ok]) simp_all
  with Delivered assms show ?thesis by (simp add: loop_inv_deliver)
next
  case (ItemRead r)
  show ?thesis
  proof (cases "queue_get r s")
    case (Some x)
    then obtain item t where qg: "queue_get r s = Some (item, t)" by (cases x) auto
    have "token_ids (seqs t q) = token_ids (seqs s q)" for q
      by (rule token_ids_cong) (simp_all add: queue_get_Some [OF qg])
    then have "cache_ok pad holds t"
      by (intro cache_ok_frame [OF ok]) (simp_all add: queue_get_loop [OF qg])
    with qg ItemRead assms show ?thesis
      by (simp add: loop_inv_queue_get [OF _ qg] queue_get_loop [OF qg])
  qed (use ItemRead assms in simp)
qed

lemma act_lockstep:
  assumes inv: "loop_inv s" and ok: "cache_ok pad holds s" and bs: "1 \<le> max_batch_size s"
    and fw: "cached_forward fw holds" "a = Resumed \<Longrightarrow> \<not> passes_differ fw pad s"
    and rn: "execute rn = qwen_execute pad fw T" "reset rn = qwen_reset"
    and g: "rng d = rng (rstate s)" and t: "act rn a s = Some t"
  shows "\<exists>d'. act (recomputing rn) a (s\<lparr>rstate := d\<rparr>) = Some (t\<lparr>rstate := d'\<rparr>) \<and> rng d' = rng (rstate t)"
proof (cases a)
  case Resumed
  with t bs loop_step_lockstep [OF inv ok fw(1) fw(2) [OF Resumed] rn g] show ?thesis by (simp add: loop_resume_step)
next
  case Cancelled
  have "rstate (loop_cancel s) = rstate s"
    by (simp add: loop_cancel_def loop_raise_def fail_all_def Let_def split: loop_pc.split del: fold_append)
  with Cancelled t g show ?thesis by (auto simp: loop_cancel_rstate_upd)
next
  case (Arrived p n temp k eos cur)
  with t g show ?thesis by (auto simp: arrive_rstate_upd arrive_loop)
next
  case (GivenUp r)
  with t g show ?thesis by auto
next
  case Delivered
  with t g show ?thesis by (auto simp: deliver_rstate_upd)
next
  case (ItemRead r)
  with t g show ?thesis
    by (cases "queue_get r s") (auto simp: queue_get_rstate_upd queue_get_loop)
qed

text \<open>C2: continuous batching with the cache is correct.  Whatever happens on the event loop, in
  whatever order -- requests arrive, finish and are cancelled, batches change, the loop runs or is
  cancelled --, the loop on the caching runner goes through exactly the states of the loop on the
  runner that feeds every column of every batch at every tick: the same batches, tokens, finish
  reasons, queues and random numbers.  This holds of any forward pass that obeys the contract of a
  key-value cache, \<open>cached_forward\<close>, whether it raises or not: the two loops go together through all
  the actions, or through all those before the first resumption at which the pass on the newest column
  and the pass on every column fail differently, such as one of them running out of memory alone.  The run
  starts from any state in which the loop's invariant holds, its cache fits its batch and the batch size is
  at least 1, as in a fresh loop.\<close>

theorem cached_run_equals_recomputation:
  fixes T :: "('v, 'g) torch"
  defines "rn fw tok gc thinking \<equiv> qwen_runner tok gc fw T thinking"
  assumes "loop_inv s" "cache_ok (pad_id_of tok) holds s" "1 \<le> max_batch_size s"
    and "cached_forward fw holds"
  shows "\<exists>n t c. run_actions (rn fw tok gc thinking) (take n acts) s = Some t \<and>
    run_actions (recomputing (rn fw tok gc thinking)) (take n acts) s = Some (t\<lparr>rstate := c\<rparr>) \<and>
    rng c = rng (rstate t) \<and>
    (if n < length acts then acts ! n = Resumed \<and> passes_differ fw (pad_id_of tok) t else n = length acts)"
proof -
  have rn: "execute (rn fw tok gc thinking) = qwen_execute (pad_id_of tok) fw T"
    "reset (rn fw tok gc thinking) = qwen_reset"
    by (simp_all add: rn_def qwen_runner_def)
  have "\<exists>n t c. run_actions (rn fw tok gc thinking) (take n acts) u = Some t \<and>
    run_actions (recomputing (rn fw tok gc thinking)) (take n acts) (u\<lparr>rstate := d\<rparr>) = Some (t\<lparr>rstate := c\<rparr>) \<and>
    rng c = rng (rstate t) \<and>
    (if n < length acts then acts ! n = Resumed \<and> passes_differ fw (pad_id_of tok) t else n = length acts)"
    if "loop_inv u" "cache_ok (pad_id_of tok) holds u" "1 \<le> max_batch_size u" "rng d = rng (rstate u)" for u d
    using that
  proof (induction acts arbitrary: u d)
    case (Cons a acts)
    show ?case
    proof (cases "a = Resumed \<and> passes_differ fw (pad_id_of tok) u")
      case True
      with Cons.prems(4) show ?thesis by (intro exI [of _ 0] exI [of _ u] exI [of _ d]) simp
    next
      case False
      obtain v where v: "act (rn fw tok gc thinking) a u = Some v" "loop_inv v"
        "cache_ok (pad_id_of tok) holds v" "1 \<le> max_batch_size v"
        using act_inv [OF Cons.prems(1-3) assms(5) rn(1)] by blast
      obtain d' where d': "act (recomputing (rn fw tok gc thinking)) a (u\<lparr>rstate := d\<rparr>) = Some (v\<lparr>rstate := d'\<rparr>)"
        "rng d' = rng (rstate v)"
        using act_lockstep [OF Cons.prems(1-3) assms(5) _ rn Cons.prems(4) v(1)] False by blast
      from Cons.IH [OF v(2-4) d'(2)] obtain n t c where
        "run_actions (rn fw tok gc thinking) (take n acts) v = Some t"
        "run_actions (recomputing (rn fw tok gc thinking)) (take n acts) (v\<lparr>rstate := d'\<rparr>) = Some (t\<lparr>rstate := c\<rparr>)"
        "rng c = rng (rstate t)"
        "if n < length acts then acts ! n = Resumed \<and> passes_differ fw (pad_id_of tok) t else n = length acts" by blast
      with v(1) d'(1) show ?thesis
        by (intro exI [of _ "Suc n"] exI [of _ t] exI [of _ c]) (simp split: if_splits)
    qed
  qed auto
  from this [OF assms(2-4) refl] show ?thesis by simp
qed

text \<open>
  A forward pass that remembers its columns: the logits of a row are the sum of all its ids.
\<close>

definition summing_forward :: "(int, tensors) forward" where
  "summing_forward cached ids att pos =
     (let (old_ids, old_pos) = (case cached of
            None \<Rightarrow> (map (\<lambda>_. []) ids, map (\<lambda>_. []) pos)
          | Some (i, _, p) \<Rightarrow> (i, p));
          all_ids = map2 (@) old_ids ids
      in Inr (map2 (\<lambda>row fed. map (\<lambda>_. [sum_list row, 3]) fed) all_ids ids, (all_ids, att, map2 (@) old_pos pos)))"

lemma grown_last_column:
  assumes "grown prev rows"
  shows "map2 (@) prev (last_column rows) = rows"
    and "map2 (\<lambda>row fed. map (\<lambda>_. f row) fed) rows (last_column rows) = map (\<lambda>row. [f row]) rows"
    and "[] \<notin> set rows"
  using assms unfolding grown_def last_column_def
  by (induction rule: list_all2_induct) auto

lemma map2_empty: "map2 (@) (map (\<lambda>_. []) xs) xs = xs"
  by (induction xs) auto

lemma map2_same: "map2 f xs xs = map (\<lambda>x. f x x) xs"
  by (induction xs) auto

lemma last_const: "xs \<noteq> [] \<Longrightarrow> last (map (\<lambda>_. c) xs) = c"
  by (induction xs) auto

lemma last_logits_rows:
  "[] \<notin> set rows \<Longrightarrow> last_logits (map (\<lambda>row. map (\<lambda>_. f row) row) rows) = Inr (map f rows)"
  by (auto simp: last_logits_def intro!: last_const)

lemma summing_forward_cached: "cached_forward summing_forward (=)"
  unfolding cached_forward_def
proof (intro conjI allI impI; (elim conjE)?)
  fix k old ids att pos logits k'
  assume old: "k = old" and col: "one_more_column old (ids, att, pos)"
    and run: "summing_forward (Some k) (last_column ids) att (last_column pos) = Inr (logits, k')"
  obtain i a p where o: "old = (i, a, p)" by (rule prod_cases3)
  have g: "grown i ids" "grown p pos" using col by (simp_all add: o one_more_column_def)
  note gi = grown_last_column [OF g(1)] and gp = grown_last_column [OF g(2)]
  have lk: "logits = map (\<lambda>row. [[sum_list row, 3]]) ids" "k' = (ids, att, pos)"
    using run old gi(2) [of "\<lambda>row. [sum_list row, 3]"] by (auto simp: summing_forward_def o gi(1) gp(1))
  show "k' = (ids, att, pos)" by (rule lk)
  fix logits' k''
  assume "summing_forward None ids att pos = Inr (logits', k'')"
  then have "logits' = map (\<lambda>row. map (\<lambda>_. [sum_list row, 3]) row) ids"
    by (simp add: summing_forward_def map2_empty map2_same)
  then show "last_logits logits = last_logits logits'"
    using last_logits_rows [OF gi(3), of "\<lambda>row. [sum_list row, 3]"]
    by (auto simp: lk(1) last_logits_def o_def)
qed (auto simp: summing_forward_def map2_empty)

definition fresh_loop :: "int \<Rightarrow> int \<Rightarrow> 'c \<Rightarrow> 'c run_loop" where
  "fresh_loop bs bt c =
     \<lparr>seqs = (\<lambda>_. blank_sequence), next_id = 0, calls = [], waiting = [], running = [],
      max_batch_size = bs, max_batch_tokens = bt, members = [], pc = NotStarted, rstate = c\<rparr>"

lemma summing_forward_returns: "failure (summing_forward cached ids att pos) = None"
  by (simp add: summing_forward_def failure_def split_def Let_def)

lemma summing_forward_alike: "\<not> passes_differ summing_forward pad s"
proof -
  have "\<not> decode_fails_differently summing_forward pad h rs cached" for h rs cached
    by (cases "stack pad (tokens_of h rs)") (simp add: decode_fails_differently_def summing_forward_returns)
  then show ?thesis by (cases "pc s") (simp_all add: passes_differ_def)
qed

text \<open>
  The same model in a small memory: feeding more than four ids at once raises.  It obeys the
  contract, and its decode steps succeed where a pass over everything does not.
\<close>

definition tight_forward :: "(int, tensors) forward" where
  "tight_forward cached ids att pos =
     (if length (concat ids) \<le> 4 then summing_forward cached ids att pos else Inl OutOfMemoryError)"

lemma tight_forward_summing:
  assumes "tight_forward cached ids att pos = Inr out"
  shows "summing_forward cached ids att pos = Inr out"
proof (cases "length (concat ids) \<le> 4")
  case True
  then show ?thesis using assms unfolding tight_forward_def by (simp only: if_True)
next
  case False
  then show ?thesis using assms unfolding tight_forward_def by (simp only: if_False sum.distinct)
qed

lemma tight_forward_cached: "cached_forward tight_forward (=)"
  unfolding cached_forward_def
proof (intro conjI allI impI; (elim conjE)?)
  fix ids att pos logits k
  assume "tight_forward None ids att pos = Inr (logits, k)"
  then show "k = (ids, att, pos)"
    by (rule cached_forwardD(1) [OF summing_forward_cached tight_forward_summing])
next
  fix k old ids att pos logits k'
  assume k: "k = old" and col: "one_more_column old (ids, att, pos)"
    and run: "tight_forward (Some k) (last_column ids) att (last_column pos) = Inr (logits, k')"
  note run = run [THEN tight_forward_summing]
  show "k' = (ids, att, pos)" by (rule cached_forwardD(2) [OF summing_forward_cached k col run])
  fix logits' k''
  assume "tight_forward None ids att pos = Inr (logits', k'')"
  then show "last_logits logits = last_logits logits'"
    by (rule cached_forwardD(3) [OF summing_forward_cached k col run tight_forward_summing])
qed

lemma fresh_loop_ok:
  assumes "0 \<le> bs"
  shows "loop_inv (fresh_loop bs bt c)" "cache_ok pad holds (fresh_loop bs bt c)" "max_batch_size (fresh_loop bs bt c) = bs"
  using assms
  by (simp_all add: fresh_loop_def loop_inv_def sched_inv_def store_inv_def calls_ok_def none_lost_def
      executing_ok_def cache_ok_def)

definition demo_actions :: "action list" where
  "demo_actions =
     [Arrived [5, 6] 4 (Fin 0) None {1} (Inr 0), Resumed, Arrived [9] 3 (Fin 1) (Some 2) {} (Inr 1),
      Resumed, Resumed, Delivered, GivenUp 0, Resumed, Resumed]"

lemma cached_run_equals_recomputation_witness:
  "(\<exists>t c. run_actions (qwen_runner ascii_tokenizer None summing_forward int_torch False) demo_actions
       (fresh_loop 2 100 \<lparr>cache = None, rng = ()\<rparr>) = Some t \<and>
     run_actions (recomputing (qwen_runner ascii_tokenizer None summing_forward int_torch False)) demo_actions
       (fresh_loop 2 100 \<lparr>cache = None, rng = ()\<rparr>) = Some (t\<lparr>rstate := c\<rparr>) \<and> rng c = rng (rstate t)) \<and>
   (\<exists>n t c. run_actions (qwen_runner ascii_tokenizer None tight_forward int_torch False) (take n demo_actions)
       (fresh_loop 2 100 \<lparr>cache = None, rng = ()\<rparr>) = Some t \<and>
     run_actions (recomputing (qwen_runner ascii_tokenizer None tight_forward int_torch False)) (take n demo_actions)
       (fresh_loop 2 100 \<lparr>cache = None, rng = ()\<rparr>) = Some (t\<lparr>rstate := c\<rparr>) \<and> rng c = rng (rstate t) \<and>
     (if n < length demo_actions then demo_actions ! n = Resumed \<and> passes_differ tight_forward (pad_id_of ascii_tokenizer) t
      else n = length demo_actions))"
proof -
  let ?s = "fresh_loop 2 100 \<lparr>cache = None, rng = ()\<rparr> :: (tensors, unit) qwen_state run_loop"
  note fresh = fresh_loop_ok [of 2, OF zero_le_numeral, where bt = 100 and c = "\<lparr>cache = None, rng = ()\<rparr> :: (tensors, unit) qwen_state"]
  have bs: "1 \<le> max_batch_size ?s" by (simp add: fresh)
  note fits = fresh(2) [where pad = "pad_id_of ascii_tokenizer"]
  note run = cached_run_equals_recomputation [OF fresh(1) fits bs, where gc = None and thinking = False
      and T = int_torch and acts = demo_actions]
  obtain n t c where n: "run_actions (qwen_runner ascii_tokenizer None summing_forward int_torch False)
      (take n demo_actions) ?s = Some t"
    "run_actions (recomputing (qwen_runner ascii_tokenizer None summing_forward int_torch False))
      (take n demo_actions) ?s = Some (t\<lparr>rstate := c\<rparr>)" "rng c = rng (rstate t)"
    "if n < length demo_actions then demo_actions ! n = Resumed \<and> passes_differ summing_forward (pad_id_of ascii_tokenizer) t
     else n = length demo_actions"
    using run [OF summing_forward_cached] by blast
  have all: "take n demo_actions = demo_actions"
    using n(4) by (simp only: summing_forward_alike simp_thms split: if_splits) simp
  show ?thesis
  proof
    show "\<exists>t c. run_actions (qwen_runner ascii_tokenizer None summing_forward int_torch False) demo_actions ?s = Some t \<and>
      run_actions (recomputing (qwen_runner ascii_tokenizer None summing_forward int_torch False)) demo_actions ?s
        = Some (t\<lparr>rstate := c\<rparr>) \<and> rng c = rng (rstate t)"
      by (intro exI conjI) (rule n(1-3) [unfolded all])+
  qed (rule run [OF tight_forward_cached])
qed

end
