(* ===== verification/Bench.thy ===== *)
theory Bench
  imports Wire
begin

text \<open>
  \<^verbatim>\<open>src/model_server/bench.py\<close>: the benchmark of the bare model.  What it calls -- torch, the
  hub, the clock, the garbage collector -- is a record of operations on an opaque world; every call,
  every line it prints and every name it unbinds leaves an event in a trace.  Rates and times are
  exact rationals; the code computes them in doubles.  The last group of definitions is the text of the
  printed lines.  Every \<^verbatim>\<open>generate\<close> call also passes \<^verbatim>\<open>do_sample=False\<close> and \<^verbatim>\<open>pad_token_id=0\<close>, which
  never vary.
\<close>

section \<open>Calls that may raise\<close>

datatype bench_dtype = FP32 | FP16 | BF16

record gen_args =
  gen_min_tokens :: int
  gen_max_tokens :: int
  cache_implementation :: "string option"
  disable_compile :: bool
  compile_mode :: "string option"

record batch_enc =
  input_ids :: "int list list"
  attention_mask :: "int list list"

datatype extra = NoExtra | WeightsGB rat | CompileSeconds rat

datatype report =
    Header string string
  | Row ustring rat rat rat extra
  | AttnHeader int
  | BatchRow int rat rat rat rat
  | OomRow int
  | Roofline rat rat rat rat rat
  | Banner ustring ustring int int

datatype gpu_event =
    Loaded
  | DropModel
  | DropEnc
  | Generated int int
  | Synchronized
  | ClockRead rat
  | Collected
  | CacheEmptied
  | PeakReset
  | PeakRead
  | Printed report

record ('w, 'm) rig =
  from_pretrained :: "ustring \<Rightarrow> bench_dtype \<Rightarrow> string \<Rightarrow> 'w \<Rightarrow> (exn + 'm) \<times> 'w"
  encode_word :: "ustring \<Rightarrow> int list"
  tensor_full :: "int \<Rightarrow> int \<Rightarrow> int \<Rightarrow> 'w \<Rightarrow> (exn + int list list) \<times> 'w"
  ones_like :: "int list list \<Rightarrow> 'w \<Rightarrow> (exn + int list list) \<times> 'w"
  generate_on :: "'m \<Rightarrow> batch_enc \<Rightarrow> gen_args \<Rightarrow> 'w \<Rightarrow> (exn + unit) \<times> 'w"
  synchronize_device :: "'w \<Rightarrow> (exn + unit) \<times> 'w"
  perf_counter :: "'w \<Rightarrow> rat \<times> 'w"
  model_params :: "'m \<Rightarrow> (int \<times> int) list"
  max_memory_allocated :: "'w \<Rightarrow> int"
  unbind_model :: "'m \<Rightarrow> 'w \<Rightarrow> 'w"
  unbind_enc :: "'w \<Rightarrow> 'w"
  gc_collect :: "'w \<Rightarrow> 'w"
  empty_cache :: "'w \<Rightarrow> 'w"
  reset_peak_memory_stats :: "'w \<Rightarrow> 'w"
  device_name :: ustring
  torch_version :: ustring

record 'w bench =
  world :: 'w
  trace :: "gpu_event list"

type_synonym ('w, 'a) io = "'w bench \<Rightarrow> (exn + 'a) \<times> 'w bench"

definition return_io :: "'a \<Rightarrow> ('w, 'a) io" where
  "return_io x s = (Inr x, s)"

definition throw :: "exn \<Rightarrow> ('w, 'a) io" where
  "throw e s = (Inl e, s)"

definition andthen :: "('w, 'a) io \<Rightarrow> ('a \<Rightarrow> ('w, 'b) io) \<Rightarrow> ('w, 'b) io" where
  "andthen f g s = (case f s of (Inl e, t) \<Rightarrow> (Inl e, t) | (Inr x, t) \<Rightarrow> g x t)"

definition before :: "('w, 'a) io \<Rightarrow> ('w, 'b) io \<Rightarrow> ('w, 'b) io" where
  "before f g = andthen f (\<lambda>_. g)"

text \<open>The clause \<^verbatim>\<open>except torch.cuda.OutOfMemoryError\<close>.\<close>

definition except_oom :: "('w, 'a) io \<Rightarrow> ('w, 'a) io \<Rightarrow> ('w, 'a) io" where
  "except_oom f h s =
     (case f s of (Inl e, t) \<Rightarrow> if e = OutOfMemoryError then h t else (Inl e, t) | (Inr x, t) \<Rightarrow> (Inr x, t))"

definition note_event :: "gpu_event \<Rightarrow> ('w, unit) io" where
  "note_event e s = (Inr (), s\<lparr>trace := trace s @ [e]\<rparr>)"

definition outside :: "('w \<Rightarrow> (exn + 'a) \<times> 'w) \<Rightarrow> ('w, 'a) io" where
  "outside f s = (case f (world s) of (r, w) \<Rightarrow> (r, s\<lparr>world := w\<rparr>))"

definition change_world :: "('w \<Rightarrow> 'w) \<Rightarrow> ('w, unit) io" where
  "change_world f s = (Inr (), s\<lparr>world := f (world s)\<rparr>)"

definition print_out :: "report \<Rightarrow> ('w, unit) io" where
  "print_out l = note_event (Printed l)"

definition divide_by :: "rat \<Rightarrow> rat \<Rightarrow> ('w, rat) io" where
  "divide_by a b = (if b = 0 then throw (OtherException ''ZeroDivisionError'') else return_io (a / b))"

section \<open>Measuring\<close>

definition bench_model_id :: ustring where
  "bench_model_id = lit ''Qwen/Qwen3-0.6B''"

definition spec_bandwidth_gbs :: rat where
  "spec_bandwidth_gbs = 504"

definition bench_load :: "('w, 'm) rig \<Rightarrow> bench_dtype \<Rightarrow> string \<Rightarrow> ('w, 'm) io" where
  "bench_load R dt attn =
     andthen (outside (from_pretrained R bench_model_id dt attn)) (\<lambda>m.
     before (note_event Loaded) (return_io m))"

definition make_batch :: "('w, 'm) rig \<Rightarrow> int \<Rightarrow> int \<Rightarrow> ('w, batch_enc) io" where
  "make_batch R bs prompt_len =
     (case encode_word R (lit ''the'') of
        [] \<Rightarrow> throw (OtherException ''IndexError'')
      | tok # _ \<Rightarrow>
          andthen (outside (tensor_full R bs prompt_len tok)) (\<lambda>ids.
          andthen (outside (ones_like R ids)) (\<lambda>msk.
          return_io \<lparr>input_ids = ids, attention_mask = msk\<rparr>)))"

definition synchronize :: "('w, 'm) rig \<Rightarrow> ('w, unit) io" where
  "synchronize R = before (outside (synchronize_device R)) (note_event Synchronized)"

definition read_clock :: "('w, 'm) rig \<Rightarrow> ('w, rat) io" where
  "read_clock R =
     andthen (outside (\<lambda>w. case perf_counter R w of (t, w') \<Rightarrow> (Inr t, w'))) (\<lambda>t.
     before (note_event (ClockRead t)) (return_io t))"

definition run_generate :: "('w, 'm) rig \<Rightarrow> 'm \<Rightarrow> batch_enc \<Rightarrow> gen_args \<Rightarrow> ('w, unit) io" where
  "run_generate R m enc g =
     before (outside (generate_on R m enc g)) (note_event (Generated (gen_min_tokens g) (gen_max_tokens g)))"

text \<open>\<^verbatim>\<open>statistics.median\<close>, which raises on no data.\<close>

definition median :: "rat list \<Rightarrow> ('w, rat) io" where
  "median xs =
     (let ys = sort xs; n = length ys in
      if n = 0 then throw (OtherException ''StatisticsError'')
      else if odd n then return_io (ys ! (n div 2))
      else return_io ((ys ! (n div 2 - 1) + ys ! (n div 2)) / 2))"

definition base_args :: "int \<Rightarrow> string option \<Rightarrow> bool \<Rightarrow> string option \<Rightarrow> gen_args" where
  "base_args n cache_impl no_compile mode =
     \<lparr>gen_min_tokens = n, gen_max_tokens = n, cache_implementation = cache_impl,
      disable_compile = no_compile, compile_mode = mode\<rparr>"

definition pinned :: "int \<Rightarrow> gen_args \<Rightarrow> gen_args" where
  "pinned n g = g\<lparr>gen_min_tokens := n, gen_max_tokens := n\<rparr>"

text \<open>One timed call: synchronize, read the clock, generate, synchronize, read it again.\<close>

definition timed :: "('w, 'm) rig \<Rightarrow> 'm \<Rightarrow> batch_enc \<Rightarrow> gen_args \<Rightarrow> ('w, rat) io" where
  "timed R m enc g =
     before (synchronize R)
     (andthen (read_clock R) (\<lambda>t0.
      before (run_generate R m enc g)
      (before (synchronize R)
      (andthen (read_clock R) (\<lambda>t1. return_io (t1 - t0))))))"

fun timed_runs ::
  "nat \<Rightarrow> ('w, 'm) rig \<Rightarrow> 'm \<Rightarrow> batch_enc \<Rightarrow> gen_args \<Rightarrow> ('w, rat list \<times> rat list) io" where
  "timed_runs 0 R m enc g = return_io ([], [])"
| "timed_runs (Suc k) R m enc g =
     andthen (timed R m enc (pinned 1 g)) (\<lambda>a.
     andthen (timed R m enc g) (\<lambda>b.
     andthen (timed_runs k R m enc g) (\<lambda>(ttfts, totals). return_io (a # ttfts, b # totals))))"

definition measure_with ::
  "('w, 'm) rig \<Rightarrow> 'm \<Rightarrow> batch_enc \<Rightarrow> gen_args \<Rightarrow> nat \<Rightarrow> ('w, rat \<times> rat \<times> rat) io" where
  "measure_with R m enc base runs =
     (let bs = of_nat (length (input_ids enc)); n = of_int (gen_max_tokens base) in
      before (run_generate R m enc (pinned 4 base))
      (before (synchronize R)
      (andthen (timed_runs runs R m enc base) (\<lambda>(ttfts, totals).
       andthen (median ttfts) (\<lambda>ttft.
       andthen (median totals) (\<lambda>total.
       andthen (divide_by (bs * (n - 1)) (total - ttft)) (\<lambda>decode_tok_s.
       andthen (divide_by (bs * n) total) (\<lambda>total_tok_s.
       return_io (ttft * 1000, decode_tok_s, total_tok_s)))))))))"

definition measure_plain ::
  "('w, 'm) rig \<Rightarrow> 'm \<Rightarrow> batch_enc \<Rightarrow> int \<Rightarrow> ('w, rat \<times> rat \<times> rat) io" where
  "measure_plain R m enc n = measure_with R m enc (base_args n None False None) 3"


section \<open>The benchmarks\<close>

text \<open>
  \<^verbatim>\<open>del model, enc\<close>, \<^verbatim>\<open>del enc\<close>, \<^verbatim>\<open>del model\<close> unbind the caller's names; \<^verbatim>\<open>free()\<close> then reclaims.
\<close>

definition del_model :: "('w, 'm) rig \<Rightarrow> 'm \<Rightarrow> ('w, unit) io" where
  "del_model R m = before (change_world (unbind_model R m)) (note_event DropModel)"

definition del_enc :: "('w, 'm) rig \<Rightarrow> ('w, unit) io" where
  "del_enc R = before (change_world (unbind_enc R)) (note_event DropEnc)"

definition free :: "('w, 'm) rig \<Rightarrow> ('w, unit) io" where
  "free R =
     before (before (change_world (gc_collect R)) (note_event Collected))
     (before (before (change_world (empty_cache R)) (note_event CacheEmptied))
             (before (change_world (reset_peak_memory_stats R)) (note_event PeakReset)))"

definition read_peak :: "('w, 'm) rig \<Rightarrow> ('w, rat) io" where
  "read_peak R =
     andthen (outside (\<lambda>w. (Inr (max_memory_allocated R w), w))) (\<lambda>b.
     before (note_event PeakRead) (return_io (of_int b / 10 ^ 9)))"

definition weight_bytes :: "('w, 'm) rig \<Rightarrow> 'm \<Rightarrow> int" where
  "weight_bytes R m = (\<Sum>(numel, element_size) \<leftarrow> model_params R m. numel * element_size)"

text \<open>\<^verbatim>\<open>del model, enc\<close> and \<^verbatim>\<open>free()\<close>, with which every configuration ends.\<close>

definition clear :: "('w, 'm) rig \<Rightarrow> 'm \<Rightarrow> ('w, unit) io" where
  "clear R m = before (del_model R m) (before (del_enc R) (free R))"

definition dtype_row :: "('w, 'm) rig \<Rightarrow> int \<Rightarrow> int \<Rightarrow> ustring \<times> bench_dtype \<Rightarrow> ('w, unit) io" where
  "dtype_row R prompt_len n = (\<lambda>(name, dt).
     andthen (bench_load R dt ''sdpa'') (\<lambda>m.
     andthen (make_batch R 1 prompt_len) (\<lambda>enc.
     andthen (measure_plain R m enc n) (\<lambda>(ttft, dec, _).
     andthen (read_peak R) (\<lambda>peak.
     before (print_out (Row name ttft dec peak (WeightsGB (of_int (weight_bytes R m) / 10 ^ 9))))
     (clear R m))))))"

fun each :: "('a \<Rightarrow> ('w, unit) io) \<Rightarrow> 'a list \<Rightarrow> ('w, unit) io" where
  "each f [] = return_io ()"
| "each f (x # xs) = before (f x) (each f xs)"

definition dtype_configs :: "(ustring \<times> bench_dtype) list" where
  "dtype_configs = [(lit ''float32'', FP32), (lit ''float16'', FP16), (lit ''bfloat16'', BF16)]"

definition bench_dtypes :: "('w, 'm) rig \<Rightarrow> int \<Rightarrow> int \<Rightarrow> ('w, unit) io" where
  "bench_dtypes R prompt_len n =
     before (print_out (Header ''dtype (batch=1)'' ''decode tok/s''))
            (each (dtype_row R prompt_len n) dtype_configs)"

definition attn_row :: "('w, 'm) rig \<Rightarrow> int \<Rightarrow> int \<Rightarrow> string \<Rightarrow> ('w, unit) io" where
  "attn_row R prompt_len n attn =
     andthen (bench_load R BF16 attn) (\<lambda>m.
     andthen (make_batch R 1 prompt_len) (\<lambda>enc.
     andthen (measure_plain R m enc n) (\<lambda>(ttft, dec, _).
     andthen (read_peak R) (\<lambda>peak.
     before (print_out (Row (lit attn) ttft dec peak NoExtra))
     (clear R m)))))"

definition bench_attn :: "('w, 'm) rig \<Rightarrow> int \<Rightarrow> int \<Rightarrow> ('w, unit) io" where
  "bench_attn R prompt_len n =
     before (print_out (AttnHeader prompt_len))
     (before (each (attn_row R prompt_len n) [''eager'', ''sdpa''])
     (before (print_out (AttnHeader 2048))
             (each (attn_row R 2048 32) [''eager'', ''sdpa''])))"

text \<open>
  The loop over the batch sizes.  \<open>first\<close> is the local \<^verbatim>\<open>base\<close>: \<^verbatim>\<open>base or total\<close> takes the first total that is
  not 0.  Out of memory ends the loop, whether it was the batch or the measurement that ran out; the
  tensors of the failed attempt lose their name by \<^verbatim>\<open>enc = None\<close>.
\<close>

definition batch_sizes :: "int list" where
  "batch_sizes = [1, 2, 4, 8, 16, 32, 64]"

definition batch_attempt ::
  "('w, 'm) rig \<Rightarrow> 'm \<Rightarrow> int \<Rightarrow> int \<Rightarrow> rat option \<Rightarrow> int \<Rightarrow> ('w, rat option) io" where
  "batch_attempt R m prompt_len n first bs =
     andthen (make_batch R bs prompt_len) (\<lambda>enc.
     andthen (measure_plain R m enc n) (\<lambda>(ttft, _, total).
     let base = (case first of None \<Rightarrow> total | Some b \<Rightarrow> if b = 0 then total else b) in
     andthen (read_peak R) (\<lambda>peak.
     andthen (divide_by total base) (\<lambda>speedup.
     before (print_out (BatchRow bs ttft total peak speedup))
     (before (del_enc R)
     (before (free R) (return_io (Some base))))))))"

definition batch_oom :: "('w, 'm) rig \<Rightarrow> int \<Rightarrow> ('w, unit) io" where
  "batch_oom R bs = before (print_out (OomRow bs)) (before (del_enc R) (free R))"

fun batch_loop ::
  "('w, 'm) rig \<Rightarrow> 'm \<Rightarrow> int \<Rightarrow> int \<Rightarrow> rat option \<Rightarrow> int list \<Rightarrow> ('w, unit) io" where
  "batch_loop R m prompt_len n first [] = return_io ()"
| "batch_loop R m prompt_len n first (bs # sizes) =
     andthen
       (except_oom (andthen (batch_attempt R m prompt_len n first bs) (\<lambda>b. return_io (Some b)))
                   (before (batch_oom R bs) (return_io None)))
       (\<lambda>r. case r of
          Some b \<Rightarrow> batch_loop R m prompt_len n b sizes
        | None \<Rightarrow> return_io ())"

definition bench_batch :: "('w, 'm) rig \<Rightarrow> int \<Rightarrow> int \<Rightarrow> ('w, unit) io" where
  "bench_batch R prompt_len n =
     before (print_out (Header ''batch scaling'' ''total tok/s''))
     (andthen (bench_load R BF16 ''sdpa'') (\<lambda>m.
      before (batch_loop R m prompt_len n None batch_sizes)
      (before (del_model R m) (free R))))"

definition compile_row ::
  "('w, 'm) rig \<Rightarrow> int \<Rightarrow> gen_args \<Rightarrow> string \<Rightarrow> ('w, unit) io" where
  "compile_row R prompt_len g label =
     andthen (bench_load R BF16 ''sdpa'') (\<lambda>m.
     andthen (make_batch R 1 prompt_len) (\<lambda>enc.
     andthen (measure_with R m enc g 3) (\<lambda>(ttft, dec, _).
     andthen (read_peak R) (\<lambda>peak.
     before (print_out (Row (lit label) ttft dec peak NoExtra))
     (clear R m)))))"

definition graphs_row :: "('w, 'm) rig \<Rightarrow> int \<Rightarrow> int \<Rightarrow> ('w, unit) io" where
  "graphs_row R prompt_len n =
     andthen (bench_load R BF16 ''sdpa'') (\<lambda>m.
     andthen (make_batch R 1 prompt_len) (\<lambda>enc.
     andthen (read_clock R) (\<lambda>t0.
     andthen (measure_with R m enc (base_args n (Some ''static'') False (Some ''reduce-overhead'')) 3)
       (\<lambda>(ttft, dec, _).
     andthen (read_peak R) (\<lambda>peak.
     andthen (read_clock R) (\<lambda>t1.
     before (print_out (Row (lit ''static + CUDA graphs'') ttft dec peak (CompileSeconds (t1 - t0))))
     (clear R m)))))))"

definition bench_compile :: "('w, 'm) rig \<Rightarrow> int \<Rightarrow> int \<Rightarrow> ('w, unit) io" where
  "bench_compile R prompt_len n =
     before (print_out (Header ''cache + compile (batch=1)'' ''decode tok/s''))
     (before (compile_row R prompt_len (base_args n None False None) ''dynamic cache'')
     (before (compile_row R prompt_len (base_args n (Some ''static'') True None) ''static cache'')
             (graphs_row R prompt_len n)))"

definition bench_roofline :: "('w, 'm) rig \<Rightarrow> int \<Rightarrow> int \<Rightarrow> ('w, unit) io" where
  "bench_roofline R prompt_len n =
     andthen (bench_load R BF16 ''sdpa'') (\<lambda>m.
     let bytes = of_int (weight_bytes R m) in
     andthen (make_batch R 1 prompt_len) (\<lambda>enc.
     andthen (measure_plain R m enc n) (\<lambda>(_, dec, _).
     andthen (divide_by (spec_bandwidth_gbs * 10 ^ 9) bytes) (\<lambda>ceiling.
     andthen (divide_by dec ceiling) (\<lambda>share.
     before (print_out (Roofline (bytes / 10 ^ 9) spec_bandwidth_gbs ceiling dec (share * 100)))
     (clear R m))))))"

text \<open>\<^verbatim>\<open>BENCHES\<close>, in the order of the dictionary, and the main program with its parsed arguments.\<close>

definition benches :: "('w, 'm) rig \<Rightarrow> (string \<times> (int \<Rightarrow> int \<Rightarrow> ('w, unit) io)) list" where
  "benches R =
     [(''dtype'', bench_dtypes R), (''attn'', bench_attn R), (''batch'', bench_batch R),
      (''compile'', bench_compile R), (''roofline'', bench_roofline R)]"

definition bench_main :: "('w, 'm) rig \<Rightarrow> string \<Rightarrow> int \<Rightarrow> int \<Rightarrow> ('w, unit) io" where
  "bench_main R which prompt_len n =
     (if which \<noteq> ''all'' \<and> map_of (benches R) which = None
      then throw (OtherException ''SystemExit'')
      else before (print_out (Banner (device_name R) (torch_version R) prompt_len n))
        (each (\<lambda>name. case map_of (benches R) name of
                 Some run \<Rightarrow> run prompt_len n
               | None \<Rightarrow> throw (OtherException ''KeyError''))
           (if which = ''all'' then map fst (benches R) else [which])))"

section \<open>The printed table\<close>

text \<open>
  The lines \<^verbatim>\<open>print\<close> writes: \<^verbatim>\<open>{x:.1f}\<close> rounds to the nearest decimal, ties to even, and the widths
  \<^verbatim>\<open><26\<close>, \<^verbatim>\<open>>8\<close>, \<^verbatim>\<open>>12\<close>, \<^verbatim>\<open>>9\<close> pad with spaces and never cut.
\<close>

definition pad_left :: "nat \<Rightarrow> ustring \<Rightarrow> ustring" where
  "pad_left w s = replicate (w - length s) 32 @ s"

definition pad_right :: "nat \<Rightarrow> ustring \<Rightarrow> ustring" where
  "pad_right w s = s @ replicate (w - length s) 32"

definition round_even :: "rat \<Rightarrow> int" where
  "round_even x =
     (let f = \<lfloor>x\<rfloor>; d = x - of_int f in
      if d < 1 / 2 then f else if d > 1 / 2 then f + 1 else if even f then f else f + 1)"

definition fixed_point :: "nat \<Rightarrow> rat \<Rightarrow> ustring" where
  "fixed_point decimals x =
     (let digits = nat_digits (nat (round_even (\<bar>x\<bar> * 10 ^ decimals)));
          digits = replicate (Suc decimals - length digits) 48 @ digits;
          whole = take (length digits - decimals) digits
      in (if x < 0 then [45] else []) @ whole @
         (if decimals = 0 then [] else 46 # drop (length digits - decimals) digits))"

definition extra_text :: "extra \<Rightarrow> ustring" where
  "extra_text e =
     (case e of
        NoExtra \<Rightarrow> []
      | WeightsGB w \<Rightarrow> lit ''weights '' @ fixed_point 2 w @ lit '' GB''
      | CompileSeconds t \<Rightarrow> lit ''(incl. '' @ fixed_point 0 t @ lit ''s compile)'')"

definition row_text :: "ustring \<Rightarrow> rat \<Rightarrow> rat \<Rightarrow> rat \<Rightarrow> ustring \<Rightarrow> ustring" where
  "row_text label ttft dec peak_gb extra =
     pad_right 26 label @ [32] @ pad_left 8 (fixed_point 1 ttft) @ [32] @
     pad_left 12 (fixed_point 1 dec) @ [32] @ pad_left 9 (fixed_point 2 peak_gb) @ [32, 32] @ extra"

definition header_text :: "ustring \<Rightarrow> ustring \<Rightarrow> ustring list" where
  "header_text title third =
     [[], lit ''=== '' @ title @ lit '' ==='',
      pad_right 26 (lit ''config'') @ [32] @ pad_left 8 (lit ''TTFT ms'') @ [32] @
      pad_left 12 third @ [32] @ pad_left 9 (lit ''peak GB'')]"

fun report_text :: "report \<Rightarrow> ustring list" where
  "report_text (Header title third) = header_text (lit title) (lit third)"
| "report_text (AttnHeader n) =
     header_text (lit ''attention impl (batch=1, prompt='' @ show_int n @ lit '')'') (lit ''decode tok/s'')"
| "report_text (Row label ttft dec peak e) = [row_text label ttft dec peak (extra_text e)]"
| "report_text (BatchRow bs ttft tot peak speedup) =
     [row_text (lit ''batch='' @ show_int bs) ttft tot peak
        (pad_left 5 (fixed_point 1 speedup) @ lit ''x vs bs=1'')]"
| "report_text (OomRow bs) = [lit ''batch='' @ pad_right 20 (show_int bs) @ lit '' OOM'']"
| "report_text (Roofline gb bandwidth limit dec percent) =
     [[], lit ''=== decode roofline (batch=1) ==='',
      lit ''weights read per token : '' @ fixed_point 2 gb @ lit '' GB'',
      lit ''spec memory bandwidth  : '' @ fixed_point 0 bandwidth @ lit '' GB/s'',
      lit ''theoretical ceiling    : '' @ fixed_point 0 limit @ lit '' tok/s'',
      lit ''measured               : '' @ fixed_point 0 dec @ lit '' tok/s'',
      lit ''bandwidth utilisation  : '' @ fixed_point 0 percent @ lit ''%'']"
| "report_text (Banner device version n m) =
     [device @ lit '' | torch '' @ version @ lit '' | prompt='' @ show_int n @ lit '' new='' @ show_int m]"

lemma length_pad [simp]:
  "length (pad_left w s) = max w (length s)" "length (pad_right w s) = max w (length s)"
  by (simp_all add: pad_left_def pad_right_def)

text \<open>Rows line up with their header as long as nothing is wider than its column.\<close>

lemma row_aligned:
  assumes "length label \<le> 26" "length (fixed_point 1 ttft) \<le> 8" "length (fixed_point 1 dec) \<le> 12"
    "length (fixed_point 2 peak) \<le> 9" "length third \<le> 12"
  shows "length (row_text label ttft dec peak []) = length (last (header_text title third)) + 2"
  using assms by (simp add: row_text_def header_text_def lit_def)

text \<open>Ties go to even, and a value that rounds to nothing keeps its zero.\<close>

lemma fixed_point_examples:
  "fixed_point 1 (225 / 100) = lit ''2.2''" "fixed_point 1 (235 / 100) = lit ''2.4''"
  "fixed_point 2 (1 / 1000) = lit ''0.00''" "fixed_point 0 (503 / 2) = lit ''252''"
  by code_simp+

section \<open>One model at a time\<close>

text \<open>
  What a trace says about the model in video memory: nothing there, a model under a name, the name
  unbound, and then the three steps of \<^verbatim>\<open>free()\<close> in their order.  Loading onto anything but a
  cleared device is an error, and so is generating or reading the peak without a model.
\<close>

datatype vram = Clear | Held | Dropped | Unreachable | Uncached

fun watch :: "vram \<Rightarrow> gpu_event \<Rightarrow> vram option" where
  "watch v Loaded = (if v = Clear then Some Held else None)"
| "watch v DropModel = (if v = Held then Some Dropped else None)"
| "watch v (Generated a b) = (if v = Held then Some v else None)"
| "watch v PeakRead = (if v = Held then Some v else None)"
| "watch v Collected = Some (if v = Dropped then Unreachable else v)"
| "watch v CacheEmptied = Some (if v = Unreachable then Uncached else v)"
| "watch v PeakReset = Some (if v = Uncached then Clear else v)"
| "watch v _ = Some v"

definition follow :: "gpu_event list \<Rightarrow> vram option" where
  "follow es = foldl (\<lambda>v e. Option.bind v (\<lambda>v. watch v e)) (Some Clear) es"

lemma follow_Nil [simp]: "follow [] = Some Clear"
  by (simp add: follow_def)

lemma follow_snoc [simp]: "follow (es @ [e]) = Option.bind (follow es) (\<lambda>v. watch v e)"
  by (simp add: follow_def)

text \<open>
  A call that finds the device in state \<open>p\<close> leaves it in state \<open>q\<close> when it returns and in one of
  \<open>E\<close> when it raises.
\<close>

definition sees :: "vram \<Rightarrow> ('w, 'a) io \<Rightarrow> vram \<Rightarrow> vram set \<Rightarrow> bool" where
  "sees p f q E \<longleftrightarrow>
     (\<forall>s. follow (trace s) = Some p \<longrightarrow>
       (case f s of (Inr x, t) \<Rightarrow> follow (trace t) = Some q | (Inl e, t) \<Rightarrow> follow (trace t) \<in> Some ` E))"

named_theorems sees_intros \<open>how the calls of the benchmark move the device\<close>

lemma seesD:
  "sees p f q E \<Longrightarrow> follow (trace s) = Some p \<Longrightarrow> f s = (Inr x, t) \<Longrightarrow> follow (trace t) = Some q"
  "sees p f q E \<Longrightarrow> follow (trace s) = Some p \<Longrightarrow> f s = (Inl e, t) \<Longrightarrow> follow (trace t) \<in> Some ` E"
  unfolding sees_def by (auto dest!: spec [of _ s])

lemma sees_ret [sees_intros]: "sees p (return_io x) p E"
  by (simp add: sees_def return_io_def)

lemma sees_throw [sees_intros]: "p \<in> E \<Longrightarrow> sees p (throw e) q E"
  by (simp add: sees_def throw_def)

lemma sees_andthen [sees_intros]:
  assumes "sees p f q E" and "\<And>x. sees q (g x) r E"
  shows "sees p (andthen f g) r E"
  unfolding sees_def andthen_def using assms
  by (auto split: prod.split sum.split dest: seesD)

lemma sees_before [sees_intros]: "sees p f q E \<Longrightarrow> sees q g r E \<Longrightarrow> sees p (before f g) r E"
  unfolding before_def by (rule sees_andthen)

lemma sees_weaken: "sees p f q E \<Longrightarrow> E \<subseteq> E' \<Longrightarrow> sees p f q E'"
  unfolding sees_def by (auto split: prod.splits sum.splits) blast

lemma sees_except_oom:
  fixes f :: "('w, 'a) io"
  assumes "sees p f q F" and "F \<subseteq> E" and "\<And>v. v \<in> F \<Longrightarrow> sees v h q E"
  shows "sees p (except_oom f h) q E"
  unfolding sees_def except_oom_def
proof (intro allI impI)
  fix s :: "'w bench" assume "follow (trace s) = Some p"
  note f = seesD(1) [OF assms(1) this] seesD(2) [OF assms(1) this]
  show "case case f s of (Inl e, t) \<Rightarrow> if e = OutOfMemoryError then h t else (Inl e, t) | (Inr x, t) \<Rightarrow> (Inr x, t) of
      (Inl e, t) \<Rightarrow> follow (trace t) \<in> Some ` E | (Inr x, t) \<Rightarrow> follow (trace t) = Some q"
  proof (cases "f s")
    case (Pair a t)
    show ?thesis
    proof (cases a)
      case (Inl e)
      then obtain v where v: "v \<in> F" "follow (trace t) = Some v" using f(2) Pair by auto
      then show ?thesis
        using Pair Inl assms(2) seesD(1) [OF assms(3) [OF v(1)] v(2)] seesD(2) [OF assms(3) [OF v(1)] v(2)]
        by (auto split: prod.split sum.split)
    next
      case (Inr x)
      then show ?thesis using f(1) Pair by simp
    qed
  qed
qed

lemma sees_outside [sees_intros]: "p \<in> E \<Longrightarrow> sees p (outside f) p E"
  by (auto simp: sees_def outside_def split: prod.splits sum.splits)

lemma sees_change_world [sees_intros]: "sees p (change_world f) p E"
  by (simp add: sees_def change_world_def)

lemma sees_note_event [sees_intros]: "watch p e = Some q \<Longrightarrow> sees p (note_event e) q E"
  by (simp add: sees_def note_event_def)

lemma sees_print_out [sees_intros]: "sees p (print_out l) p E"
  unfolding print_out_def by (rule sees_note_event) simp

lemma sees_divide_by [sees_intros]: "p \<in> E \<Longrightarrow> sees p (divide_by a b) p E"
  by (auto simp: divide_by_def intro: sees_intros)

lemma sees_median [sees_intros]: "p \<in> E \<Longrightarrow> sees p (median xs) p E"
  by (auto simp: median_def Let_def intro: sees_intros)

lemma sees_bench_load [sees_intros]: "Clear \<in> E \<Longrightarrow> sees Clear (bench_load R dt attn) Held E"
  unfolding bench_load_def by ((rule sees_intros | assumption | simp)+)

lemma sees_make_batch [sees_intros]: "p \<in> E \<Longrightarrow> sees p (make_batch R bs n) p E"
  unfolding make_batch_def by (auto split: list.split intro!: sees_intros)

lemma sees_synchronize [sees_intros]: "p \<in> E \<Longrightarrow> sees p (synchronize R) p E"
  unfolding synchronize_def by ((rule sees_intros | assumption | simp)+)

lemma sees_read_clock [sees_intros]: "p \<in> E \<Longrightarrow> sees p (read_clock R) p E"
  unfolding read_clock_def by ((rule sees_intros | assumption | simp)+)

lemma sees_read_peak [sees_intros]: "Held \<in> E \<Longrightarrow> sees Held (read_peak R) Held E"
  unfolding read_peak_def by ((rule sees_intros | assumption | simp)+)

lemma sees_run_generate [sees_intros]: "Held \<in> E \<Longrightarrow> sees Held (run_generate R m enc g) Held E"
  unfolding run_generate_def by ((rule sees_intros | assumption | simp)+)

lemma sees_timed [sees_intros]: "Held \<in> E \<Longrightarrow> sees Held (timed R m enc g) Held E"
  unfolding timed_def by ((rule sees_intros | assumption | simp)+)

lemma sees_timed_runs [sees_intros]: "Held \<in> E \<Longrightarrow> sees Held (timed_runs k R m enc g) Held E"
  by (induction k) (simp_all add: split_def, (rule sees_intros | assumption | simp)+)

lemma sees_measure_with [sees_intros]: "Held \<in> E \<Longrightarrow> sees Held (measure_with R m enc g k) Held E"
  unfolding measure_with_def Let_def split_def by ((rule sees_intros | assumption | simp)+)

lemma sees_measure_plain [sees_intros]: "Held \<in> E \<Longrightarrow> sees Held (measure_plain R m enc n) Held E"
  unfolding measure_plain_def by (rule sees_measure_with)

lemma sees_del_model [sees_intros]: "sees Held (del_model R m) Dropped E"
  unfolding del_model_def by ((rule sees_intros | assumption | simp)+)

lemma sees_del_enc [sees_intros]: "sees p (del_enc R) p E"
  unfolding del_enc_def by ((rule sees_intros | assumption | simp)+)

lemma sees_free_Dropped [sees_intros]: "sees Dropped (free R) Clear E"
  unfolding free_def by ((rule sees_intros | assumption | simp)+)

lemma sees_free_Held [sees_intros]: "sees Held (free R) Held E"
  unfolding free_def by ((rule sees_intros | assumption | simp)+)

lemma sees_clear [sees_intros]: "sees Held (clear R m) Clear E"
  unfolding clear_def by ((rule sees_intros | assumption | simp)+)

lemma sees_each: "(\<And>x. sees p (f x) p E) \<Longrightarrow> sees p (each f xs) p E"
  by (induction xs) (auto intro: sees_intros)

lemma sees_batch_attempt: "Held \<in> E \<Longrightarrow> sees Held (batch_attempt R m p n first bs) Held E"
  unfolding batch_attempt_def Let_def split_def by ((rule sees_intros | assumption | simp)+)

lemma sees_batch_loop [sees_intros]: "Held \<in> E \<Longrightarrow> sees Held (batch_loop R m p n first sizes) Held E"
proof (induction sizes arbitrary: first)
  case Nil
  then show ?case by (simp add: sees_ret)
next
  case (Cons bs sizes)
  have body: "sees Held (andthen (batch_attempt R m p n first bs) (\<lambda>b. return_io (Some b))) Held {Held}"
    by (rule sees_andthen [OF sees_batch_attempt sees_ret]) simp
  have "sees Held (before (batch_oom R bs) (return_io None)) Held E"
    unfolding batch_oom_def by ((rule sees_intros | assumption | simp)+)
  then have "sees Held (except_oom (andthen (batch_attempt R m p n first bs) (\<lambda>b. return_io (Some b)))
      (before (batch_oom R bs) (return_io None))) Held E"
    by (intro sees_except_oom [OF body]) (use Cons.prems in auto)
  then show ?case
    by (auto intro!: sees_andthen Cons.IH sees_ret Cons.prems split: option.split)
qed

lemma sees_dtype_row [sees_intros]: "sees Clear (dtype_row R p n c) Clear UNIV"
  unfolding dtype_row_def split_def by ((rule sees_intros | assumption | simp)+)

lemma sees_attn_row [sees_intros]: "sees Clear (attn_row R p n a) Clear UNIV"
  unfolding attn_row_def split_def by ((rule sees_intros | assumption | simp)+)

lemma sees_compile_row [sees_intros]: "sees Clear (compile_row R p g l) Clear UNIV"
  unfolding compile_row_def split_def by ((rule sees_intros | assumption | simp)+)

lemma sees_graphs_row [sees_intros]: "sees Clear (graphs_row R p n) Clear UNIV"
  unfolding graphs_row_def split_def by ((rule sees_intros | assumption | simp)+)

lemmas sees_rows [sees_intros] = sees_each [OF sees_dtype_row] sees_each [OF sees_attn_row]

lemma sees_benches:
  "(name, run) \<in> set (benches R) \<Longrightarrow> sees Clear (run p n) Clear UNIV"
  unfolding benches_def
  by (auto simp: bench_dtypes_def bench_attn_def bench_batch_def bench_compile_def bench_roofline_def
        Let_def split_def; ((rule sees_intros | assumption | simp)+))

text \<open>C36: one model at a time.  Whatever the benchmark is asked to run, and wherever a call raises, it
  never loads a model while another one is in video memory: before every load the last model's name
  is unbound and the memory reclaimed -- collected, uncached, the peak reset, in this order --, every
  peak it reads belongs to the model it has loaded, and a run that returns leaves the device clear.\<close>

theorem one_model_at_a_time:
  "case bench_main R which p n \<lparr>world = w, trace = []\<rparr> of
     (Inr _, t) \<Rightarrow> follow (trace t) = Some Clear
   | (Inl _, t) \<Rightarrow> follow (trace t) \<noteq> None"
proof -
  have "sees Clear (case map_of (benches R) name of
      Some run \<Rightarrow> run p n | None \<Rightarrow> throw (OtherException ''KeyError'')) Clear UNIV" for name
    by (auto split: option.split intro: sees_throw dest: map_of_SomeD sees_benches)
  then have "sees Clear (bench_main R which p n) Clear UNIV"
    unfolding bench_main_def
    by (auto intro!: sees_before sees_print_out sees_each sees_throw sees_ret)
  from seesD(1) [OF this, of "\<lparr>world = w, trace = []\<rparr>"] seesD(2) [OF this, of "\<lparr>world = w, trace = []\<rparr>"]
  show ?thesis by (auto split: prod.split sum.split)
qed

section \<open>What is measured\<close>

text \<open>
  A device that works asynchronously: \<open>generate\<close> only queues work -- \<open>prefill\<close> seconds for the first token
  and \<open>step\<close> for each further one --, and \<open>synchronize\<close> waits until the queue is empty.
\<close>

definition steady_device ::
  "('w, 'm) rig \<Rightarrow> 'm \<Rightarrow> ('w \<Rightarrow> rat) \<Rightarrow> ('w \<Rightarrow> rat) \<Rightarrow> rat \<Rightarrow> rat \<Rightarrow> bool" where
  "steady_device R m now queued prefill step \<longleftrightarrow>
     (\<forall>w. perf_counter R w = (now w, w)) \<and>
     (\<forall>w. \<exists>v. synchronize_device R w = (Inr (), v) \<and> now v = now w + queued w \<and> queued v = 0) \<and>
     (\<forall>enc g w. \<exists>v. generate_on R m enc g w = (Inr (), v) \<and> now v = now w \<and>
        (gen_min_tokens g = gen_max_tokens g \<longrightarrow> 
         queued v = queued w + prefill + step * (of_int (gen_max_tokens g) - 1)))"

lemma steady_calls:
  assumes "steady_device R m now queued prefill step"
  shows "\<exists>t. run_generate R m enc g s = (Inr (), t)" and "\<exists>t. synchronize R s = (Inr (), t)"
proof -
  obtain v u where "generate_on R m enc g (world s) = (Inr (), v)" "synchronize_device R (world s) = (Inr (), u)"
    using assms unfolding steady_device_def by metis
  then show "\<exists>t. run_generate R m enc g s = (Inr (), t)" "\<exists>t. synchronize R s = (Inr (), t)"
    by (simp_all add: run_generate_def synchronize_def before_def andthen_def outside_def note_event_def)
qed

lemma timed_steady:
  assumes "steady_device R m now queued prefill step" and "gen_min_tokens g = gen_max_tokens g"
  obtains t where "timed R m enc g s = (Inr (prefill + step * (of_int (gen_max_tokens g) - 1)), t)"
proof -
  obtain v1 where v1: "synchronize_device R (world s) = (Inr (), v1)" "queued v1 = 0"
    using assms(1) unfolding steady_device_def by metis
  obtain v2 where v2: "generate_on R m enc g v1 = (Inr (), v2)" "now v2 = now v1"
    "queued v2 = prefill + step * (of_int (gen_max_tokens g) - 1)"
    using assms v1(2) unfolding steady_device_def by force
  obtain v3 where v3: "synchronize_device R v2 = (Inr (), v3)" "now v3 = now v2 + queued v2"
    using assms(1) unfolding steady_device_def by metis
  have "perf_counter R w = (now w, w)" for w using assms(1) by (simp add: steady_device_def)
  then show thesis using v1 v2 v3
    by (intro that) (simp add: timed_def synchronize_def read_clock_def run_generate_def before_def
        andthen_def outside_def note_event_def return_io_def)
qed

lemma timed_runs_steady:
  assumes "steady_device R m now queued prefill step" and "gen_min_tokens g = gen_max_tokens g"
  shows "\<exists>t. timed_runs k R m enc g s =
    (Inr (replicate k prefill, replicate k (prefill + step * (of_int (gen_max_tokens g) - 1))), t)"
proof (induction k arbitrary: s)
  case 0
  then show ?case by (simp add: return_io_def)
next
  case (Suc k)
  have "gen_min_tokens (pinned 1 g) = gen_max_tokens (pinned 1 g)" by (simp add: pinned_def)
  then obtain t1 where t1: "timed R m enc (pinned 1 g) s = (Inr prefill, t1)"
    by (rule timed_steady [OF assms(1)]) (simp add: pinned_def)
  obtain t2 where "timed R m enc g t1 = (Inr (prefill + step * (of_int (gen_max_tokens g) - 1)), t2)"
    by (rule timed_steady [OF assms])
  then show ?case using t1 Suc.IH [of t2] by (auto simp: andthen_def return_io_def)
qed

lemma median_replicate [simp]: "0 < k \<Longrightarrow> median (replicate k x) s = (Inr x, s)"
proof -
  assume "0 < k"
  then have "k div 2 - 1 < k" "k div 2 < k" by auto
  moreover have "sort (replicate k x) = replicate k x" by (simp add: sorted_sort_id)
  ultimately show ?thesis
    unfolding median_def Let_def by (simp only: length_replicate nth_replicate) (simp add: return_io_def)
qed

text \<open>C37: prefill does not pollute the decode rate.  On an asynchronous device that takes \<open>prefill\<close>
  seconds for the first token and \<open>step\<close> for every further one, the measurement returns exactly the prefill
  time in milliseconds, the batch size divided by \<open>step\<close> -- whatever the prefill costs -- and all tokens
  of the batch over the whole time.\<close>

theorem measure_isolates_decode:
  assumes "steady_device R m now queued prefill step"
    and "0 < step" "0 \<le> prefill" "2 \<le> n"
  shows "fst (measure_plain R m enc n s) = Inr (1000 * prefill,
    of_nat (length (input_ids enc)) / step,
    of_nat (length (input_ids enc)) * of_int n / (prefill + step * (of_int n - 1)))"
proof -
  let ?b = "base_args n None False None"
  have b: "gen_min_tokens ?b = gen_max_tokens ?b" "gen_max_tokens ?b = n" by (simp_all add: base_args_def)
  obtain s1 where s1: "run_generate R m enc (pinned 4 ?b) s = (Inr (), s1)"
    using steady_calls(1) [OF assms(1)] by blast
  obtain s2 where s2: "synchronize R s1 = (Inr (), s2)" using steady_calls(2) [OF assms(1)] by blast
  obtain s3 where "timed_runs 3 R m enc ?b s2 = (Inr (replicate 3 prefill,
      replicate 3 (prefill + step * (of_int n - 1))), s3)"
    using timed_runs_steady [OF assms(1) b(1), where k = 3] by (auto simp: b(2))
  moreover have "(1::rat) < of_int n" using assms(4) by simp
  then have "step * (of_int n - 1) \<noteq> 0" "prefill + step * (of_int n - 1) \<noteq> 0"
    using assms(2,3) by (simp, metis add_nonneg_pos diff_gt_0_iff_gt less_irrefl mult_pos_pos)
  ultimately show ?thesis using s1 s2 assms(2)
    unfolding measure_plain_def measure_with_def Let_def
    by (simp add: before_def andthen_def b(2) divide_by_def return_io_def)
qed

text \<open>A device whose world is its clock and its queue, in the sense above.\<close>

definition demo_rig :: "(rat \<times> rat, unit) rig" where
  "demo_rig =
     \<lparr>from_pretrained = (\<lambda>_ _ _ w. (Inr (), w)), encode_word = (\<lambda>_. [1782]),
      tensor_full = (\<lambda>b n x w. (Inr (replicate (nat b) (replicate (nat n) x)), w)),
      ones_like = (\<lambda>xss w. (Inr (map (map (\<lambda>_. 1)) xss), w)),
      generate_on = (\<lambda>_ _ g (t, q).
        (Inr (), (t, q + 1 / 2 + 1 / 100 * (of_int (gen_max_tokens g) - 1)))),
      synchronize_device = (\<lambda>(t, q). (Inr (), (t + q, 0))), perf_counter = (\<lambda>(t, q). (t, (t, q))),
      model_params = (\<lambda>_. [(600000000, 2)]), max_memory_allocated = (\<lambda>_. 2000000000),
      unbind_model = (\<lambda>_ w. w), unbind_enc = (\<lambda>w. w), gc_collect = (\<lambda>w. w), empty_cache = (\<lambda>w. w),
      reset_peak_memory_stats = (\<lambda>w. w), device_name = lit ''gpu'', torch_version = lit ''2.9.1''\<rparr>"

lemma measure_isolates_decode_witness:
  "fst (measure_plain demo_rig () \<lparr>input_ids = [[1782], [1782]], attention_mask = [[1], [1]]\<rparr> 128
     \<lparr>world = (0, 0), trace = []\<rparr>) = Inr (500, 200, 256 / (177 / 100))"
proof -
  have "steady_device demo_rig () fst snd (1 / 2) (1 / 100)"
    by (simp add: steady_device_def demo_rig_def)
  from measure_isolates_decode [OF this, of 128 "\<lparr>input_ids = [[1782], [1782]], attention_mask = [[1], [1]]\<rparr>"
    "\<lparr>world = (0, 0), trace = []\<rparr>"]
  show ?thesis by simp
qed

section \<open>Batch scaling\<close>

text \<open>What the run prints.\<close>

definition reports :: "gpu_event list \<Rightarrow> report list" where
  "reports es = concat (map (\<lambda>e. case e of Printed l \<Rightarrow> [l] | _ \<Rightarrow> []) es)"

lemma reports_Nil [simp]: "reports [] = []"
  by (simp add: reports_def)

lemma reports_append [simp]: "reports (es @ fs) = reports es @ reports fs"
  by (simp add: reports_def)

lemma reports_Cons [simp]: "reports (e # es) = (case e of Printed l \<Rightarrow> l # reports es | _ \<Rightarrow> reports es)"
  by (simp add: reports_def split: gpu_event.split)

text \<open>
  A call prints the lines \<open>ls\<close> when it returns, and when it raises it has printed nothing and the
  exception is one of \<open>E\<close>.
\<close>

definition says :: "('w, 'a) io \<Rightarrow> ('a \<Rightarrow> report list \<Rightarrow> bool) \<Rightarrow> bool" where
  "says f P \<longleftrightarrow>
     (\<forall>s. case f s of
        (Inr x, t) \<Rightarrow> \<exists>ls. reports (trace t) = reports (trace s) @ ls \<and> P x ls
      | (Inl e, t) \<Rightarrow> reports (trace t) = reports (trace s))"

abbreviation silent :: "('w, 'a) io \<Rightarrow> bool" where
  "silent f \<equiv> says f (\<lambda>_ ls. ls = [])"

named_theorems says_intros \<open>what the calls of the benchmark print\<close>

lemma silent_andthen [says_intros]:
  assumes "silent f" and "\<And>x. says (g x) P"
  shows "says (andthen f g) P"
  unfolding says_def
proof
  fix s
  obtain r t where f: "f s = (r, t)" by force
  then have t: "reports (trace t) = reports (trace s)"
    using assms(1) [unfolded says_def, rule_format, of s] by (auto split: sum.splits)
  show "case andthen f g s of
        (Inr x, t) \<Rightarrow> \<exists>ls. reports (trace t) = reports (trace s) @ ls \<and> P x ls
      | (Inl e, t) \<Rightarrow> reports (trace t) = reports (trace s)"
  proof (cases r)
    case (Inl e)
    then show ?thesis by (simp add: andthen_def f t)
  next
    case (Inr x)
    then show ?thesis
      using assms(2) [of x, unfolded says_def, rule_format, of t]
      by (auto simp: andthen_def f t split: prod.splits sum.splits)
  qed
qed

lemma silent_before [says_intros]: "silent f \<Longrightarrow> says g P \<Longrightarrow> says (before f g) P"
  unfolding before_def by (rule silent_andthen)

lemma silent_ret [says_intros]: "silent (return_io x)"
  by (simp add: says_def return_io_def)

lemma says_throw [says_intros]: "says (throw e) P"
  by (simp add: says_def throw_def)

lemma silent_outside [says_intros]: "silent (outside f)"
  by (auto simp: says_def outside_def split: prod.split sum.split)

lemma silent_change_world [says_intros]: "silent (change_world f)"
  by (simp add: says_def change_world_def)

lemma silent_note_event: "(\<And>l. e \<noteq> Printed l) \<Longrightarrow> silent (note_event e)"
  by (auto simp: says_def note_event_def split: gpu_event.split)

lemma silent_divide_by [says_intros]: "silent (divide_by a b)"
  by (auto simp: divide_by_def intro: says_intros)

lemma silent_median [says_intros]: "silent (median xs)"
  by (auto simp: median_def Let_def intro: says_intros)

lemma silent_calls [says_intros]:
  "silent (bench_load R dt attn)" "silent (make_batch R bs n)" "silent (synchronize R)"
  "silent (read_clock R)" "silent (read_peak R)" "silent (run_generate R m enc g)"
  "silent (del_model R m)" "silent (del_enc R)" "silent (free R)"
  unfolding bench_load_def make_batch_def synchronize_def read_clock_def read_peak_def run_generate_def
    del_model_def del_enc_def free_def
  by (auto intro!: says_intros silent_note_event split: list.split)

lemma silent_timed [says_intros]: "silent (timed R m enc g)"
  unfolding timed_def by (intro says_intros)

lemma silent_timed_runs [says_intros]: "silent (timed_runs k R m enc g)"
  by (induction k) (simp_all add: split_def says_intros)

lemma silent_measure_plain [says_intros]: "silent (measure_plain R m enc n)"
  unfolding measure_plain_def measure_with_def Let_def split_def by (intro says_intros)

lemma says_mono:
  assumes "says f P" "\<And>x ls. P x ls \<Longrightarrow> Q x ls"
  shows "says f Q"
  unfolding says_def
proof
  fix s
  show "case f s of
        (Inr x, t) \<Rightarrow> \<exists>ls. reports (trace t) = reports (trace s) @ ls \<and> Q x ls
      | (Inl e, t) \<Rightarrow> reports (trace t) = reports (trace s)"
    using assms(1) [unfolded says_def, rule_format, of s] assms(2)
    by (auto split: prod.splits sum.splits)
qed

text \<open>
  An attempt that returns has printed its row: the total rate against the base, which is the first
  total unless an earlier attempt has set it, and is not 0.
\<close>

definition new_base :: "rat option \<Rightarrow> rat \<Rightarrow> rat" where
  "new_base first rate = (case first of None \<Rightarrow> rate | Some b \<Rightarrow> if b = 0 then rate else b)"

lemma says_batch_attempt:
  "says (batch_attempt R m p n first bs)
     (\<lambda>x ls. \<exists>ttft total peak. x = Some (new_base first total) \<and> new_base first total \<noteq> 0 \<and>
        ls = [BatchRow bs ttft total peak (total / new_base first total)])"
proof -
  have "says (before (print_out (BatchRow bs ttft total peak d)) (before (del_enc R) (before (free R) (return_io x))))
      (\<lambda>y ls. y = x \<and> ls = [BatchRow bs ttft total peak d])" for ttft total peak d x
    by (simp add: says_def print_out_def before_def andthen_def note_event_def del_enc_def free_def
        change_world_def return_io_def)
  note row = this
  have divided: "says (andthen (divide_by total base) g) P"
    if "base \<noteq> 0 \<Longrightarrow> says (g (total / base)) P" for total base :: rat and g :: "rat \<Rightarrow> ('a, 'c) io" and P
  proof (cases "base = 0")
    case True
    then have "andthen (divide_by total base) g = throw (OtherException ''ZeroDivisionError'')"
      by (rule_tac ext) (simp add: divide_by_def andthen_def throw_def)
    then show ?thesis by (simp add: says_throw)
  next
    case False
    then have "andthen (divide_by total base) g = g (total / base)"
      by (rule_tac ext) (simp add: divide_by_def andthen_def return_io_def)
    then show ?thesis using that [OF False] by simp
  qed
  show ?thesis
    unfolding batch_attempt_def Let_def split_def new_base_def [symmetric]
    by (intro silent_andthen silent_calls silent_measure_plain divided says_mono [OF row]) auto
qed

lemma batch_oom_returns:
  "\<exists>t. batch_oom R bs s = (Inr (), t) \<and> reports (trace t) = reports (trace s) @ [OomRow bs]"
  by (simp add: batch_oom_def print_out_def before_def andthen_def note_event_def del_enc_def free_def
        change_world_def)

definition batch_line :: "int \<times> rat \<times> rat \<times> rat \<times> rat \<Rightarrow> report" where
  "batch_line = (\<lambda>(bs, ttft, total, peak, speedup). BatchRow bs ttft total peak speedup)"

text \<open>
  A chain of attempts that returned, each from the base and the state the one before left; each has
  printed its row and nothing else.
\<close>

inductive attempts ::
  "('w, 'm) rig \<Rightarrow> 'm \<Rightarrow> int \<Rightarrow> int \<Rightarrow> rat option \<times> 'w bench
    \<Rightarrow> (int \<times> rat \<times> rat \<times> rat \<times> rat) list \<Rightarrow> rat option \<times> 'w bench \<Rightarrow> bool"
  for R :: "('w, 'm) rig" and m p n where
  none: "attempts R m p n x [] x"
| one: "batch_attempt R m p n first bs s = (Inr base, t) \<Longrightarrow>
    reports (trace t) = reports (trace s) @ [batch_line (bs, figures)] \<Longrightarrow>
    attempts R m p n (base, t) rows y \<Longrightarrow>
    attempts R m p n (first, s) ((bs, figures) # rows) y"

definition speedups_against :: "rat \<Rightarrow> (int \<times> rat \<times> rat \<times> rat \<times> rat) list \<Rightarrow> bool" where
  "speedups_against base = list_all (\<lambda>(bs, ttft, total, peak, speedup). speedup = total / base)"

definition total_of :: "int \<times> rat \<times> rat \<times> rat \<times> rat \<Rightarrow> rat" where
  "total_of = (\<lambda>(bs, ttft, total, peak, speedup). total)"

text \<open>
  What the loop does after the last attempt that returned: nothing, if there is no size left; otherwise the
  next attempt raised, and out of memory is a line and a normal end, any other exception goes on.
\<close>

definition loop_ends ::
  "('w, 'm) rig \<Rightarrow> 'm \<Rightarrow> int \<Rightarrow> int \<Rightarrow> int list \<Rightarrow> rat option \<times> 'w bench \<Rightarrow> exn + unit \<Rightarrow> report list \<Rightarrow> bool" where
  "loop_ends R m p n sizes x res ls =
     (case (sizes, x) of
        ([], (base, s)) \<Rightarrow> res = Inr () \<and> ls = reports (trace s)
      | (bs # _, (base, s)) \<Rightarrow>
          (case fst (batch_attempt R m p n base bs s) of
             Inl e \<Rightarrow>
               if e = OutOfMemoryError then res = Inr () \<and> ls = reports (trace s) @ [OomRow bs]
               else res = Inl e \<and> ls = reports (trace s)
           | Inr b \<Rightarrow> False))"

lemma attempts_reports:
  "attempts R m p n x rows y \<Longrightarrow> reports (trace (snd y)) = reports (trace (snd x)) @ map batch_line rows"
  by (induction rule: attempts.induct) auto

lemma batch_loop_attempts:
  assumes "first \<noteq> Some 0"
  shows "\<exists>rows y. attempts R m p n (first, s) rows y \<and> length rows \<le> length sizes \<and>
     map fst rows = take (length rows) sizes \<and>
     speedups_against (case first of Some b \<Rightarrow> b | None \<Rightarrow> total_of (hd rows)) rows \<and>
     loop_ends R m p n (drop (length rows) sizes) y (fst (batch_loop R m p n first sizes s))
       (reports (trace (snd (batch_loop R m p n first sizes s))))"
  using assms
proof (induction sizes arbitrary: first s)
  case Nil
  then show ?case
    by (intro exI [of _ "[]"] exI [of _ "(first, s)"])
      (simp add: attempts.none return_io_def loop_ends_def speedups_against_def)
next
  case (Cons bs sizes)
  obtain r t where a: "batch_attempt R m p n first bs s = (r, t)" by force
  note says = says_batch_attempt [of R m p n first bs, unfolded says_def, rule_format, of s, unfolded a]
  show ?case
  proof (cases r)
    case (Inr b)
    then obtain ttft total peak where b: "b = Some (new_base first total)" "new_base first total \<noteq> 0"
      and ls: "reports (trace t) = reports (trace s) @
        [batch_line (bs, ttft, total, peak, total / new_base first total)]"
      using says by (auto simp: batch_line_def)
    have loop: "batch_loop R m p n first (bs # sizes) s = batch_loop R m p n b sizes t"
      by (simp add: andthen_def except_oom_def a Inr return_io_def)
    from Cons.IH [of b t] b obtain rows y where y: "attempts R m p n (b, t) rows y" "length rows \<le> length sizes"
      "map fst rows = take (length rows) sizes" "speedups_against (new_base first total) rows"
      "loop_ends R m p n (drop (length rows) sizes) y (fst (batch_loop R m p n b sizes t))
         (reports (trace (snd (batch_loop R m p n b sizes t))))" by auto
    let ?row = "(bs, ttft, total, peak, total / new_base first total)"
    have "attempts R m p n (first, s) (?row # rows) y" using a [unfolded Inr] ls y(1) by (rule attempts.one)
    moreover have "speedups_against (case first of Some b \<Rightarrow> b | None \<Rightarrow> total_of (hd (?row # rows))) (?row # rows)"
      using y(4) Cons.prems
      by (auto simp: speedups_against_def new_base_def total_of_def split: option.splits)
    ultimately show ?thesis using y(2,3,5) unfolding loop
      by (intro exI [of _ "?row # rows"] exI [of _ y]) simp
  next
    case (Inl e)
    then have t: "reports (trace t) = reports (trace s)" using says by simp
    have "fst (batch_loop R m p n first (bs # sizes) s) = (if e = OutOfMemoryError then Inr () else Inl e) \<and>
      reports (trace (snd (batch_loop R m p n first (bs # sizes) s))) =
        (if e = OutOfMemoryError then reports (trace s) @ [OomRow bs] else reports (trace s))"
    proof (cases "e = OutOfMemoryError")
      case True
      obtain u where "batch_oom R bs t = (Inr (), u)" "reports (trace u) = reports (trace t) @ [OomRow bs]"
        using batch_oom_returns by blast
      then show ?thesis
        by (simp add: andthen_def except_oom_def before_def a Inl True return_io_def t)
    qed (simp add: andthen_def except_oom_def a Inl t)
    then show ?thesis
      by (intro exI [of _ "[]"] exI [of _ "(first, s)"])
        (simp add: attempts.none loop_ends_def a Inl speedups_against_def)
  qed
qed

text \<open>C38: running out of memory ends the scaling benchmark, not the program.  Once the model is loaded, the
  headline is followed by one row per attempt that returned, for the sizes from the first on, in order,
  each attempt starting where the one before ended; every row compares its rate with that of the
  first row.  If a size is left, the attempt on it raised: out of memory -- of the batch or of the
  measurement -- prints one line that names the size and ends the benchmark normally, with no larger size
  tried; any other exception goes on, with no line.\<close>

theorem batch_scaling_stops_at_oom:
  "case bench_batch R p n \<lparr>world = w, trace = []\<rparr> of (res, t) \<Rightarrow>
     (case from_pretrained R bench_model_id BF16 ''sdpa'' w of
        (Inl e, _) \<Rightarrow> res = Inl e \<and> reports (trace t) = [Header ''batch scaling'' ''total tok/s'']
      | (Inr m, v) \<Rightarrow> \<exists>rows base s.
          attempts R m p n (None, \<lparr>world = v, trace = [Printed (Header ''batch scaling'' ''total tok/s''), Loaded]\<rparr>)
            rows (base, s) \<and>
          reports (trace s) = Header ''batch scaling'' ''total tok/s'' # map batch_line rows \<and>
          map fst rows = take (length rows) batch_sizes \<and> speedups_against (total_of (hd rows)) rows \<and>
          (case drop (length rows) batch_sizes of
             [] \<Rightarrow> res = Inr () \<and> reports (trace t) = reports (trace s)
           | bs # _ \<Rightarrow>
               (case fst (batch_attempt R m p n base bs s) of
                  Inl e \<Rightarrow>
                    if e = OutOfMemoryError then res = Inr () \<and> reports (trace t) = reports (trace s) @ [OomRow bs]
                    else res = Inl e \<and> reports (trace t) = reports (trace s)
                | Inr b \<Rightarrow> False)))"
proof -
  let ?h = "Header ''batch scaling'' ''total tok/s''"
  obtain r v where l: "from_pretrained R bench_model_id BF16 ''sdpa'' w = (r, v)" by force
  show ?thesis
  proof (cases r)
    case (Inl e)
    then show ?thesis
      by (simp add: bench_batch_def bench_load_def before_def andthen_def print_out_def note_event_def
          outside_def l)
  next
    case (Inr m)
    let ?s = "\<lparr>world = v, trace = [Printed ?h, Loaded]\<rparr>"
    obtain res t where b: "batch_loop R m p n None batch_sizes ?s = (res, t)" by force
    obtain rows base s where rows: "attempts R m p n (None, ?s) rows (base, s)"
      "map fst rows = take (length rows) batch_sizes" "speedups_against (total_of (hd rows)) rows"
      "loop_ends R m p n (drop (length rows) batch_sizes) (base, s) res (reports (trace t))"
      using batch_loop_attempts [of None R m p n ?s batch_sizes] by (auto simp: b)
    have "reports (trace s) = ?h # map batch_line rows"
      using attempts_reports [OF rows(1)] by (simp add: reports_def)
    moreover obtain u where u: "bench_batch R p n \<lparr>world = w, trace = []\<rparr> = (res, u)"
      "reports (trace u) = reports (trace t)"
      using b by (cases res) (simp_all add: bench_batch_def bench_load_def before_def andthen_def print_out_def
        note_event_def outside_def l Inr return_io_def del_model_def free_def change_world_def)
    ultimately show ?thesis
      using rows(1-3) rows(4) [unfolded loop_ends_def prod.case]
      unfolding u(1) l Inr prod.case sum.case u(2)
      by (intro exI [of _ rows] exI [of _ base] exI [of _ s] conjI)
  qed
qed

end
