(* ===== verification/Settings.thy ===== *)
theory Settings
  imports Gateway
begin

text \<open>
  \<^verbatim>\<open>Settings\<close> of \<^verbatim>\<open>src/model_server/main.py\<close> without arguments: every field from its environment
  variable or the default, in the order of the dataclass, so that the first malformed number raises.
  \<^verbatim>\<open>int()\<close> is modelled on text whose digits are ASCII; \<^verbatim>\<open>float()\<close>, whose result only \<^verbatim>\<open>asyncio.sleep\<close>
  sees, is an argument.
\<close>

type_synonym environment = "string \<Rightarrow> ustring option"

definition env_get :: "environment \<Rightarrow> string \<Rightarrow> string \<Rightarrow> ustring" where
  "env_get env name dflt = (case env name of None \<Rightarrow> lit dflt | Some v \<Rightarrow> v)"

definition white_space :: "nat \<Rightarrow> bool" where
  "white_space c \<longleftrightarrow> 9 \<le> c \<and> c \<le> 13 \<or> 28 \<le> c \<and> c \<le> 32 \<or> 8192 \<le> c \<and> c \<le> 8202 \<or>
     c \<in> {133, 160, 5760, 8232, 8233, 8239, 8287, 12288}"

definition strip :: "ustring \<Rightarrow> ustring" where
  "strip s = rev (dropWhile white_space (rev (dropWhile white_space s)))"

text \<open>Digits, with single underscores between them; the flag says whether the last character was a digit.\<close>

fun int_digits :: "bool \<Rightarrow> nat \<Rightarrow> ustring \<Rightarrow> nat option" where
  "int_digits after acc [] = (if after then Some acc else None)"
| "int_digits after acc (c # cs) =
     (if 48 \<le> c \<and> c \<le> 57 then int_digits True (10 * acc + (c - 48)) cs
      else if c = 95 \<and> after then int_digits False acc cs else None)"

definition py_int :: "ustring \<Rightarrow> exn + int" where
  "py_int s =
     (let t = strip s;
          r = (if take 1 t = [45] then map_option (\<lambda>n. - int n) (int_digits False 0 (drop 1 t))
               else if take 1 t = [43] then map_option int (int_digits False 0 (drop 1 t))
               else map_option int (int_digits False 0 t))
      in case r of None \<Rightarrow> Inl (OtherException ''ValueError'') | Some i \<Rightarrow> Inr i)"

definition lower :: "ustring \<Rightarrow> ustring" where
  "lower s = map (\<lambda>c. if 65 \<le> c \<and> c \<le> 90 then c + 32 else c) s"

definition settings_from_env :: "(ustring \<Rightarrow> exn + pyfloat) \<Rightarrow> environment \<Rightarrow> exn + settings" where
  "settings_from_env py_float env =
     (case py_float (env_get env ''LOAD_TIME_SECONDS'' ''20'') of
        Inl e \<Rightarrow> Inl e
      | Inr load_time \<Rightarrow>
          (case py_int (env_get env ''MAX_BATCH_SIZE'' ''8'') of
             Inl e \<Rightarrow> Inl e
           | Inr bs \<Rightarrow>
               (case py_int (env_get env ''MAX_BATCH_TOKENS'' ''8192'') of
                  Inl e \<Rightarrow> Inl e
                | Inr bt \<Rightarrow> Inr
                    \<lparr>model_name = env_get env ''MODEL_NAME'' ''unknown'',
                     model_id = env_get env ''MODEL_ID'' '''',
                     load_time_seconds = load_time, set_max_batch_size = bs, set_max_batch_tokens = bt,
                     enable_thinking = (lower (env_get env ''ENABLE_THINKING'' '''') = lit ''true'')\<rparr>)))"

section \<open>Numbers read back\<close>

lemma int_digits_append:
  "\<forall>d \<in> set ds. 48 \<le> d \<and> d \<le> 57 \<Longrightarrow> ds \<noteq> [] \<Longrightarrow>
    int_digits after acc (ds @ cs) = int_digits True (foldl (\<lambda>n d. 10 * n + (d - 48)) acc ds) cs"
proof (induction ds arbitrary: after acc)
  case (Cons d ds)
  then show ?case by (cases ds) auto
qed simp

lemma int_digits_nat: "int_digits after 0 (nat_digits n) = Some n"
  using int_digits_append [of "nat_digits n" after 0 "[]"] nat_digits_range by (auto simp: foldl_digits)

lemma strip_plain: "s \<noteq> [] \<Longrightarrow> \<not> white_space (hd s) \<Longrightarrow> \<not> white_space (last s) \<Longrightarrow> strip s = s"
proof -
  assume "s \<noteq> []" "\<not> white_space (hd s)" "\<not> white_space (last s)"
  then have "dropWhile white_space s = s" "dropWhile white_space (rev s) = rev s"
    by (simp_all add: dropWhile_eq_self_iff hd_rev)
  then show "strip s = s" by (simp add: strip_def)
qed

lemma py_int_show [simp]: "py_int (show_int i) = Inr i"
proof -
  obtain h t where h: "nat_digits (nat \<bar>i\<bar>) = h # t" "48 \<le> h" "h \<le> 57" using nat_digits_Cons by blast
  have "48 \<le> last (nat_digits (nat \<bar>i\<bar>)) \<and> last (nat_digits (nat \<bar>i\<bar>)) \<le> 57"
    by (rule nat_digits_range [of _ "nat \<bar>i\<bar>"]) simp
  with h have "strip (show_int i) = show_int i"
    by (intro strip_plain) (auto simp: show_int_def white_space_def)
  moreover have "int_digits False 0 (h # t) = Some (nat \<bar>i\<bar>)"
    using int_digits_nat [of False "nat \<bar>i\<bar>"] by (simp add: h)
  ultimately show ?thesis using h by (cases "i < 0") (auto simp: py_int_def show_int_def Let_def)
qed

text \<open>
  The limits are what the variables say, whatever they say: nothing rejects a batch size of 0 or less,
  on which the loop never gives the event loop back.
\<close>

lemma settings_limits:
  assumes "env ''MAX_BATCH_SIZE'' = Some (show_int bs)" "env ''MAX_BATCH_TOKENS'' = Some (show_int bt)"
    and "py_float (env_get env ''LOAD_TIME_SECONDS'' ''20'') = Inr x"
  shows "\<exists>st. settings_from_env py_float env = Inr st \<and> set_max_batch_size st = bs \<and> set_max_batch_tokens st = bt"
  using assms by (simp add: settings_from_env_def env_get_def)

text \<open>Without any variable: the mock model, eight requests, 8192 tokens.\<close>

lemma settings_defaults:
  assumes "py_float (lit ''20'') = Inr (Fin 20)"
  shows "settings_from_env py_float (\<lambda>_. None) = Inr
    \<lparr>model_name = lit ''unknown'', model_id = [], load_time_seconds = Fin 20, set_max_batch_size = 8,
     set_max_batch_tokens = 8192, enable_thinking = False\<rparr>"
proof -
  have "py_int (lit ''8'') = Inr 8" "py_int (lit ''8192'') = Inr 8192"
    by (simp_all add: py_int_def strip_def white_space_def lit_def)
  moreover have "lower (lit '''') \<noteq> lit ''true''" "lit '''' = []" by (simp_all add: lower_def lit_def)
  ultimately show ?thesis using assms by (simp add: settings_from_env_def env_get_def)
qed

text \<open>A server configured by nothing serves the mock: its loader has no weights to fetch.\<close>

lemma default_settings_are_mock:
  "py_float (lit ''20'') = Inr (Fin 20) \<Longrightarrow> settings_from_env py_float (\<lambda>_. None) = Inr st \<Longrightarrow> \<not> wants_model st"
  using settings_defaults [of py_float] by (auto simp: wants_model_def)

end
