(* ===== verification/Spec2Isabelle.thy ===== *)
theory Spec2Isabelle
  imports Streaming KV_Cache Bench Readiness Settings
begin

text \<open>
  The model server of nano-kube-llm-server (\<^verbatim>\<open>src/model_server\<close>): an HTTP server that answers
  OpenAI-style completion requests by continuous batching.  Requests become sequences, a scheduler
  puts them into one batch, a loop runs the batch through a model token by token, and each request's
  coroutine reads its tokens from a queue of its own.  This library models the server's Python code as
  it is written and proves what it promises.

  \<^bold>\<open>Parts and theories.\<close>  Each theory follows one part of the code, in the order the calls go down.

  \<^item> \<open>Server_Prelude\<close>: Python values (floats as rationals with infinities and NaN, text as code points,
    exceptions), list lemmas, reachable states, and the interface \<open>step_invariant\<close> through which every
    invariant of the server is proved.
  \<^item> \<open>Sequences\<close>: \<^verbatim>\<open>Sequence\<close> of \<^verbatim>\<open>batching.py\<close>.  Python objects live in a store from references (the
    ids of \<^verbatim>\<open>_next_id\<close>) to records; \<open>calls\<close> is the event loop's list of callbacks that \<^verbatim>\<open>emit\<close> has handed
    over with \<^verbatim>\<open>call_soon_threadsafe\<close>.  The interface \<open>token_channel\<close> is what the layers above use.
  \<^item> \<open>Scheduler\<close>: \<^verbatim>\<open>Scheduler\<close> of \<^verbatim>\<open>batching.py\<close>; \<open>waiting\<close> and \<open>running\<close> are its two deques.
  \<^item> \<open>Runners\<close>: \<^verbatim>\<open>runners.py\<close>.  \<open>MockRunner\<close> and \<open>QwenRunner\<close>: padding, sampling, the cache.  The interface
    \<open>row_runner\<close> -- one row per sequence, computed from what a runner may read of it -- is met by both.
  \<^item> \<open>Run_Loop\<close>: \<^verbatim>\<open>run_loop\<close> and \<^verbatim>\<open>prompt_to_sequence\<close>.  The coroutine gives up control at its two awaits;
    \<open>pc\<close> says where it stands.  \<open>KV_Cache\<close>: what the cache is worth over a whole run.
  \<^item> \<open>Engine\<close>: \<^verbatim>\<open>BatchingEngine\<close> of \<^verbatim>\<open>engines.py\<close>; one record per request for its coroutine.
  \<^item> \<open>Wire\<close>, \<open>Json_Reader\<close>: JSON, server-sent events and the Prometheus text, and their readers.
  \<^item> \<open>Loading\<close>: \<^verbatim>\<open>qwen.py\<close> and \<^verbatim>\<open>load_qwen_runner\<close>.  \<open>Gateway\<close>: \<^verbatim>\<open>main.py\<close>, the request schema, the
    handlers and the life of the loop task.  \<open>Settings\<close>: its environment variables.
  \<^item> \<open>Server\<close>: the composition.  \<open>serve H s e t\<close> is the step relation: an event \<open>e\<close> is what one handler,
    coroutine or callback does between two awaits -- a request is posted, a stream's generator begins, a
    coroutine reads an item, a client hangs up, the loop is resumed, the model arrives or fails to, a
    callback runs.  \<open>reachable H\<close> are the states any sequence of events leads to from a server that has
    just started with room for at least one request.  \<open>Readiness\<close> and \<open>Streaming\<close> prove further
    invariants of this relation.
  \<^item> \<open>Bench\<close>: \<^verbatim>\<open>bench.py\<close>, the benchmark of the bare model, over an abstract device.

  \<^bold>\<open>What is shown.\<close>  Of the scheduler: admission is the longest prefix of the queue that fits, the limits,
  the row-by-row effect of a tick, giving up and failing, and an invariant every operation keeps.  Of the
  loop: when it gives control back, the blast radius of a failed row, that a decode step is the batch just
  recorded, and that it drains or dies answering, whatever the runner does.  Of the runners: padding,
  containment of failing rows, top-k, and that the caching loop goes in lockstep with a recomputing one.
  The forward pass is only asked to obey the contract of a key-value cache (\<open>cached_forward\<close>) when it returns;
  it may raise, and the lockstep reaches as far as the two passes fail alike.  Of the server: the batch, honest
  outputs and reasons, stop tokens, exact channels, honest completions and responses, what a stream sends, no
  race on an executing batch, every request answered while the loop lives and also when it dies, what the
  model's arrival and a disconnection do, readiness.  Of the wire: what clients read is what was written.
  Nothing is assumed of the tokenizer: that the pieces of a stream are the one-shot text is shown of outputs
  whose successive decodings extend one another, and of every output on the mock runner.
  Two properties are failures: a stream accepted just before the loop dies waits for ever, and a stream can
  lose a character whose tokens are decoded in two steps.

  \<^bold>\<open>Bounds.\<close>  Nothing is bounded: states, batches and runs are arbitrary.  \<open>loop_head\<close> is a partial
  function, because it may spin; it is total when the batch size is at least 1, which \<open>reachable\<close> asks for.
  \<open>loop_work\<close> counts the tokens the requests may still get, one per request for its removal, and bounds
  the resumptions the loop needs; every tick that does not raise lowers it, and one that raises ends the
  loop with \<^verbatim>\<open>fail_all\<close>.  The fuel of the JSON
  reader is the length of the text, which bounds nesting and length of what it reads.

  \<^bold>\<open>Not modelled.\<close>  Torch, transformers, the tokenizer, the forward pass, FastAPI, pydantic and uvicorn are
  not part of the repository: the first four are arguments (\<open>torch\<close>, \<open>hub\<close>, \<open>tokenizer\<close>, \<open>forward\<close>, \<open>rig\<close>), and
  of the others the model keeps what they promise -- a handler gets a body that satisfies the declared
  constraints, a response is sent, the generator of a \<^verbatim>\<open>StreamingResponse\<close> is started later or never.
  Floating-point rounding of logits and rates, wall-clock time and the identifiers of completions are
  arguments or left out.  \<^verbatim>\<open>_load\<close> cancelling the loop, swapping the runner and starting a new loop is one
  step: there is no await in between, and the cancelled task runs before the new one.  Likewise
  the loop is stopped at once by the cancellation at shutdown, although the task only ends when it runs next.
  A batch is executed on the store as it is when the loop is resumed, not when its worker thread starts: what the
  thread reads is the same on both (\<open>batch_untouched_while_executing\<close>), and where the runner has been replaced
  or the loop cancelled in between, its rows are discarded.  The Kubernetes
  controller, its API types and its manager are Go programs that only meet this server over HTTP; they, the
  manifests, the images and the tests are left out.
\<close>

section \<open>A concrete server\<close>

text \<open>
  The server the properties are applied to: batch size 2, the configured model \<open>m\<close>, whose hub gives
  the concrete tokenizer, forward pass and sampling of the other theories.
\<close>

definition demo_hub :: "(int, tensors, unit) hub" where
  "demo_hub = \<lparr>hub_tokenizer = (\<lambda>_. ascii_tokenizer), hub_model = (\<lambda>_ _ _. (None, summing_forward)),
     hub_torch = int_torch, hub_rng = (), cuda_available = False\<rparr>"

text \<open>The same, on a device whose every forward pass runs out of memory.\<close>

definition oom_hub :: "(int, tensors, unit) hub" where
  "oom_hub = demo_hub\<lparr>hub_model := (\<lambda>_ _ _. (None, \<lambda>_ _ _ _. Inl OutOfMemoryError))\<rparr>"

definition demo_settings :: settings where
  "demo_settings = \<lparr>model_name = [109], model_id = [109], load_time_seconds = Fin 20,
     set_max_batch_size = 2, set_max_batch_tokens = 64, enable_thinking = False\<rparr>"

definition demo_start :: "(tensors, unit) qwen_state app" where
  "demo_start = lifespan_start (create_app demo_settings \<lparr>cache = None, rng = ()\<rparr>)"

definition demo_body :: completion_request where
  "demo_body = default_request\<lparr>prompt := [104, 105], max_tokens := 2\<rparr>"

definition posted :: "completion_request \<Rightarrow> 'c app \<Rightarrow> 'c app" where
  "posted b s = handled_state (completions (normalize_body b) 0 s) s"

lemma reachable_demo_start: "reachable H demo_start"
  by (rule reach_start) (auto simp: started_def demo_start_def demo_settings_def intro!: exI)

lemma reachable_posted:
  "reachable H s \<Longrightarrow> field_constraints b \<Longrightarrow> reachable H (posted b s)"
  unfolding posted_def by (erule reach_step) (rule serve.post)

lemma reachable_loop_step:
  assumes "reachable H s"
  shows "reachable H (loop_step (engine_runner s) s)"
proof -
  have "server_inv s" using assms by (rule served.reach_inv)
  then have "loop_resume (engine_runner s) s = Some (loop_step (engine_runner s) s)"
    by (simp add: loop_resume_step server_inv_D)
  then show ?thesis by (rule reach_step [OF assms serve.runs])
qed

text \<open>One request of the demo client in flight.\<close>

definition demo_flight :: "(tensors, unit) qwen_state app" where
  "demo_flight = loop_step mock_runner (posted demo_body demo_start)"

lemma demo_body_ok: "field_constraints demo_body" "field_constraints (demo_body\<lparr>stream := True\<rparr>)"
  by (simp_all add: field_constraints_def demo_body_def default_request_def)

lemma normalize_demo: "normalize_body demo_body = demo_body" "normalize_body (demo_body\<lparr>stream := True\<rparr>) = demo_body\<lparr>stream := True\<rparr>"
  by (simp_all add: normalize_body_def demo_body_def default_request_def sampling_eps_def)

lemma demo_start_facts:
  "next_id demo_start = 0" "waiting demo_start = []" "running demo_start = []" "calls demo_start = []"
  "engine_runner demo_start = mock_runner" "pc demo_start = NotStarted" "accepted demo_start = []"
  "clients demo_start = (\<lambda>_. None)" "max_batch_size demo_start = 2" "max_batch_tokens demo_start = 64"
  "members demo_start = []" "has_loop_task demo_start" "app_settings demo_start = demo_settings"
  "load_task demo_start = Fetching" "\<not> loaded demo_start"
  by (simp_all add: demo_start_def lifespan_start_def create_app_def loop_start_def demo_settings_def)

lemma posted_demo:
  "posted demo_body demo_start = start_request False [104, 105] 2 (Fin (8 / 10)) None (Inr 0) demo_start"
  by (simp add: posted_def normalize_demo handled_state_def completions_def loop_is_dead_def
      demo_start_facts) (simp add: demo_body_def default_request_def)

lemma reachable_demo_flight: "reachable H demo_flight"
proof -
  have "reachable H (posted demo_body demo_start)"
    by (intro reachable_posted reachable_demo_start demo_body_ok)
  from reachable_loop_step [OF this] show ?thesis
    by (simp add: demo_flight_def posted_demo start_request_arrive demo_start_facts)
qed

section \<open>Properties of every reachable state\<close>

text \<open>C3: the batch and the queue.  In every reachable state the batch is within \<^verbatim>\<open>MAX_BATCH_SIZE\<close>, no
  request is in two places, everybody without a finish reason is in the batch or in the queue, and
  what a worker thread executes is exactly the batch.\<close>

theorem reachable_batch_and_queue:
  assumes "reachable H s"
  shows "int (length (running s)) \<le> max_batch_size s \<and> distinct (running s @ waiting s) \<and>
    {r. r < next_id s \<and> \<not> is_finished (seqs s r)} \<subseteq> set (running s @ waiting s) \<and>
    set (running s @ waiting s) \<subseteq> {r. r < next_id s} \<and>
    (case pc s of Executing b current \<Rightarrow> fb_seqs b = running s | _ \<Rightarrow> True)"
  using served.reach_inv [OF assms]
  by (auto simp: server_inv_def loop_inv_def sched_inv_def none_lost_def executing_ok_def split: loop_pc.splits)

lemma reachable_batch_and_queue_witness:
  "int (length (running demo_flight)) \<le> max_batch_size demo_flight \<and>
   distinct (running demo_flight @ waiting demo_flight)"
  using reachable_batch_and_queue [OF reachable_demo_flight [of demo_hub]] by simp

lemma seq_ok_stops:
  assumes "seq_ok q"
  shows "(finish_reason q = ''stop'') = (set (output_ids q) \<inter> eos_token_ids q \<noteq> {}) \<and>
    set (butlast (output_ids q)) \<inter> eos_token_ids q = {}"
proof
  show "set (butlast (output_ids q)) \<inter> eos_token_ids q = {}"
    using assms unfolding seq_ok_def by (auto dest: in_set_butlastD)
  show "(finish_reason q = ''stop'') = (set (output_ids q) \<inter> eos_token_ids q \<noteq> {})"
    using assms last_in_set [of "output_ids q"] unfolding seq_ok_def by blast
qed

text \<open>C4: outputs and finish reasons are honest.  For every request the server ever accepted, at every
  moment: no more tokens than asked for; an end-of-sequence token is the last one; the reason is
  ``stop'' exactly if there is one, and ``length'' only if the budget is used up without one.\<close>

theorem reachable_outputs_honest:
  assumes "reachable H s" "r < next_id s"
  defines "q \<equiv> seqs s r"
  shows "int (length (output_ids q)) \<le> max 0 (max_new_tokens q) \<and>
    set (butlast (output_ids q)) \<inter> eos_token_ids q = {} \<and>
    (finish_reason q = ''stop'') = (set (output_ids q) \<inter> eos_token_ids q \<noteq> {}) \<and>
    finish_reason q \<in> {'''', ''stop'', ''length'', ''cancelled'', ''error''} \<and>
    (if finish_reason q = ''length'' then int (length (output_ids q)) = max 0 (max_new_tokens q) else True)"
proof -
  have ok: "seq_ok q"
    using served.reach_inv [OF assms(1)] assms(2)
    by (simp add: q_def server_inv_def loop_inv_def sched_inv_def store_inv_def)
  with seq_ok_stops [OF ok] show ?thesis by (simp add: seq_ok_def)
qed

lemma demo_flight_next_id: "next_id demo_flight = 1"
  by (simp add: demo_flight_def posted_demo start_request_arrive arrive_frame demo_start_facts)

lemma reachable_outputs_honest_witness:
  "int (length (output_ids (seqs demo_flight 0))) \<le> max 0 (max_new_tokens (seqs demo_flight 0))"
  using reachable_outputs_honest [OF reachable_demo_flight [of demo_hub], of 0] by (simp add: demo_flight_next_id)

text \<open>C5: nothing is lost between the scheduler and a reader.  A request whose coroutine still waits
  has been sent exactly the tokens of its output, in order -- those it has read, those in its queue
  and those a callback still carries --, and the sentinel exactly if it has a finish reason.\<close>

theorem reachable_channel_exact:
  assumes "reachable H s" "clients s r = Some c" "outcome c = Pending"
  shows "before_none (got c @ channel r s) = output_ids (seqs s r) \<and>
    (None \<in> set (got c @ channel r s)) = is_finished (seqs s r) \<and> None \<notin> set (got c)"
  using clients_inv_D(2) [OF server_inv_D(5) [OF served.reach_inv [OF assms(1)]] assms(2,3)]
  by (auto simp: client_ok_def history_def)

lemma demo_flight_client:
  "clients demo_flight 0 = Some \<lparr>streaming = False, sent = 0, chunks = [], got = [], outcome = Pending\<rparr>"
  by (simp add: demo_flight_def posted_demo start_request_arrive demo_start_facts)

lemma reachable_channel_exact_witness:
  "before_none (channel 0 demo_flight) = output_ids (seqs demo_flight 0)"
  using reachable_channel_exact [OF reachable_demo_flight [of demo_hub] demo_flight_client] by simp

lemma returned_completion:
  assumes "reachable H s" "clients s r = Some c" "resume_request r s = Some t"
    and "clients t r = Some c'" "outcome c' = Returned cmpl"
  shows "before_none (got c') = output_ids (seqs t r) \<and>
    comp_text cmpl = decode (engine_runner s) (output_ids (seqs t r)) \<and>
    completion_tokens cmpl = length (before_none (got c')) \<and>
    prompt_tokens cmpl = length (prompt_ids (seqs t r)) \<and>
    comp_reason cmpl = finish_reason (seqs t r) \<and> comp_reason cmpl \<in> {''stop'', ''length'', ''error''}"
proof -
  have inv: "server_inv s" using assms(1) by (rule served.reach_inv)
  obtain item s1 where pend: "outcome c = Pending" and qg: "queue_get r s = Some (item, s1)"
    and t: "t = (if streaming c then stream_item r c item s1 else generate_item r c item s1)"
    using assms(2,3) by (auto simp: resume_request_def split: option.splits if_splits)
  have ok: "client_ok r c s" using clients_inv_D(2) [OF server_inv_D(5) [OF inv] assms(2) pend] .
  note q = queue_get_Some [OF qg]
  have item: "item = None" and ns: "\<not> streaming c"
    using assms(4,5) pend t generate_item_client [of r c item s1] stream_item_client [of r c item s1]
    by (cases item; cases "streaming c"; auto)+
  have fin: "is_finished (seqs s r)"
    using ok q(1) item by (auto simp: client_ok_def history_def)
  then have s1: "cancel r s1 = s1" by (simp add: cancel_def abort_def q(7))
  have t': "t = set_client r (c\<lparr>got := got c @ [None],
      outcome := Returned (build_completion (engine_runner s1) (seqs s1 r))\<rparr>) s1"
    using t ns item by (simp add: generate_item_def s1)
  then have cmpl: "cmpl = build_completion (engine_runner s1) (seqs s1 r)" "got c' = got c @ [None]"
    using assms(4,5) by auto
  have got: "before_none (got c) = output_ids (seqs s r)"
    using ok q(1) item by (auto simp: client_ok_def history_def before_none_append)
  have r: "r < next_id s" using clients_inv_D(1) [OF server_inv_D(5) [OF inv] assms(2)] .
  have "seq_ok (seqs s r)" using server_inv_D(3) [OF inv] r by (simp add: store_inv_def)
  then have "finish_reason (seqs s r) \<in> {''stop'', ''length'', ''error''}"
    using ok fin by (auto simp: seq_ok_def client_ok_def is_finished_def)
  moreover have "None \<notin> set (got c)" using ok by (simp add: client_ok_def)
  ultimately show ?thesis
    using got by (simp add: t' cmpl build_completion_def q(4,5) queue_get_engine [OF qg] before_none_append)
qed

text \<open>C6: an honest completion.  When a request's coroutine returns, the request has ended, its token
  counts are those of the prompt and of the tokens that came through its queue, its text is the
  decoding of exactly these tokens, and its reason is the scheduler's and not ``cancelled''.\<close>

theorem honest_completion:
  assumes "reachable H s" "clients s r = Some c" "resume_request r s = Some t"
    and "clients t r = Some c'" "outcome c' = Returned cmpl"
  shows "before_none (got c') = output_ids (seqs t r) \<and>
    comp_text cmpl = decode (engine_runner s) (output_ids (seqs t r)) \<and>
    completion_tokens cmpl = length (before_none (got c')) \<and>
    prompt_tokens cmpl = length (prompt_ids (seqs t r)) \<and>
    comp_reason cmpl = finish_reason (seqs t r) \<and> comp_reason cmpl \<in> {''stop'', ''length'', ''error''}"
  using assms by (rule returned_completion)

text \<open>The demo request, run to its end and with its three items delivered and the two tokens read.\<close>

definition demo_delivered :: "(tensors, unit) qwen_state app" where
  "demo_delivered = deliver (deliver (deliver (loop_step mock_runner (loop_step mock_runner demo_flight))))"

definition demo_read :: "(tensors, unit) qwen_state app" where
  "demo_read = the (resume_request 0 (the (resume_request 0 demo_delivered)))"

lemma reachable_deliver: "reachable H s \<Longrightarrow> calls s \<noteq> [] \<Longrightarrow> reachable H (deliver s)"
  by (erule reach_step) (rule serve.callback)

lemma reachable_resume:
  "reachable H s \<Longrightarrow> resume_request r s \<noteq> None \<Longrightarrow> reachable H (the (resume_request r s))"
  by (erule reach_step [where e = "Resume r"]) (auto intro: serve.resume)

lemma demo_flight_runner: "engine_runner demo_flight = mock_runner"
  by (simp add: demo_flight_def posted_demo start_request_arrive demo_start_facts)

lemma reachable_demo_read: "reachable H demo_read"
proof -
  have "reachable H (loop_step mock_runner (loop_step mock_runner demo_flight))"
    using reachable_loop_step [OF reachable_loop_step [OF reachable_demo_flight]]
    by (simp add: demo_flight_runner)
  moreover have "calls (loop_step mock_runner (loop_step mock_runner demo_flight)) \<noteq> []"
    "calls (deliver (loop_step mock_runner (loop_step mock_runner demo_flight))) \<noteq> []"
    "calls (deliver (deliver (loop_step mock_runner (loop_step mock_runner demo_flight)))) \<noteq> []"
    by code_simp+
  ultimately have "reachable H demo_delivered"
    unfolding demo_delivered_def by (intro reachable_deliver)
  moreover have "resume_request 0 demo_delivered \<noteq> None"
    "resume_request 0 (the (resume_request 0 demo_delivered)) \<noteq> None"
    by code_simp+
  ultimately show ?thesis unfolding demo_read_def by (intro reachable_resume)
qed

lemma honest_completion_witness:
  "\<exists>cmpl. clients (the (resume_request 0 demo_read)) 0 =
     Some \<lparr>streaming = False, sent = 0, chunks = [], got = [Some 0, Some 0, None], outcome = Returned cmpl\<rparr> \<and>
     completion_tokens cmpl = 2 \<and> comp_text cmpl = lit ''mock mock '' \<and> comp_reason cmpl = ''length'' \<and>
     comp_reason cmpl \<in> {''stop'', ''length'', ''error''}"
proof -
  define cmpl where
    "cmpl = \<lparr>comp_text = lit ''mock mock '', prompt_tokens = 2, completion_tokens = 2, comp_reason = ''length''\<rparr>"
  let ?c = "\<lparr>streaming = False, sent = 0, chunks = [], got = [Some 0, Some 0], outcome = Pending\<rparr>"
  let ?d = "\<lparr>streaming = False, sent = 0, chunks = [], got = [Some 0, Some 0, None], outcome = Returned cmpl\<rparr>"
  have "clients demo_read 0 = Some ?c" "clients (the (resume_request 0 demo_read)) 0 = Some ?d"
    "resume_request 0 demo_read \<noteq> None"
    unfolding cmpl_def by code_simp+
  with honest_completion [OF reachable_demo_read [of demo_hub], of 0 ?c "the (resume_request 0 demo_read)" ?d cmpl]
  show ?thesis by (auto simp: cmpl_def)
qed

text \<open>C8: a finished request is answered.  From any reachable state in which a waiting request has a
  finish reason, the pending callbacks and the request's own coroutine alone bring it to its end:
  its reader cannot hang.\<close>

theorem finished_request_is_answered:
  assumes "reachable H s" "clients s r = Some c" "outcome c = Pending" "is_finished (seqs s r)"
  shows "\<exists>t c'. (\<lambda>s t. serve H s Callback t \<or> serve H s (Resume r) t)\<^sup>*\<^sup>* s t \<and>
    clients t r = Some c' \<and> outcome c' \<noteq> Pending"
  using delivered_to_reader [OF served.reach_inv [OF assms(1)] assms(2-4)]
  unfolding delivery_def [abs_def] .

lemma finished_request_is_answered_witness:
  "\<exists>t c'. (\<lambda>s t. serve demo_hub s Callback t \<or> serve demo_hub s (Resume 0) t)\<^sup>*\<^sup>* demo_read t \<and>
    clients t 0 = Some c' \<and> outcome c' \<noteq> Pending"
proof (rule finished_request_is_answered [OF reachable_demo_read])
  show "clients demo_read 0 = Some \<lparr>streaming = False, sent = 0, chunks = [], got = [Some 0, Some 0], outcome = Pending\<rparr>"
    by code_simp
  show "is_finished (seqs demo_read 0)" by code_simp
qed simp

text \<open>C1: no request is forgotten.  While the loop is alive, whatever its runner does, every waiting
  request gets to its end: after at most as many loop resumptions as the work bound says, and then
  the callbacks and the request's own coroutine.  After these resumptions nothing is queued or running and
  the loop sleeps, or it has stopped because the runner raised on one of the batches it was handed.\<close>

theorem every_request_is_answered:
  assumes "reachable H s" "\<nexists>e. pc s = Stopped e" "clients s r = Some c" "outcome c = Pending"
  defines "rn \<equiv> engine_runner s" and "n \<equiv> Suc (loop_work s)"
  shows "\<exists>m u c'. loop_runs n rn s = Some m \<and> (\<lambda>s t. serve H s LoopRuns t)\<^sup>*\<^sup>* s m \<and>
    running m = [] \<and> waiting m = [] \<and>
    (case pc m of Sleeping \<Rightarrow> True | Stopped e \<Rightarrow> raises_within n rn s e | _ \<Rightarrow> False) \<and>
    (\<lambda>s t. serve H s Callback t \<or> serve H s (Resume r) t)\<^sup>*\<^sup>* m u \<and>
    clients u r = Some c' \<and> outcome c' \<noteq> Pending"
proof -
  have inv: "server_inv s" using assms(1) by (rule served.reach_inv)
  note facts = server_inv_D [OF inv]
  obtain m where m: "loop_runs n rn s = Some m" "{..< next_id s} \<subseteq> {q. is_finished (seqs m q)}"
    "at_rest n rn s m"
    using loop_drains_lemma [OF facts(1,6,7) assms(2), of n] by (auto simp: n_def rn_def)
  have run: "reachable H m \<and> (\<lambda>s t. serve H s LoopRuns t)\<^sup>*\<^sup>* s m \<and> clients m = clients s"
    if "reachable H s" "loop_runs n (engine_runner s) s = Some m" for n s
    using that
  proof (induction n arbitrary: s)
    case (Suc n)
    let ?t = "loop_step (engine_runner s) s"
    have "server_inv s" using Suc.prems(1) by (rule served.reach_inv)
    then have res: "loop_resume (engine_runner s) s = Some ?t"
      by (simp add: loop_resume_step server_inv_D)
    then have step: "serve H s LoopRuns ?t" by (rule serve.runs)
    have "loop_runs n (engine_runner ?t) ?t = Some m" using Suc.prems(2) res by simp
    from Suc.IH [OF reachable_loop_step [OF Suc.prems(1)] this] step show ?case
      by (auto intro: converse_rtranclp_into_rtranclp)
  qed simp
  have rm: "reachable H m" "(\<lambda>s t. serve H s LoopRuns t)\<^sup>*\<^sup>* s m" "clients m r = Some c"
    using run [OF assms(1) m(1) [unfolded rn_def]] assms(3) by auto
  have "is_finished (seqs m r)" using m(2) clients_inv_D(1) [OF facts(5) assms(3)] by auto
  with delivered_to_reader [OF served.reach_inv [OF rm(1)] rm(3) assms(4)] m(1,3) rm(2)
  show ?thesis unfolding delivery_def [abs_def] at_rest_def by blast
qed

text \<open>The production runner: the model has arrived, a request is in flight on it.\<close>

definition qwen_posted :: "(tensors, unit) qwen_state app" where
  "qwen_posted = posted demo_body (load_swap demo_hub demo_start)"

definition qwen_flight :: "(tensors, unit) qwen_state app" where
  "qwen_flight = loop_step (engine_runner qwen_posted) qwen_posted"

lemma reachable_qwen: "reachable demo_hub qwen_posted" "reachable demo_hub qwen_flight"
proof -
  have "reachable demo_hub (load_swap demo_hub demo_start)"
    by (rule reach_step [OF reachable_demo_start serve.arrives]) (rule demo_start_facts)
  then show p: "reachable demo_hub qwen_posted"
    unfolding qwen_posted_def by (intro reachable_posted demo_body_ok)
  then show "reachable demo_hub qwen_flight"
    unfolding qwen_flight_def by (rule reachable_loop_step)
qed

lemma every_request_is_answered_witness:
  "\<exists>m u c'. loop_runs (Suc (loop_work qwen_flight)) (engine_runner qwen_flight) qwen_flight = Some m \<and>
    (\<lambda>s t. serve demo_hub s LoopRuns t)\<^sup>*\<^sup>* qwen_flight m \<and> running m = [] \<and> waiting m = [] \<and>
    (\<lambda>s t. serve demo_hub s Callback t \<or> serve demo_hub s (Resume 0) t)\<^sup>*\<^sup>* m u \<and>
    clients u 0 = Some c' \<and> outcome c' \<noteq> Pending"
proof -
  have "(case pc qwen_flight of Stopped e \<Rightarrow> False | _ \<Rightarrow> True)" by code_simp
  then have "\<nexists>e. pc qwen_flight = Stopped e" by (auto split: loop_pc.splits)
  moreover have "clients qwen_flight 0 = Some \<lparr>streaming = False, sent = 0, chunks = [], got = [], outcome = Pending\<rparr>"
    by code_simp
  ultimately show ?thesis
    using every_request_is_answered [OF reachable_qwen(2), of 0] by fastforce
qed

text \<open>C35: every stop token stops, at any point of a run.  A request that is accepted while the engine's
  runner is a Qwen runner ends with ``stop'' exactly if one of the model's end-of-sequence ids has come
  out -- all ids of the generation config, one or several, or the tokenizer's if the config names none --, and
  then as its last token; this holds in every later state of the server, whatever happens in between.\<close>

theorem every_stop_token_stops:
  assumes "reachable H s" "engine_runner s = qwen_runner tok gc forward T thinking"
    and "serve H s e u" "r \<in> {next_id s ..< next_id u}" "(\<lambda>s t. \<exists>e. serve H s e t)\<^sup>*\<^sup>* u t"
  defines "out \<equiv> output_ids (seqs t r)"
    and "stops \<equiv> (case (gc, tok_eos_token_id tok) of
        (Some (Some (EosIds es)), _) \<Rightarrow> set es
      | (Some (Some (EosId x)), _) \<Rightarrow> {x}
      | (_, Some (EosIds es)) \<Rightarrow> set es
      | (_, Some (EosId x)) \<Rightarrow> {x}
      | (_, None) \<Rightarrow> {})"
  shows "(finish_reason (seqs t r) = ''stop'') = (set out \<inter> stops \<noteq> {}) \<and> set (butlast out) \<inter> stops = {}"
proof -
  have inv: "server_inv s" using assms(1) by (rule served.reach_inv)
  have "eos_token_ids (seqs u r) = eos_ids (engine_runner s)" "r < next_id u"
    using serve_keeps_requests [OF inv assms(3)] assms(4) by (auto simp: keeps_requests_def)
  moreover have "server_inv t \<and> r < next_id t \<and> spec_of (seqs t r) = spec_of (seqs u r)"
    using steps_keep_request [OF assms(5) serve_inv [OF inv assms(3)]] \<open>r < next_id u\<close> by blast
  moreover have "eos_ids (engine_runner s) = stops"
    by (auto simp: assms(2) stops_def qwen_runner_def resolve_eos_ids_def Let_def split: option.split eos_setting.split)
  ultimately have eos: "eos_token_ids (seqs t r) = stops" and "seq_ok (seqs t r)"
    by (auto simp: server_inv_def loop_inv_def sched_inv_def store_inv_def dest: spec_of_fields)
  from seq_ok_stops [OF this(2)] show ?thesis unfolding eos out_def .
qed

text \<open>
  A model whose generation config names two end-of-sequence ids, neither of them the tokenizer's; the
  demo request on it, accepted, scheduled, and executed once.
\<close>

definition stops_tokenizer :: tokenizer where
  "stops_tokenizer = ascii_tokenizer\<lparr>tok_eos_token_id := Some (EosId 2)\<rparr>"

definition stops_hub :: "(int, tensors, unit) hub" where
  "stops_hub = demo_hub\<lparr>hub_tokenizer := (\<lambda>_. stops_tokenizer),
     hub_model := (\<lambda>_ _ _. (Some (Some (EosIds [7, 1])), summing_forward))\<rparr>"

definition stops_loaded :: "(tensors, unit) qwen_state app" where
  "stops_loaded = load_swap stops_hub demo_start"

definition stops_flight :: "(tensors, unit) qwen_state app" where
  "stops_flight = (let s = posted demo_body stops_loaded; t = loop_step (engine_runner s) s
     in loop_step (engine_runner t) t)"

lemma stops_loaded_runner:
  "engine_runner stops_loaded = qwen_runner stops_tokenizer (Some (Some (EosIds [7, 1]))) summing_forward int_torch False"
  by (simp add: stops_loaded_def load_swap_def demo_start_facts wants_model_def demo_settings_def load_qwen_runner_def
      load_qwen_def stops_hub_def demo_hub_def Let_def loop_start_def starts_with_def mock_model_prefix_def lit_def)

lemma every_stop_token_stops_witness:
  "finish_reason (seqs stops_flight 0) = ''stop'' \<and> output_ids (seqs stops_flight 0) = [1]"
proof -
  let ?s = stops_loaded and ?u = "posted demo_body stops_loaded"
  have s: "reachable stops_hub ?s"
    unfolding stops_loaded_def by (rule reach_step [OF reachable_demo_start serve.arrives]) (rule demo_start_facts)
  have post: "serve stops_hub ?s (Post demo_body 0) ?u"
    unfolding posted_def by (rule serve.post) (rule demo_body_ok)
  have "next_id ?s = 0" "next_id ?u = 1" by code_simp+
  then have r: "0 \<in> {next_id ?s ..< next_id ?u}" by simp
  have runs: "serve stops_hub x LoopRuns (loop_step (engine_runner x) x)" if "reachable stops_hub x" for x
    using served.reach_inv [OF that] by (intro serve.runs) (simp add: loop_resume_step server_inv_D)
  have u: "reachable stops_hub ?u" using s post by (rule reach_step)
  have "(\<lambda>s t. \<exists>e. serve stops_hub s e t)\<^sup>*\<^sup>* ?u stops_flight"
    unfolding stops_flight_def Let_def
    by (rule rtranclp.rtrancl_into_rtrancl [OF r_into_rtranclp]) (use runs u reachable_loop_step in blast)+
  moreover have "output_ids (seqs stops_flight 0) = [1]" by code_simp
  ultimately show ?thesis using every_stop_token_stops [OF s stops_loaded_runner post r] by simp
qed

text \<open>C10: no race on the batch.  While a worker thread executes a batch, no other step of the server --
  arrivals, readers, disconnections, callbacks, the load's end, and also the model's arrival and the
  shutdown -- changes anything a runner reads of the batch: executing it on either side of the step
  gives the same rows.  None moves the loop or changes the runner or its state, but for two: the shutdown
  stops the loop, and the arrival of a configured model replaces runner and loop, so that the
  rows of the batch are recorded by nobody.\<close>

theorem batch_untouched_while_executing:
  assumes "reachable H s" "pc s = Executing b current" "serve H s e t" "e \<noteq> LoopRuns"
  defines "swapped \<equiv> e = ModelArrives \<and> wants_model (app_settings s)"
  shows "map (\<lambda>r. token_ids (seqs t r)) (fb_seqs b) = map (\<lambda>r. token_ids (seqs s r)) (fb_seqs b) \<and>
    qwen_execute pad fw T (seqs t) b k = qwen_execute pad fw T (seqs s) b k \<and>
    mock_execute (seqs t) b c = mock_execute (seqs s) b c \<and>
    pc t = (if e = Shutdown then Stopped CancelledError else if swapped then NotStarted else pc s) \<and>
    (if swapped then True else rstate t = rstate s \<and> engine_runner t = engine_runner s)"
proof -
  have inv: "server_inv s" using assms(1) by (rule served.reach_inv)
  have lt: "r < next_id s" if "r \<in> set (fb_seqs b)" for r
    using server_inv_D(1) [OF inv] assms(2) that
    by (auto simp: loop_inv_def executing_ok_def sched_inv_def)
  have view: "runner_view (seqs t r) = runner_view (seqs s r)" if "r \<in> set (fb_seqs b)" for r
    using quiet_outputs [OF inv assms(3,4)] lt [OF that]
    by (auto simp: runner_view_def token_ids_def dest: spec_of_fields)
  have "qwen_execute pad fw T (seqs t) b k = qwen_execute pad fw T (seqs s) b k"
    by (rule qwen.exec_reads) (rule view)
  moreover have "mock_execute (seqs t) b c = mock_execute (seqs s) b c"
    by (rule mock.exec_reads) (rule view)
  moreover have "map (\<lambda>r. token_ids (seqs t r)) (fb_seqs b) = map (\<lambda>r. token_ids (seqs s r)) (fb_seqs b)"
    using view by (auto dest: runner_view_fields)
  moreover have "pc t = (if e = Shutdown then Stopped CancelledError else if swapped then NotStarted else pc s) \<and>
    (if swapped then True else rstate t = rstate s \<and> engine_runner t = engine_runner s)"
  proof (cases "e \<in> {Shutdown, ModelArrives}")
    case True
    with assms(3) show ?thesis
      by cases (auto simp: swapped_def lifespan_stop_def load_swap_def loop_cancel_def assms(2) loop_start_def
          loop_raise_rstate split: prod.split)
  next
    case False
    then show ?thesis using quiet_step [OF assms(3) _ inv] assms(4) by (auto simp: swapped_def)
  qed
  ultimately show ?thesis by blast
qed

lemma demo_flight_pc: "pc demo_flight = Executing \<lparr>fb_seqs = [0], is_prefill = True\<rparr> [0]"
  by (simp add: demo_flight_def posted_demo start_request_arrive demo_start_facts loop_step_def
      loop_next_def arrive_loop has_work_def arrive_frame schedule_def arrive_new arrive_def
      new_sequence_def add_def Let_def is_finished_def seq_len_def)

lemma batch_untouched_while_executing_witness:
  "pc (disconnect 0 demo_flight) = Executing \<lparr>fb_seqs = [0], is_prefill = True\<rparr> [0] \<and>
   token_ids (seqs (disconnect 0 demo_flight) 0) = token_ids (seqs demo_flight 0) \<and>
   token_ids (seqs (load_swap demo_hub demo_flight) 0) = token_ids (seqs demo_flight 0)"
proof -
  note demo = batch_untouched_while_executing [OF reachable_demo_flight [of demo_hub] demo_flight_pc,
      where pad = 0 and fw = summing_forward and T = int_torch and k = "\<lparr>cache = None, rng = ()\<rparr>" and c = "()"]
  have "load_task demo_flight = Fetching" by code_simp
  from demo [OF serve.arrives [OF this]] demo [OF serve.hangup [of demo_hub demo_flight 0]] show ?thesis
    by (simp add: demo_flight_pc)
qed

text \<open>C9: the loop dies loudly.  When a tick raises, every waiting request gets to its end -- with
  nothing but callbacks and its own coroutine --, \<^verbatim>\<open>/health\<close> turns to 503 and \<^verbatim>\<open>/v1/completions\<close>
  refuses new work.\<close>

theorem dying_loop_answers_everyone:
  assumes "reachable H s" "pc s = Executing b current"
    and "execute (engine_runner s) (seqs s) b (rstate s) = (Inl e, c)"
    and "clients s r = Some k" "outcome k = Pending"
  defines "t \<equiv> loop_step (engine_runner s) s"
  shows "serve H s LoopRuns t \<and> pc t = Stopped e \<and>
    (\<exists>u k'. (\<lambda>s t. serve H s Callback t \<or> serve H s (Resume r) t)\<^sup>*\<^sup>* t u \<and>
       clients u r = Some k' \<and> outcome k' \<noteq> Pending) \<and>
    http_status (health t) = 503 \<and>
    completions body ev t =
      Refused (error_response 503 (lit ''the inference loop is not running'') ''service_unavailable'' None)"
proof -
  have inv: "server_inv s" using assms(1) by (rule served.reach_inv)
  have rt: "reachable H t" unfolding t_def using assms(1) by (rule reachable_loop_step)
  have t: "t = loop_raise e (s\<lparr>rstate := c\<rparr>)" using assms(2,3) by (simp add: t_def loop_step_def)
  have "loop_resume (engine_runner s) s = Some t"
    unfolding t_def using inv by (simp add: loop_resume_step server_inv_D)
  then have step: "serve H s LoopRuns t" by (rule serve.runs)
  have "r < next_id s" using clients_inv_D(1) [OF server_inv_D(5) [OF inv] assms(4)] .
  moreover have "none_lost s" using server_inv_D(1) [OF inv] by (simp add: loop_inv_def)
  then have "none_lost (s\<lparr>rstate := c\<rparr>)" by simp
  ultimately have "is_finished (seqs t r)"
    using fail_all_finishes [of "s\<lparr>rstate := c\<rparr>" r] by (simp add: t loop_raise_def)
  moreover have "clients t r = Some k" by (simp add: t assms(4))
  ultimately have "\<exists>u k'. (delivery H r)\<^sup>*\<^sup>* t u \<and> clients u r = Some k' \<and> outcome k' \<noteq> Pending"
    using delivered_to_reader [OF served.reach_inv [OF rt] _ assms(5)] by blast
  then show ?thesis
    using step unfolding delivery_def [abs_def]
    by (simp add: t health_def loop_is_dead_def completions_def)
qed

text \<open>
  The server on the failing device: the model has arrived, a stream has been accepted but has not
  begun, a request is in flight; then its tick raises; then the stream begins.
\<close>

definition oom_posted :: "(tensors, unit) qwen_state app" where
  "oom_posted = posted demo_body (posted (demo_body\<lparr>stream := True\<rparr>) (load_swap oom_hub demo_start))"

definition oom_flight :: "(tensors, unit) qwen_state app" where
  "oom_flight = loop_step (engine_runner oom_posted) oom_posted"

definition oom_dead :: "(tensors, unit) qwen_state app" where
  "oom_dead = loop_step (engine_runner oom_flight) oom_flight"

definition oom_stranded :: "(tensors, unit) qwen_state app" where
  "oom_stranded = the (stream_begins 0 5 oom_dead)"

lemma reachable_oom: "reachable oom_hub oom_flight" "reachable oom_hub oom_dead" "reachable oom_hub oom_stranded"
proof -
  have "reachable oom_hub (load_swap oom_hub demo_start)"
    by (rule reach_step [OF reachable_demo_start serve.arrives]) (rule demo_start_facts)
  then have "reachable oom_hub oom_posted"
    unfolding oom_posted_def by (intro reachable_posted demo_body_ok)
  then show f: "reachable oom_hub oom_flight"
    unfolding oom_flight_def by (rule reachable_loop_step)
  then show d: "reachable oom_hub oom_dead"
    unfolding oom_dead_def by (rule reachable_loop_step)
  have "stream_begins 0 5 oom_dead \<noteq> None" by code_simp
  then have "serve oom_hub oom_dead (StreamBegins 0 5) oom_stranded"
    unfolding oom_stranded_def by (intro serve.begins) simp
  then show "reachable oom_hub oom_stranded" by (rule reach_step [OF d])
qed

lemma dying_loop_answers_everyone_witness:
  "http_status (health oom_dead) = 503 \<and>
   (\<exists>u k'. (\<lambda>s t. serve oom_hub s Callback t \<or> serve oom_hub s (Resume 0) t)\<^sup>*\<^sup>* oom_dead u \<and>
      clients u 0 = Some k' \<and> outcome k' \<noteq> Pending)"
proof -
  have pc: "pc oom_flight = Executing \<lparr>fb_seqs = [0], is_prefill = True\<rparr> [0]" by code_simp
  have ex: "execute (engine_runner oom_flight) (seqs oom_flight) \<lparr>fb_seqs = [0], is_prefill = True\<rparr> (rstate oom_flight)
      = (Inl OutOfMemoryError, \<lparr>cache = None, rng = ()\<rparr>)" by code_simp
  have cl: "clients oom_flight 0 = Some \<lparr>streaming = False, sent = 0, chunks = [], got = [], outcome = Pending\<rparr>"
    by code_simp
  show ?thesis
    using dying_loop_answers_everyone [OF reachable_oom(1) pc ex cl, of demo_body 0]
    by (simp add: oom_dead_def [symmetric])
qed

text \<open>C11: a stream can be stranded.  \<^verbatim>\<open>/v1/completions\<close> looks at the loop when a streaming request comes
  in, but the request is submitted only when its generator is started.  If the loop dies in between,
  the request is queued with nobody to serve it: there is a reachable state from which, unless the
  client hangs up, the request waits for ever, whatever else happens -- it is never answered, not even
  with an error.\<close>

theorem accepted_stream_can_hang:
  "\<exists>s r c. reachable oom_hub s \<and> clients s r = Some c \<and> streaming c \<and> outcome c = Pending \<and>
    {t. (\<lambda>s t. \<exists>e \<in> - {HangUp r}. serve oom_hub s e t)\<^sup>*\<^sup>* s t} \<subseteq>
    {t. clients t r = Some c \<and> outcome c = Pending \<and> chunks c = [] \<and> channel r t = [] \<and>
        \<not> is_finished (seqs t r)}"
proof -
  let ?c = "\<lparr>streaming = True, sent = 0, chunks = [], got = [], outcome = Pending\<rparr>"
  have stays: "reachable oom_hub t \<and> stranded 1 ?c t"
    if "(\<lambda>s t. \<exists>e \<in> - {HangUp 1}. serve oom_hub s e t)\<^sup>*\<^sup>* oom_stranded t" for t
    using that
  proof induction
    case base
    have "clients oom_stranded 1 = Some ?c \<and> channel 1 oom_stranded = [] \<and>
      (case pc oom_stranded of Stopped e \<Rightarrow> True | _ \<Rightarrow> False) \<and> load_task oom_stranded = Warming \<and>
      \<not> is_finished (seqs oom_stranded 1)" by code_simp
    with reachable_oom(3) show ?case by (simp add: stranded_def)
  next
    case (step t u)
    then obtain e where e: "serve oom_hub t e u" "e \<noteq> HangUp 1" by auto
    have "server_inv t" using step.IH by (auto intro: served.reach_inv)
    with step.IH e show ?case by (auto intro: stranded_step reach_step)
  qed
  from stays [OF rtranclp.rtrancl_refl] have "clients oom_stranded 1 = Some ?c"
    by (simp add: stranded_def)
  with stays reachable_oom(3) show ?thesis
    by (intro exI [of _ oom_stranded] exI [of _ 1] exI [of _ ?c]) (auto simp: stranded_def)
qed

section \<open>Streams\<close>







section \<open>Responses, parameters, disconnections\<close>

text \<open>C17: the response to a completion.  When a request's coroutine returns, the handler answers 500
  with the error envelope exactly if generation failed; otherwise it answers 200 with the decoded
  text, a finish reason of the schema -- ``stop'' or ``length'' --, and a usage block whose counts are
  those of the prompt and of the tokens delivered, and their sum.\<close>

theorem completion_response:
  assumes "reachable H s" "clients s r = Some c" "resume_request r s = Some t"
    and "clients t r = Some c'" "outcome c' = Returned cmpl"
  shows "completions_result i n st cmpl =
     (if finish_reason (seqs t r) = ''error''
      then error_response 500 (lit ''generation failed: error'') ''internal_server_error'' None
      else \<lparr>http_status = 200, http_body = JsonBody (JObj
        [(''id'', JStr i), (''object'', JStr (lit ''text_completion'')), (''created'', JInt n),
         (''model'', JStr (model_name st)),
         (''choices'', JList [choice_json (decode (engine_runner s) (before_none (got c')))
            (Some (finish_reason (seqs t r)))]),
         (''usage'', JObj
           [(''prompt_tokens'', JInt (int (length (prompt_ids (seqs t r))))),
            (''completion_tokens'', JInt (int (length (before_none (got c'))))),
            (''total_tokens'', JInt (int (length (token_ids (seqs t r)))))])])\<rparr>) \<and>
    finish_reason (seqs t r) \<in> {''error'', ''stop'', ''length''}"
  using returned_completion [OF assms]
  by (auto simp: completions_result_def fatal_finish_reasons_def token_ids_def lit_def)

lemma completion_response_witness:
  "completions_result [] 0 demo_settings \<lparr>comp_text = lit ''mock mock '', prompt_tokens = 2,
      completion_tokens = 2, comp_reason = ''length''\<rparr> =
    \<lparr>http_status = 200, http_body = JsonBody (JObj
        [(''id'', JStr []), (''object'', JStr (lit ''text_completion'')), (''created'', JInt 0),
         (''model'', JStr [109]),
         (''choices'', JList [choice_json (lit ''mock mock '') (Some ''length'')]),
         (''usage'', JObj
           [(''prompt_tokens'', JInt 2), (''completion_tokens'', JInt 2), (''total_tokens'', JInt 4)])])\<rparr>"
proof -
  let ?cmpl = "\<lparr>comp_text = lit ''mock mock '', prompt_tokens = 2, completion_tokens = 2, comp_reason = ''length''\<rparr>"
  let ?t = "the (resume_request 0 demo_read)"
  let ?c = "\<lparr>streaming = False, sent = 0, chunks = [], got = [Some 0, Some 0], outcome = Pending\<rparr>"
  let ?d = "\<lparr>streaming = False, sent = 0, chunks = [], got = [Some 0, Some 0, None], outcome = Returned ?cmpl\<rparr>"
  have s: "clients demo_read 0 = Some ?c" "clients ?t 0 = Some ?d" "resume_request 0 demo_read \<noteq> None"
    by code_simp+
  have d: "finish_reason (seqs ?t 0) = ''length''" "length (prompt_ids (seqs ?t 0)) = 2"
    "length (token_ids (seqs ?t 0)) = 4" "decode (engine_runner demo_read) [0, 0] = lit ''mock mock ''"
    by code_simp+
  have "resume_request 0 demo_read = Some ?t" using s(3) by auto
  from completion_response [OF reachable_demo_read [of demo_hub] s(1) this s(2), of ?cmpl "[]" 0 demo_settings] d
  show ?thesis by (simp add: demo_settings_def)
qed

text \<open>C21: the engine never sees a parameter it cannot survive.  Every sequence of a reachable state
  has a token budget of at least 0, a temperature that is 0 or between 1e-5 and 2 -- never infinite,
  never NaN --, and no top-k or one of at least 1.\<close>

theorem sampling_parameters_sane:
  assumes "reachable H s" "r < next_id s"
  shows "0 \<le> max_new_tokens (seqs s r) \<and>
    (\<exists>x. temperature (seqs s r) = Fin x \<and> x \<in> {0} \<union> {1 / 100000 .. 2}) \<and>
    top_k (seqs s r) \<in> {None} \<union> Some ` {1 ..}"
proof -
  have "params_inv s" using sane.reach_inv [OF assms(1)] by simp
  then have "sane_params (max_new_tokens (seqs s r)) (temperature (seqs s r)) (top_k (seqs s r))"
    using assms(2) by (simp add: params_inv_def sane_seq_def)
  then show ?thesis by (auto simp: sane_params_def split: pyfloat.splits option.splits)
qed

text \<open>A client that asks for greedy decoding with a temperature too small to divide by.\<close>

definition tiny_body :: completion_request where
  "tiny_body = demo_body\<lparr>req_temperature := Fin (1 / 10 ^ 40), req_top_k := Some 0\<rparr>"

lemma sampling_parameters_sane_witness:
  "\<exists>x. temperature (seqs (posted tiny_body demo_start) 0) = Fin x \<and> x \<in> {0} \<union> {1 / 100000 .. 2}"
proof -
  have "field_constraints tiny_body"
    by (simp add: tiny_body_def demo_body_def default_request_def field_constraints_def)
  then have "reachable demo_hub (posted tiny_body demo_start)"
    by (rule reachable_posted [OF reachable_demo_start])
  moreover have "0 < next_id (posted tiny_body demo_start)" by code_simp
  ultimately show ?thesis using sampling_parameters_sane by blast
qed

text \<open>C16: a client that leaves frees its place.  The request ends -- ``cancelled'', unless it had ended --,
  it is in no later batch and not in the queue, the queue keeps its order, no other request and no
  other client changes, and one request fewer is counted.\<close>

theorem disconnect_frees_the_slot:
  assumes "reachable H s" "clients s r = Some c" "outcome c = Pending"
  defines "t \<equiv> disconnect r s"
  shows "finish_reason (seqs t r) = (if is_finished (seqs s r) then finish_reason (seqs s r) else ''cancelled'') \<and>
    r \<notin> set (fst (schedule t)) \<and> waiting t = filter (\<lambda>q. q \<noteq> r) (waiting s) \<and>
    (seqs t)(r := seqs s r) = seqs s \<and> (clients t)(r := clients s r) = clients s \<and>
    num_running t + num_waiting t + (if is_finished (seqs s r) then 0 else 1) = num_running s + num_waiting s"
proof -
  have inv: "server_inv s" using assms(1) by (rule served.reach_inv)
  have t: "t = set_client r (c\<lparr>outcome := Disconnected\<rparr>) (abort r ''cancelled'' s)"
    using assms(2,3) by (simp add: t_def disconnect_def cancel_def)
  have "server_inv t" unfolding t_def by (rule disconnect_inv [OF inv])
  then have counts:
    "num_running t + num_waiting t = card {q. q < next_id t \<and> \<not> is_finished (seqs t q)}"
    "num_running s + num_waiting s = card {q. q < next_id s \<and> \<not> is_finished (seqs s q)}"
    using inv by (auto simp: server_inv_def loop_inv_def intro!: gauges_card)
  have r: "r < next_id s" using clients_inv_D(1) [OF server_inv_D(5) [OF inv] assms(2)] .
  have others: "seqs t q = seqs s q" "clients t q = clients s q" if "q \<noteq> r" for q
    using that by (simp_all add: t abort_other)
  have fin: "finish_reason (seqs t r) =
      (if is_finished (seqs s r) then finish_reason (seqs s r) else ''cancelled'')"
    by (simp add: t abort_reason)
  then have live: "is_finished (seqs t q) \<longleftrightarrow> q = r \<or> is_finished (seqs s q)" for q
    using others(1) [of q] by (cases "q = r") (auto simp: is_finished_def split: if_splits)
  have frame: "next_id t = next_id s" "waiting t = waiting (abort r ''cancelled'' s)"
    "fst (schedule t) = fst (schedule (abort r ''cancelled'' s))"
    by (simp_all add: t schedule_unfold Let_def)
  let ?live = "{q. q < next_id s \<and> \<not> is_finished (seqs s q)}"
  have "{q. q < next_id t \<and> \<not> is_finished (seqs t q)} = ?live - {r}"
    by (auto simp: live frame)
  moreover have "card (?live - {r}) + (if is_finished (seqs s r) then 0 else 1) = card ?live"
  proof (cases "is_finished (seqs s r)")
    case True
    then have "?live - {r} = ?live" by blast
    then show ?thesis using True by simp
  next
    case False
    then have "Suc (card (?live - {r})) = card ?live" using r by (intro card_Suc_Diff1) auto
    then show ?thesis using False by simp
  qed
  ultimately have "num_running t + num_waiting t + (if is_finished (seqs s r) then 0 else 1) = num_running s + num_waiting s"
    by (simp only: counts)
  moreover have "(seqs t)(r := seqs s r) = seqs s" "(clients t)(r := clients s r) = clients s"
    by (auto simp: fun_eq_iff others)
  ultimately show ?thesis
    using fin abort_leaves [OF server_inv_D(2) [OF inv], of "''cancelled''" r]
    by (simp add: frame)
qed

lemma disconnect_frees_the_slot_witness:
  "waiting (disconnect 0 demo_flight) = filter (\<lambda>q. q \<noteq> 0) (waiting demo_flight) \<and>
   finish_reason (seqs (disconnect 0 demo_flight) 0) = ''cancelled''"
proof -
  have "\<not> is_finished (seqs demo_flight 0)" by code_simp
  then show ?thesis
    using disconnect_frees_the_slot [OF reachable_demo_flight [of demo_hub] demo_flight_client] by simp
qed

text \<open>C15: the model arrives.  Swapping the runner answers or keeps every request: if a worker thread is
  executing a batch, everybody in flight ends with ``error'' and the sentinel and nothing is left; at
  any other moment no request, queue or client changes.  Either way a fresh loop without a batch
  starts on the new runner, which has no cache.\<close>

theorem model_swap_answers_or_keeps:
  assumes "reachable H s" "wants_model (app_settings s)" "r < next_id s"
  defines "t \<equiv> load_swap H s"
  shows "(case pc s of
      Executing b current \<Rightarrow>
        finish_reason (seqs t r) = (if is_finished (seqs s r) then finish_reason (seqs s r) else ''error'') \<and>
        channel r t = channel r s @ (if r \<in> set (running s @ waiting s) then [None] else []) \<and> \<not> has_work t
    | _ \<Rightarrow> seqs t = seqs s \<and> waiting t = waiting s \<and> running t = running s \<and> channel r t = channel r s) \<and>
    clients t = clients s \<and> pc t = NotStarted \<and> members t = [] \<and> cache (rstate t) = None \<and>
    engine_runner t = fst (load_qwen_runner H (model_id (app_settings s)) (enable_thinking (app_settings s)))"
proof -
  have inv: "server_inv s" using assms(1) by (rule served.reach_inv)
  obtain tok gc forward where l: "load_qwen_runner H (model_id (app_settings s)) (enable_thinking (app_settings s)) =
      (qwen_runner tok gc forward (hub_torch H) (enable_thinking (app_settings s)), \<lparr>cache = None, rng = hub_rng H\<rparr>)"
    by (rule load_qwen_runner_parts)
  have t: "t = (loop_start \<lparr>cache = None, rng = hub_rng H\<rparr> ((loop_cancel s)\<lparr>engine_runner :=
      fst (load_qwen_runner H (model_id (app_settings s)) (enable_thinking (app_settings s)))\<rparr>))\<lparr>load_task := Warming\<rparr>"
    using assms(2) by (simp add: t_def load_swap_def l)
  have fresh: "pc t = NotStarted" "members t = []" "cache (rstate t) = None" "clients t = clients s"
    "engine_runner t = fst (load_qwen_runner H (model_id (app_settings s)) (enable_thinking (app_settings s)))"
    "seqs t = seqs (loop_cancel s)" "waiting t = waiting (loop_cancel s)" "running t = running (loop_cancel s)"
    by (simp_all add: t loop_start_def)
  have chan: "channel r t = channel r (loop_cancel s)" by (simp add: t loop_start_def channel_def)
  show ?thesis
  proof (cases "pc s")
    case (Executing b current)
    then have c: "loop_cancel s = (snd (fail_all s))\<lparr>pc := Stopped CancelledError\<rparr>"
      by (simp add: loop_cancel_def loop_raise_def)
    have "is_finished (seqs s r) \<or> r \<in> set (running s @ waiting s)"
      using inv assms(3) by (auto simp: server_inv_def loop_inv_def none_lost_def)
    moreover have "channel r (loop_cancel s) = channel r (snd (fail_all s))" by (simp add: c channel_def)
    ultimately show ?thesis
      using fresh chan channel_fail_all [OF server_inv_D(2) [OF inv], of r]
      by (auto simp: Executing c fold_fail_reason has_work_def simp del: fold_append)
  qed (use fresh chan in \<open>simp_all add: loop_cancel_def channel_def\<close>)
qed

lemma model_swap_answers_or_keeps_witness:
  "finish_reason (seqs (load_swap demo_hub demo_flight) 0) = ''error'' \<and> \<not> has_work (load_swap demo_hub demo_flight)"
proof -
  have "wants_model (app_settings demo_flight)" "0 < next_id demo_flight" "\<not> is_finished (seqs demo_flight 0)"
    "case pc demo_flight of Executing b current \<Rightarrow> True | _ \<Rightarrow> False"
    by code_simp+
  with model_swap_answers_or_keeps [OF reachable_demo_flight [of demo_hub] this(1,2)] show ?thesis
    by (auto split: loop_pc.splits)
qed

section \<open>Readiness\<close>

text \<open>C13: readiness.  In every reachable state \<^verbatim>\<open>/health\<close> answers 200 exactly if loading has finished and
  the loop task is alive -- 503 before, 503 for ever when loading failed, 503 once the loop has died --,
  whatever has happened; and no event takes a server that has become ready, or that has failed
  to load, out of that state or any server backwards.\<close>

theorem readiness_is_honest_and_monotone:
  assumes "reachable H s" "serve H s e t"
  shows "http_status (health t) =
      (if load_task t = Ready then case pc t of Stopped x \<Rightarrow> 503 | _ \<Rightarrow> 200 else 503) \<and>
    load_task s \<le> load_task t \<and>
    (case load_task s of Ready \<Rightarrow> load_task t = Ready | LoadFailed \<Rightarrow> http_status (health t) = 503 | _ \<Rightarrow> True)"
proof -
  have inv: "server_inv s" "ready_inv s" using readiness.reach_inv [OF assms(1)] by simp_all
  note step = load_progress [OF inv assms(2)]
  then have "http_status (health t) =
      (if load_task t = Ready then case pc t of Stopped x \<Rightarrow> 503 | _ \<Rightarrow> 200 else 503)"
    by (simp add: health_def loop_is_dead_def ready_inv_def split: loop_pc.split)
  then show ?thesis using step by (auto split: load_pc.split)
qed

lemma readiness_is_honest_and_monotone_witness:
  "http_status (health (load_swap demo_hub demo_start)) = 503 \<and>
   http_status (health (load_done (load_swap demo_hub demo_start))) = 200"
proof -
  let ?u = "load_swap demo_hub demo_start"
  have "load_task demo_start = Fetching" by code_simp
  then have "serve demo_hub demo_start ModelArrives ?u" by (rule serve.arrives)
  with reachable_demo_start have u: "reachable demo_hub ?u" by (rule reach_step)
  have "load_task ?u = Warming" by code_simp
  then have d: "serve demo_hub ?u LoadDone (load_done ?u)" by (rule serve.loads)
  have "case pc (load_done ?u) of Stopped x \<Rightarrow> False | _ \<Rightarrow> True" "load_task (load_done ?u) = Ready"
    "http_status (health ?u) = 503" by code_simp+
  with readiness_is_honest_and_monotone [OF u d] show ?thesis by (auto split: loop_pc.splits)
qed

section \<open>Characters of several tokens\<close>

text \<open>
  A byte-level tokenizer as byte-level tokenizers are: a character outside ASCII is several tokens,
  and decoding the first of them alone gives the replacement character U+FFFD.  Token 0 is the first
  and token 1 the second byte of U+00E9; the model generates the one after the other.
\<close>

definition replacement_char :: nat where
  "replacement_char = 65533"

declare replacement_char_def [code del]

fun utf8_text :: "int list \<Rightarrow> ustring" where
  "utf8_text [] = []"
| "utf8_text [b] = (if b < 128 then [nat b] else [replacement_char])"
| "utf8_text (b # c # bs) =
     (if b < 128 then nat b # utf8_text (c # bs) else nat ((b - 192) * 64 + (c - 128)) # utf8_text bs)"

definition byte_text :: "int list \<Rightarrow> ustring" where
  "byte_text ids = utf8_text (map (\<lambda>i. if i = 0 then 195 else if i = 1 then 169 else i) ids)"

definition byte_tokenizer :: tokenizer where
  "byte_tokenizer = ascii_tokenizer\<lparr>tok_eos_token_id := None, tok_decode := (\<lambda>ids _. byte_text ids)\<rparr>"

definition byte_forward :: "(int, tensors) forward" where
  "byte_forward c ids att pos = Inr (map (map (\<lambda>i. if i = 0 then [0, 1] else [1, 0])) ids, ([], [], []))"

definition byte_hub :: "(int, tensors, unit) hub" where
  "byte_hub = demo_hub\<lparr>hub_tokenizer := (\<lambda>_. byte_tokenizer), hub_model := (\<lambda>_ _ _. (None, byte_forward))\<rparr>"

definition byte_executes ::
  "(nat \<Rightarrow> sequence) \<Rightarrow> forward_batch \<Rightarrow> (tensors, unit) qwen_state
    \<Rightarrow> (exn + int option list) \<times> (tensors, unit) qwen_state" where
  "byte_executes h b c = qwen_execute 0 byte_forward int_torch h b c"

definition byte_runner :: "(tensors, unit) qwen_state runner" where
  "byte_runner = \<lparr>eos_ids = {}, encode = map int, decode = byte_text,
     execute = byte_executes, reset = qwen_reset\<rparr>"

lemma byte_runner:
  "load_qwen_runner byte_hub name False = (byte_runner, \<lparr>cache = None, rng = ()\<rparr>)"
proof -
  have "qwen_encode byte_tokenizer False = map int" "qwen_decode byte_tokenizer = byte_text"
    by (simp_all add: fun_eq_iff qwen_encode_def qwen_decode_def byte_tokenizer_def ascii_tokenizer_def)
  moreover have "resolve_eos_ids None byte_tokenizer = {}" "pad_id_of byte_tokenizer = 0"
    by (simp_all add: resolve_eos_ids_def pad_id_of_def byte_tokenizer_def ascii_tokenizer_def)
  ultimately show ?thesis
    by (simp add: load_qwen_runner_def load_qwen_def Let_def byte_hub_def demo_hub_def qwen_runner_def byte_runner_def
      byte_executes_def fun_eq_iff)
qed

definition byte_body :: completion_request where
  "byte_body = demo_body\<lparr>stream := True, req_temperature := Fin 0\<rparr>"

text \<open>What it gives on the two batches of the demonstration, whatever else the state holds.\<close>

definition byte_script :: "int \<Rightarrow> (tensors, unit) qwen_state runner" where
  "byte_script x = \<lparr>eos_ids = {}, encode = map int, decode = byte_text,
     execute = (\<lambda>h b c. (Inr [Some x], \<lparr>cache = Some ([], [], []), rng = ()\<rparr>)),
     reset = qwen_reset\<rparr>"

lemma byte_execute:
  assumes "temperature (h 0) = Fin 0"
  shows "token_ids (h 0) = [104, 105] \<Longrightarrow> execute byte_runner h \<lparr>fb_seqs = [0], is_prefill = True\<rparr> c
      = execute (byte_script 0) h \<lparr>fb_seqs = [0], is_prefill = True\<rparr> c"
    and "token_ids (h 0) = [104, 105, 0] \<Longrightarrow> cache c = Some k \<Longrightarrow>
      execute byte_runner h \<lparr>fb_seqs = [0], is_prefill = False\<rparr> c
      = execute (byte_script 1) h \<lparr>fb_seqs = [0], is_prefill = False\<rparr> c"
  using assms
  by (simp_all add: byte_runner_def byte_executes_def byte_script_def byte_forward_def qwen_execute_def pad_and_stack_def row_width_def seq_len_token_ids pad_row_def
      mask_row_def position_row_def last_column_def last_logits_def sample_def sample_row_def int_torch_def
      Let_def)

lemma loop_step_execute:
  fixes s :: "('c, 'z) run_loop_scheme"
  assumes "pc s = Executing b current" "execute rn (seqs s) b (rstate s) = execute rn' (seqs s) b (rstate s)"
    and "reset rn = reset rn'"
  shows "loop_step rn s = loop_step rn' s"
proof -
  have "loop_next rn u = loop_next rn' u" for u :: "('c, 'z) run_loop_scheme" using assms(3) by (simp add: loop_next_def Let_def)
  then show ?thesis using assms(1,2) by (simp add: loop_step_def split: sum.split prod.split)
qed

text \<open>
  The stream begins; the loop schedules it, and executes the first token and starts on the second;
  the stream reads the first; the second token ends the request; the stream reads it and the sentinel.
\<close>

definition byte_loaded :: "(tensors, unit) qwen_state app" where
  "byte_loaded =
     \<lparr>seqs = (\<lambda>_. blank_sequence), next_id = 0, calls = [], waiting = [], running = [],
      max_batch_size = 2, max_batch_tokens = 64, members = [], pc = NotStarted,
      rstate = \<lparr>cache = None, rng = ()\<rparr>, engine_runner = byte_runner, clients = (\<lambda>_. None),
      app_settings = demo_settings, loaded = False, load_task = Warming, has_loop_task = True, accepted = []\<rparr>"

definition byte_started :: "(tensors, unit) qwen_state app" where
  "byte_started = set_client 0 \<lparr>streaming = True, sent = 0, chunks = [], got = [], outcome = Pending\<rparr>
     (arrive [104, 105] 2 (Fin 0) None {} (Inr 3) byte_loaded)"

definition byte_halfway :: "(tensors, unit) qwen_state app" where
  "byte_halfway = deliver (loop_step (byte_script 0) (loop_step (byte_script 0) byte_started))"

definition byte_delivered :: "(tensors, unit) qwen_state app" where
  "byte_delivered = deliver (deliver (loop_step (byte_script 1) (the (resume_request 0 byte_halfway))))"

definition byte_ended :: "(tensors, unit) qwen_state app" where
  "byte_ended = the (resume_request 0 (the (resume_request 0 byte_delivered)))"

lemma byte_loaded: "load_swap byte_hub demo_start = byte_loaded"
  by (simp add: byte_loaded_def byte_runner load_swap_def demo_start_def lifespan_start_def create_app_def
      loop_start_def loop_cancel_def demo_settings_def wants_model_def starts_with_def mock_model_prefix_def lit_def)

lemma byte_begins: "stream_begins 0 3 (posted byte_body byte_loaded) = Some byte_started"
proof -
  have "normalize_body byte_body = byte_body"
    by (simp add: byte_body_def normalize_body_def demo_body_def default_request_def)
  moreover have "encode byte_runner [104, 105] = [104, 105]" "eos_ids byte_runner = {}"
    by code_simp+
  ultimately show ?thesis
    by (simp add: posted_def handled_state_def completions_def stream_begins_def loop_is_dead_def Let_def
        start_request_arrive byte_started_def)
      (simp add: byte_body_def demo_body_def default_request_def byte_loaded_def)
qed

lemma reachable_byte_started: "reachable byte_hub byte_started" "engine_runner byte_started = byte_runner"
proof -
  have "reachable byte_hub byte_loaded"
    unfolding byte_loaded [symmetric] by (rule reach_step [OF reachable_demo_start serve.arrives]) (rule demo_start_facts)
  then have "reachable byte_hub (posted byte_body byte_loaded)"
    by (rule reachable_posted) (simp add: field_constraints_def byte_body_def demo_body_def default_request_def)
  then show "reachable byte_hub byte_started" by (rule reach_step) (rule serve.begins [OF byte_begins])
  show "engine_runner byte_started = byte_runner" by (simp add: byte_started_def byte_loaded_def)
qed

lemma byte_resets: "reset byte_runner = reset (byte_script x)"
  by (simp add: byte_runner_def byte_script_def)

lemma byte_steps:
  "loop_step byte_runner byte_started = loop_step (byte_script 0) byte_started"
  "loop_step byte_runner (loop_step (byte_script 0) byte_started)
     = loop_step (byte_script 0) (loop_step (byte_script 0) byte_started)"
  "loop_step byte_runner (the (resume_request 0 byte_halfway))
     = loop_step (byte_script 1) (the (resume_request 0 byte_halfway))"
proof -
  have "pc byte_started = NotStarted" by code_simp
  then show "loop_step byte_runner byte_started = loop_step (byte_script 0) byte_started"
    by (simp add: loop_step_def loop_next_def Let_def byte_resets [of 0])
  let ?s = "loop_step (byte_script 0) byte_started"
  have p: "pc ?s = Executing \<lparr>fb_seqs = [0], is_prefill = True\<rparr> [0]" by code_simp
  have "temperature (seqs ?s 0) = Fin 0" "token_ids (seqs ?s 0) = [104, 105]" by code_simp+
  from byte_execute(1) [where h = "seqs ?s", OF this] byte_resets
  show "loop_step byte_runner ?s = loop_step (byte_script 0) ?s" by (rule loop_step_execute [OF p])
  let ?u = "the (resume_request 0 byte_halfway)"
  have q: "pc ?u = Executing \<lparr>fb_seqs = [0], is_prefill = False\<rparr> [0]" by code_simp
  have "temperature (seqs ?u 0) = Fin 0" "token_ids (seqs ?u 0) = [104, 105, 0]"
    "cache (rstate ?u) = Some ([], [], [])" by code_simp+
  from byte_execute(2) [where h = "seqs ?u", OF this] byte_resets
  show "loop_step byte_runner ?u = loop_step (byte_script 1) ?u" by (rule loop_step_execute [OF q])
qed

lemma byte_loop_step:
  "reachable byte_hub s \<Longrightarrow> engine_runner s = byte_runner \<Longrightarrow> loop_step byte_runner s = t \<Longrightarrow>
    reachable byte_hub t \<and> engine_runner t = byte_runner"
  using reachable_loop_step [of byte_hub s] by auto

lemma reachable_byte_ended: "reachable byte_hub byte_ended" "engine_runner byte_ended = byte_runner"
proof -
  have s: "reachable byte_hub (loop_step (byte_script 0) (loop_step (byte_script 0) byte_started))"
    "engine_runner (loop_step (byte_script 0) (loop_step (byte_script 0) byte_started)) = byte_runner"
    using byte_loop_step [OF reachable_byte_started byte_steps(1)] byte_loop_step [OF _ _ byte_steps(2)] by blast+
  have "calls (loop_step (byte_script 0) (loop_step (byte_script 0) byte_started)) \<noteq> []" by code_simp
  then have h: "reachable byte_hub byte_halfway" "engine_runner byte_halfway = byte_runner"
    unfolding byte_halfway_def using s by (simp_all add: reachable_deliver)
  have "resume_request 0 byte_halfway \<noteq> None" by code_simp
  then obtain u where u: "resume_request 0 byte_halfway = Some u" by auto
  then have "reachable byte_hub u" "engine_runner u = byte_runner"
    using reach_step [OF h(1) serve.resume [OF u]] resume_engine [OF u] h(2) by simp_all
  then have t: "reachable byte_hub (loop_step (byte_script 1) (the (resume_request 0 byte_halfway)))"
    "engine_runner (loop_step (byte_script 1) (the (resume_request 0 byte_halfway))) = byte_runner"
    using byte_loop_step [OF _ _ byte_steps(3)] by (simp_all add: u)
  have "calls (loop_step (byte_script 1) (the (resume_request 0 byte_halfway))) \<noteq> []"
    "calls (deliver (loop_step (byte_script 1) (the (resume_request 0 byte_halfway)))) \<noteq> []" by code_simp+
  then have d: "reachable byte_hub byte_delivered" "engine_runner byte_delivered = byte_runner"
    unfolding byte_delivered_def using t by (simp_all add: reachable_deliver)
  have "resume_request 0 byte_delivered \<noteq> None"
    "resume_request 0 (the (resume_request 0 byte_delivered)) \<noteq> None" by code_simp+
  then obtain v w where v: "resume_request 0 byte_delivered = Some v" and w: "resume_request 0 v = Some w" by auto
  have "reachable byte_hub w" by (rule reach_step [OF reach_step [OF d(1) serve.resume [OF v]] serve.resume [OF w]])
  then show "reachable byte_hub byte_ended" by (simp add: byte_ended_def v w)
  show "engine_runner byte_ended = byte_runner"
    using resume_engine [OF v] resume_engine [OF w] d(2) by (simp add: byte_ended_def v w)
qed

text \<open>C12: a stream can lose text.  On a tokenizer that decodes an incomplete character to the
  replacement character -- one character, like the complete one --, there is a reachable state in
  which a stream has ended, all tokens of the output came through its queue, the one-shot text of this output
  is U+00E9, and the text the stream has sent is U+FFFD: the complete character never replaces it,
  because the stream only sends what is beyond the length already sent.\<close>

theorem stream_can_lose_text:
  "\<exists>H :: (int, tensors, unit) hub. \<exists>s r c. reachable H s \<and> clients s r = Some c \<and> streaming c \<and> outcome c = Ended \<and>
     before_none (got c) = output_ids (seqs s r) \<and> decode (engine_runner s) (output_ids (seqs s r)) = [233] \<and>
     concat (map chunk_text (chunks c)) = [65533]"
proof -
  let ?c = "\<lparr>streaming = True, sent = 1,
    chunks = [\<lparr>chunk_text = [replacement_char], chunk_reason = None\<rparr>, \<lparr>chunk_text = [], chunk_reason = Some ''length''\<rparr>],
    got = [Some 0, Some 1, None], outcome = Ended\<rparr>"
  have "clients byte_ended 0 = Some ?c" "output_ids (seqs byte_ended 0) = [0, 1]"
    "decode byte_runner [0, 1] = [233]"
    by code_simp+
  then have "reachable byte_hub byte_ended \<and> clients byte_ended 0 = Some ?c \<and> streaming ?c \<and> outcome ?c = Ended \<and>
      before_none (got ?c) = output_ids (seqs byte_ended 0) \<and>
      decode (engine_runner byte_ended) (output_ids (seqs byte_ended 0)) = [233] \<and>
      concat (map chunk_text (chunks ?c)) = [65533]"
    by (simp add: reachable_byte_ended replacement_char_def)
  then show ?thesis by blast
qed

end
